(* ===== verification/Kodo_Prelude.thy ===== *)
theory Kodo_Prelude
  imports Main "HOL-Library.Word" "HOL-Library.Sublist" "HOL-Library.Mapping"
begin

text \<open>
  Shared vocabulary of the development: the machine types of the Rust sources, the checked
  and saturating arithmetic of the standard library, the result type, and the two
  interfaces that several components provide: a loop that evicts from the front of a
  queue, and a consumer of a byte stream that arrives in arbitrary chunks.
\<close>

section \<open>Collections of facts\<close>

named_theorems invariant_intros \<open>one rule per operation: the operation keeps its invariant\<close>
named_theorems step_defs \<open>definitions unfolded when an operation is followed branch by branch\<close>

section \<open>Machine types\<close>

text \<open>
  A \<open>u64\<close> is a 64-bit word.  A \<open>usize\<close> measures lists and buffers, so it is a natural
  number, and the places where the code guards against its overflow use the checked
  operations below.  The targets of the release build are 64-bit.  A Rust
  \<open>String\<close> is its UTF-8 bytes, and a \<open>char\<close> of HOL is one byte, so \<open>length\<close> is
  Rust's \<open>len\<close>.  \<open>Instant\<close> counts nanoseconds of the monotonic clock.
\<close>

type_synonym u64 = "64 word"
type_synonym u16 = "16 word"
type_synonym usize = nat
type_synonym uuid = "128 word"
type_synonym byte = char
type_synonym bytes = "byte list"
type_synonym instant = nat

abbreviation byte_val :: "byte \<Rightarrow> nat" where
  "byte_val b \<equiv> of_char b"

definition usize_max :: nat where
  "usize_max = 2 ^ 64 - 1"

definition u64_max :: u64 where
  "u64_max = - 1"

definition checked_add :: "usize \<Rightarrow> usize \<Rightarrow> usize option" where
  "checked_add a b = (if a + b \<le> usize_max then Some (a + b) else None)"

definition checked_mul :: "usize \<Rightarrow> usize \<Rightarrow> usize option" where
  "checked_mul a b = (if a * b \<le> usize_max then Some (a * b) else None)"

definition saturating_add :: "usize \<Rightarrow> usize \<Rightarrow> usize" where
  "saturating_add a b = min (a + b) usize_max"

text \<open>\<open>u64::saturating_add\<close>: the sum, or the largest word when the sum wraps.\<close>

definition saturating_add_u64 :: "u64 \<Rightarrow> u64 \<Rightarrow> u64" where
  "saturating_add_u64 a b = (if a + b < a then u64_max else a + b)"

lemma checked_add_Some [simp]: "checked_add a b = Some c \<longleftrightarrow> c = a + b \<and> a + b \<le> usize_max"
  by (auto simp: checked_add_def)

lemma checked_mul_Some [simp]: "checked_mul a b = Some c \<longleftrightarrow> c = a * b \<and> a * b \<le> usize_max"
  by (auto simp: checked_mul_def)

lemma unat_saturating_add_u64_1:
  "unat (saturating_add_u64 a 1) = min (unat a + 1) (2 ^ 64 - 1)"
proof (cases "a = - 1")
  case True
  then show ?thesis by (simp add: saturating_add_u64_def u64_max_def unsigned_minus_1_eq_mask mask_eq_exp_minus_1 word_less_nat_alt)
next
  case False
  then have u: "unat (a + 1) = unat a + 1"
    by (metis Suc_eq_plus1 add.commute unatSuc add_eq_0_iff)
  moreover have "unat (a + 1) < 2 ^ 64"
    using unsigned_less [of "a + 1"] by simp
  ultimately show ?thesis
    by (simp add: saturating_add_u64_def word_less_nat_alt)
qed

lemma unat_word_Suc: "unat (a :: u64) + 1 < 2 ^ 64 \<Longrightarrow> unat (a + 1) = unat a + 1"
  by (subst unat_add_lem [THEN iffD1]) simp_all

section \<open>Errors of the operating system\<close>

datatype io_kind = NotFound | WouldBlock | InvalidData | AlreadyExists | OtherKind

datatype io_error = IoError (io_kind_of: io_kind) (io_message: string)

section \<open>Decimal rendering\<close>

text \<open>\<open>Display\<close> of an unsigned integer.\<close>

definition digit_char :: "nat \<Rightarrow> char" where
  "digit_char d = char_of (48 + d)"

fun show_nat :: "nat \<Rightarrow> string" where
  "show_nat n = (if n < 10 then [digit_char n] else show_nat (n div 10) @ [digit_char (n mod 10)])"

declare show_nat.simps [simp del]

definition read_nat :: "string \<Rightarrow> nat" where
  "read_nat = foldl (\<lambda>n c. 10 * n + (of_char c - 48)) 0"

lemma read_show_nat: "read_nat (show_nat n) = n"
proof (induction n rule: show_nat.induct)
  case (1 n)
  have digit: "of_char (digit_char d) - 48 = d" if "d < 10" for d :: nat
    using that by (simp add: digit_char_def)
  show ?case
  proof (cases "n < 10")
    case True
    then show ?thesis by (subst show_nat.simps) (simp add: read_nat_def digit)
  next
    case False
    have "read_nat (show_nat n) = 10 * read_nat (show_nat (n div 10)) + (of_char (digit_char (n mod 10)) - 48)"
      using False by (subst show_nat.simps) (simp add: read_nat_def)
    also have "\<dots> = 10 * (n div 10) + n mod 10" using False 1 digit by simp
    finally show ?thesis by simp
  qed
qed

lemma show_nat_inject: "show_nat n = show_nat m \<longleftrightarrow> n = m"
  by (metis read_show_nat)

section \<open>Lists\<close>

lemma sum_list_append_single [simp]: "sum_list (map f (xs @ [x])) = sum_list (map f xs) + (f x :: nat)"
  by simp

lemma sum_list_drop_le: "sum_list (drop k (xs :: nat list)) \<le> sum_list xs"
  by (metis append_take_drop_id le_add2 sum_list.append)

lemma take_add_drop: "take n xs @ take m (drop n xs) = take (n + m) xs"
  by (simp add: take_add)

lemma prefix_map_inj: "inj f \<Longrightarrow> prefix (map f xs) (map f ys) \<longleftrightarrow> prefix xs ys"
proof (induction xs arbitrary: ys)
  case (Cons x xs)
  then show ?case by (cases ys) (auto simp: inj_eq)
qed simp

lemma lookup_delete':
  "Mapping.lookup (Mapping.delete k m) k' = (if k = k' then None else Mapping.lookup m k')"
  by (simp add: lookup_delete lookup_delete_neq)

lemma map_of_snoc: "k \<notin> fst ` set xs \<Longrightarrow> map_of (xs @ [(k, v)]) = (map_of xs)(k \<mapsto> v)"
  by (rule ext) (auto simp: map_add_def map_of_eq_None_iff [symmetric] split: option.splits)

lemma map_project_update:
  "i < length xs \<Longrightarrow> f x = f (xs ! i) \<Longrightarrow> map f (xs[i := x]) = map f xs"
  by (simp add: map_update list_update_same_conv)

lemma map_upd_dom_card:
  assumes "finite (dom m)"
  shows "card (dom (m(k \<mapsto> v))) = (if k \<in> dom m then card (dom m) else Suc (card (dom m)))"
  using assms by (auto simp: insert_absorb card_insert_if)

lemma finite_dom_fun_upd_None [simp]: "finite (dom m) \<Longrightarrow> finite (dom (m(k := None)))"
  by (simp add: dom_fun_upd)

section \<open>Evicting from the front of a queue\<close>

text \<open>
  Three loops of the code pop the oldest entry of a queue while a budget is exceeded: the
  output retention of a process, and the two evictions of the response cache.  The
  contract names the queue, the test and the body of such a loop; the conclusions are
  what the clients of the loop need.
\<close>

locale front_eviction =
  fixes queue :: "'s \<Rightarrow> 'e list"
    and over :: "'s \<Rightarrow> bool"
    and drop_front :: "'s \<Rightarrow> 's"
    and evict_loop :: "'s \<Rightarrow> 's"
  assumes queue_drop_front: "queue s \<noteq> [] \<Longrightarrow> queue (drop_front s) = tl (queue s)"
    and loop_stop: "queue s = [] \<or> \<not> over s \<Longrightarrow> evict_loop s = s"
    and loop_step: "queue s \<noteq> [] \<Longrightarrow> over s \<Longrightarrow> evict_loop s = evict_loop (drop_front s)"
begin

lemma loop_induct [case_names stop step]:
  assumes stop: "\<And>s. queue s = [] \<or> \<not> over s \<Longrightarrow> P s"
    and step: "\<And>s. queue s \<noteq> [] \<Longrightarrow> over s \<Longrightarrow> P (drop_front s) \<Longrightarrow> P s"
  shows "P s"
proof (induction "length (queue s)" arbitrary: s rule: less_induct)
  case less
  show ?case
  proof (cases "queue s = [] \<or> \<not> over s")
    case True
    then show ?thesis by (rule stop)
  next
    case False
    then have "length (queue (drop_front s)) < length (queue s)"
      by (simp add: queue_drop_front)
    then have "P (drop_front s)" by (rule less)
    with False show ?thesis by (blast intro: step)
  qed
qed

lemma loop_done: "queue (evict_loop s) = [] \<or> \<not> over (evict_loop s)"
proof (induction s rule: loop_induct)
  case (stop s)
  then show ?case by (simp add: loop_stop)
next
  case (step s)
  then show ?case by (simp add: loop_step)
qed

lemma loop_suffix: "suffix (queue (evict_loop s)) (queue s)"
proof (induction s rule: loop_induct)
  case (stop s)
  then show ?case by (simp add: loop_stop)
next
  case (step s)
  then have "suffix (queue (evict_loop s)) (tl (queue s))"
    by (simp add: loop_step queue_drop_front)
  then show ?case
    using suffix_order.trans suffix_tl by blast
qed

lemma loop_invariant:
  assumes keep: "\<And>s. I s \<Longrightarrow> queue s \<noteq> [] \<Longrightarrow> over s \<Longrightarrow> I (drop_front s)"
  shows "I s \<Longrightarrow> I (evict_loop s)"
proof (induction s rule: loop_induct)
  case (stop s)
  then show ?case by (simp add: loop_stop)
next
  case (step s)
  then show ?case by (simp add: loop_step keep)
qed

text \<open>The loop stops at the first state within budget, so it never evicts more than it must.\<close>

lemma loop_minimal:
  "\<exists>k. evict_loop s = (drop_front ^^ k) s \<and> (\<forall>j < k. over ((drop_front ^^ j) s))"
proof (induction s rule: loop_induct)
  case (stop s)
  then show ?case by (intro exI [of _ 0]) (simp add: loop_stop)
next
  case (step s)
  then obtain k where k: "evict_loop s = (drop_front ^^ k) (drop_front s)"
    and over: "\<forall>j < k. over ((drop_front ^^ j) (drop_front s))"
    by (auto simp: loop_step)
  have "\<forall>j < Suc k. over ((drop_front ^^ j) s)"
  proof (intro allI impI)
    fix j assume "j < Suc k"
    with over step(2) show "over ((drop_front ^^ j) s)"
      by (cases j) (simp_all add: funpow_swap1)
  qed
  with k show ?case by (intro exI [of _ "Suc k"]) (simp add: funpow_swap1)
qed

lemma loop_drop_measure:
  assumes "\<And>s. queue s \<noteq> [] \<Longrightarrow> over s \<Longrightarrow> f (drop_front s) = f s"
  shows "f (evict_loop s) = f s"
proof (induction s rule: loop_induct)
  case (stop s)
  then show ?case by (simp add: loop_stop)
next
  case (step s)
  then show ?case by (simp add: loop_step assms)
qed

end

section \<open>Consuming a stream chunk by chunk\<close>

text \<open>
  A reader hands over a byte stream in pieces whose boundaries carry no meaning.  A
  consumer whose state after reading \<open>xs\<close> is a function \<open>view xs\<close> of the bytes alone
  cannot observe the boundaries.
\<close>

locale stream_consumer =
  fixes consume :: "'s \<Rightarrow> 'b list \<Rightarrow> 's"
    and view :: "'b list \<Rightarrow> 's"
  assumes consume_view: "consume (view xs) ys = view (xs @ ys)"
begin

lemma foldl_consume: "foldl consume (view xs) chunks = view (xs @ concat chunks)"
  by (induction chunks arbitrary: xs) (simp_all add: consume_view)

lemma chunking_irrelevant:
  "concat chunks = concat chunks' \<Longrightarrow>
   foldl consume (view xs) chunks = foldl consume (view xs) chunks'"
  by (simp add: foldl_consume)

end

end
