(* ===== verification/Protocol.thy ===== *)
theory Protocol
  imports Kodo_Prelude
begin

text \<open>
  The wire contract of \<^verbatim>\<open>src/crates/kodo/src/protocol.rs\<close>: the execution limits that the
  control plane supplies when the runner joins its channel, their validation, and the
  request and result types that the other components exchange.  An error is the
  message that the code returns.
\<close>

section \<open>Constants\<close>

definition PROTOCOL_VERSION :: u16 where "PROTOCOL_VERSION = 5"
definition LIMITS_VERSION :: u16 where "LIMITS_VERSION = 1"
definition MAX_AUTHORITY_LEASE_MS :: u64 where "MAX_AUTHORITY_LEASE_MS = 15000"
definition MAX_CONNECTED_PAYLOAD_BYTES :: usize where
  "MAX_CONNECTED_PAYLOAD_BYTES = 4 * 1024 * 1024 - 4 * 1024"
definition JSON_ESCAPE_EXPANSION :: usize where "JSON_ESCAPE_EXPANSION = 6"
definition RESPONSE_ENVELOPE_BYTES :: usize where "RESPONSE_ENVELOPE_BYTES = 4 * 1024"
definition RESULT_METADATA_BYTES :: usize where "RESULT_METADATA_BYTES = 512"
definition MAX_LIMIT_VALUE :: usize where "MAX_LIMIT_VALUE = 2 ^ 32 - 1"
definition MAX_BLOCKING_TOOLS :: usize where "MAX_BLOCKING_TOOLS = 1024"

lemmas protocol_constants =
  PROTOCOL_VERSION_def LIMITS_VERSION_def MAX_AUTHORITY_LEASE_MS_def
  MAX_CONNECTED_PAYLOAD_BYTES_def JSON_ESCAPE_EXPANSION_def RESPONSE_ENVELOPE_BYTES_def
  RESULT_METADATA_BYTES_def MAX_LIMIT_VALUE_def MAX_BLOCKING_TOOLS_def

section \<open>Execution limits\<close>

record execution_limits =
  version :: u16
  max_output_bytes :: usize
  max_results :: usize
  max_patch_input_bytes :: usize
  max_file_input_bytes :: usize
  max_blocking_tools :: usize
  max_retained_processes :: usize
  max_process_output_chunks :: usize
  max_cached_requests :: usize
  max_cached_response_bytes :: usize

definition standalone :: execution_limits where
  "standalone = \<lparr>
     version = LIMITS_VERSION,
     max_output_bytes = 256 * 1024,
     max_results = 1000,
     max_patch_input_bytes = 512 * 1024,
     max_file_input_bytes = 16 * 1024 * 1024,
     max_blocking_tools = 8,
     max_retained_processes = 1024,
     max_process_output_chunks = 1024,
     max_cached_requests = 1024,
     max_cached_response_bytes = 16 * 1024 * 1024\<rparr>"

definition quotas :: "execution_limits \<Rightarrow> usize list" where
  "quotas l =
     [max_output_bytes l, max_results l, max_patch_input_bytes l, max_file_input_bytes l,
      max_blocking_tools l, max_retained_processes l, max_process_output_chunks l,
      max_cached_requests l, max_cached_response_bytes l]"

definition maximum_encoded_response_bytes :: "execution_limits \<Rightarrow> string + usize" where
  "maximum_encoded_response_bytes l =
     (case checked_add (max_results l) (max_process_output_chunks l) of
        None \<Rightarrow> Inl ''runner limits exceed addressable memory''
      | Some metadata_entries \<Rightarrow>
          (case Option.bind
                  (Option.bind (checked_mul (max_output_bytes l) JSON_ESCAPE_EXPANSION)
                    (\<lambda>bytes. Option.bind (checked_mul metadata_entries RESULT_METADATA_BYTES)
                      (\<lambda>metadata. checked_add bytes metadata)))
                  (\<lambda>bytes. checked_add bytes RESPONSE_ENVELOPE_BYTES) of
             None \<Rightarrow> Inl ''runner limits exceed addressable memory''
           | Some bytes \<Rightarrow> Inr bytes))"

definition validate :: "execution_limits \<Rightarrow> string + unit" where
  "validate l =
     (if version l \<noteq> LIMITS_VERSION then
        Inl (''unsupported limits version '' @ show_nat (unat (version l)) @ ''; expected '' @
             show_nat (unat LIMITS_VERSION))
      else if 0 \<in> set (quotas l) then Inl ''runner limits must be nonzero''
      else if list_ex (\<lambda>quota. quota > MAX_LIMIT_VALUE) (quotas l) then
        Inl ''runner limits exceed the platform-independent maximum''
      else if max_blocking_tools l > MAX_BLOCKING_TOOLS then
        Inl ''max_blocking_tools exceeds the supported maximum''
      else case maximum_encoded_response_bytes l of
        Inl e \<Rightarrow> Inl e
      | Inr maximum_response_bytes \<Rightarrow>
          if maximum_response_bytes > MAX_CONNECTED_PAYLOAD_BYTES then
            Inl ''maximum encoded response exceeds the connected transport limit''
          else if max_cached_response_bytes l < maximum_response_bytes then
            Inl ''response cache cannot retain one maximum-sized encoded response''
          else case Option.bind (checked_mul (max_patch_input_bytes l) JSON_ESCAPE_EXPANSION)
                      (\<lambda>bytes. checked_add bytes RESPONSE_ENVELOPE_BYTES) of
            None \<Rightarrow> Inl ''runner limits exceed addressable memory''
          | Some maximum_patch_bytes \<Rightarrow>
              if maximum_patch_bytes > MAX_CONNECTED_PAYLOAD_BYTES then
                Inl ''maximum encoded patch exceeds the connected transport limit''
              else Inr ())"

section \<open>Requests, results and envelopes\<close>

record authority_lease =
  lease_session_id :: uuid
  lease_ownership_epoch :: u64
  lease_ttl_ms :: u64

datatype tool_request =
    ListFiles string
  | SearchCode string "string list"
  | ReadFile string usize usize
  | GitStatus
  | GitDiff "string list"
  | ApplyPatch string
  | ReplaceText string string string
  | StartCommand string string u64
  | PollCommand uuid u64
  | StopCommand uuid u64

datatype output_stream = Stdout | Stderr

record command_output =
  sequence :: u64
  stream :: output_stream
  content :: string
  truncated :: bool

datatype process_status = Running | Exited "32 word option" | TimedOut | Stopped

record search_match =
  match_path :: string
  match_line :: usize
  match_content :: string

datatype tool_result =
    Files "string list" bool
  | Matches "search_match list" bool
  | File string usize "usize option" bool
  | Output string bool
  | FilesChanged "string list"
  | CommandStarted uuid
  | CommandPoll uuid process_status "command_output list" u64 u64 bool

record request_envelope =
  req_protocol_version :: u16
  req_request_id :: uuid
  req_authority :: "authority_lease option"
  req_request :: tool_request

datatype response_envelope =
    Success u16 uuid tool_result
  | Error u16 "uuid option" string

section \<open>What validation establishes\<close>

text \<open>
  The policy the code means to enforce, without the machine arithmetic: the budget of an
  encoded response is a plain linear expression of the limits.
\<close>

definition response_budget :: "execution_limits \<Rightarrow> nat" where
  "response_budget l =
     6 * max_output_bytes l + 512 * (max_results l + max_process_output_chunks l) + 4096"

definition limits_ok :: "execution_limits \<Rightarrow> bool" where
  "limits_ok l \<longleftrightarrow>
     version l = 1 \<and>
     (\<forall>q \<in> set (quotas l). 1 \<le> q \<and> q < 2 ^ 32) \<and>
     max_blocking_tools l \<le> 1024 \<and>
     response_budget l \<le> 4190208 \<and>
     response_budget l \<le> max_cached_response_bytes l \<and>
     6 * max_patch_input_bytes l + 4096 \<le> 4190208"

lemma maximum_encoded_response_bytes_eq:
  assumes "max_output_bytes l < 2 ^ 32" "max_results l < 2 ^ 32"
    "max_process_output_chunks l < 2 ^ 32"
  shows "maximum_encoded_response_bytes l = Inr (response_budget l)"
  using assms
  by (simp add: maximum_encoded_response_bytes_def response_budget_def checked_add_def
      checked_mul_def usize_max_def protocol_constants)

lemma validate_within_range:
  assumes "version l = LIMITS_VERSION" "0 \<notin> set (quotas l)" "\<forall>q \<in> set (quotas l). q < 2 ^ 32"
    "max_blocking_tools l \<le> 1024"
  shows "validate l = Inr () \<longleftrightarrow>
    response_budget l \<le> 4190208 \<and> response_budget l \<le> max_cached_response_bytes l \<and>
    6 * max_patch_input_bytes l + 4096 \<le> 4190208"
proof -
  have small: "max_output_bytes l < 2 ^ 32" "max_results l < 2 ^ 32"
      "max_process_output_chunks l < 2 ^ 32" "max_patch_input_bytes l < 2 ^ 32"
    using assms(3) by (auto simp: quotas_def)
  have no_big: "\<not> list_ex (\<lambda>quota. quota > MAX_LIMIT_VALUE) (quotas l)"
    using assms(3) by (auto simp: list_ex_iff MAX_LIMIT_VALUE_def)
  have patch: "Option.bind (checked_mul (max_patch_input_bytes l) JSON_ESCAPE_EXPANSION)
      (\<lambda>bytes. checked_add bytes RESPONSE_ENVELOPE_BYTES) = Some (6 * max_patch_input_bytes l + 4096)"
    using small(4)
    by (simp add: checked_mul_def checked_add_def usize_max_def protocol_constants)
  show ?thesis
    using assms(1,2,4) no_big
    by (auto simp: validate_def patch maximum_encoded_response_bytes_eq [OF small(1-3)]
        MAX_CONNECTED_PAYLOAD_BYTES_def MAX_BLOCKING_TOOLS_def split: if_splits)
qed

lemma validate_limits_ok: "validate l = Inr () \<longleftrightarrow> limits_ok l"
proof (cases "version l = LIMITS_VERSION \<and> 0 \<notin> set (quotas l) \<and>
    (\<forall>q \<in> set (quotas l). q < 2 ^ 32) \<and> max_blocking_tools l \<le> 1024")
  case True
  then have "\<forall>q \<in> set (quotas l). 1 \<le> q" by (metis less_one not_le)
  with True validate_within_range [of l] show ?thesis
    by (auto simp: limits_ok_def LIMITS_VERSION_def)
next
  case False
  then have "validate l \<noteq> Inr ()"
    by (auto simp: validate_def list_ex_iff MAX_LIMIT_VALUE_def MAX_BLOCKING_TOOLS_def not_less
        split: if_splits)
  moreover have "\<not> limits_ok l"
    using False by (auto simp: limits_ok_def LIMITS_VERSION_def)
  ultimately show ?thesis by simp
qed

lemma limits_ok_nonzero:
  assumes "limits_ok l"
  shows "0 < max_output_bytes l" "0 < max_results l" "0 < max_patch_input_bytes l"
    "0 < max_file_input_bytes l" "0 < max_blocking_tools l" "0 < max_retained_processes l"
    "0 < max_process_output_chunks l" "0 < max_cached_requests l"
    "0 < max_cached_response_bytes l"
  using assms by (auto simp: limits_ok_def quotas_def)

lemma standalone_ok: "limits_ok standalone"
  by (simp add: limits_ok_def standalone_def quotas_def response_budget_def protocol_constants)

section \<open>Properties\<close>

text \<open>Validation accepts exactly the consistent limits: the right version, every quota
  between 1 and \<open>2 ^ 32 - 1\<close>, at most 1024 blocking tools, and an encoded response budget, computed
  without overflow, that fits the transport and the replay cache; the built-in limits of
  a standalone runner are among them.\<close>

theorem validation_characterized:
  "(validate l = Inr () \<longleftrightarrow> limits_ok l) \<and> validate standalone = Inr ()"
  using validate_limits_ok standalone_ok by simp

end
