(* ===== verification/Rust_Utf8.thy ===== *)
theory Rust_Utf8
  imports Kodo_Prelude
begin

text \<open>
  The part of Rust's standard library that decides what a \<open>String\<close> is: the UTF-8
  validator behind \<open>str::from_utf8\<close> (with \<open>valid_up_to\<close> and \<open>error_len\<close>), the
  lossy decoder \<open>String::from_utf8_lossy\<close> and \<open>str::is_char_boundary\<close>.  The last
  section states the contract shared by the three \<open>truncate_utf8\<close> functions of the
  runner.
\<close>

section \<open>One scalar\<close>

definition is_cont :: "byte \<Rightarrow> bool" where
  "is_cont b \<longleftrightarrow> 128 \<le> byte_val b \<and> byte_val b \<le> 191"

text \<open>The width table of the standard library; 0 marks a byte that starts no scalar.\<close>

definition utf8_char_width :: "byte \<Rightarrow> nat" where
  "utf8_char_width b =
     (let n = byte_val b in
      if n \<le> 127 then 1
      else if 194 \<le> n \<and> n \<le> 223 then 2
      else if 224 \<le> n \<and> n \<le> 239 then 3
      else if 240 \<le> n \<and> n \<le> 244 then 4
      else 0)"

text \<open>The ranges of the second byte of a three- or four-byte sequence.\<close>

definition second_ok :: "byte \<Rightarrow> byte \<Rightarrow> bool" where
  "second_ok a b =
     (let m = byte_val a; n = byte_val b in
      if m = 224 then 160 \<le> n \<and> n \<le> 191
      else if m = 237 then 128 \<le> n \<and> n \<le> 159
      else if m = 240 then 144 \<le> n \<and> n \<le> 191
      else if m = 244 then 128 \<le> n \<and> n \<le> 143
      else 128 \<le> n \<and> n \<le> 191)"

text \<open>
  What the validator sees at the front of a non-empty input: a scalar of some width, an
  invalid sequence of some length (\<open>error_len = Some k\<close>), or the start of a scalar
  that the input cuts off (\<open>error_len = None\<close>).
\<close>

datatype utf8_item = Scalar nat | Invalid nat | Incomplete

fun utf8_next :: "bytes \<Rightarrow> utf8_item" where
  "utf8_next [] = Incomplete"
| "utf8_next (a # bs) =
     (if utf8_char_width a = 1 then Scalar 1
      else if utf8_char_width a = 2 then
        (case bs of [] \<Rightarrow> Incomplete | b # _ \<Rightarrow> if is_cont b then Scalar 2 else Invalid 1)
      else if utf8_char_width a = 3 then
        (case bs of [] \<Rightarrow> Incomplete
         | b # cs \<Rightarrow> if \<not> second_ok a b then Invalid 1
             else (case cs of [] \<Rightarrow> Incomplete
                   | c # _ \<Rightarrow> if is_cont c then Scalar 3 else Invalid 2))
      else if utf8_char_width a = 4 then
        (case bs of [] \<Rightarrow> Incomplete
         | b # cs \<Rightarrow> if \<not> second_ok a b then Invalid 1
             else (case cs of [] \<Rightarrow> Incomplete
                   | c # ds \<Rightarrow> if \<not> is_cont c then Invalid 2
                       else (case ds of [] \<Rightarrow> Incomplete
                             | d # _ \<Rightarrow> if is_cont d then Scalar 4 else Invalid 3)))
      else Invalid 1)"

lemma second_ok_cont: "second_ok a b \<Longrightarrow> is_cont b"
  by (auto simp: second_ok_def is_cont_def Let_def split: if_splits)

lemma width_not_cont: "0 < utf8_char_width a \<Longrightarrow> \<not> is_cont a"
  by (auto simp: utf8_char_width_def is_cont_def Let_def split: if_splits)

lemma utf8_next_append:
  "utf8_next bs \<noteq> Incomplete \<Longrightarrow> utf8_next (bs @ ys) = utf8_next bs"
  by (cases bs) (auto split: list.splits if_splits)

text \<open>The four shapes of a scalar, as an elimination rule.\<close>

lemma utf8_next_ScalarE:
  assumes "utf8_next bs = Scalar w"
  obtains (one) a r where "bs = a # r" "w = 1" "utf8_char_width a = 1"
    | (two) a b r where "bs = a # b # r" "w = 2" "utf8_char_width a = 2" "is_cont b"
    | (three) a b c r where "bs = a # b # c # r" "w = 3" "utf8_char_width a = 3"
        "second_ok a b" "is_cont c"
    | (four) a b c d r where "bs = a # b # c # d # r" "w = 4" "utf8_char_width a = 4"
        "second_ok a b" "is_cont c" "is_cont d"
  using assms by (cases bs) (auto split: list.splits if_splits)

lemma utf8_next_Scalar:
  assumes "utf8_next bs = Scalar w"
  shows "0 < w" "w \<le> length bs" "w \<le> 4" "\<not> is_cont (hd bs)" "bs \<noteq> []"
  using assms by (cases rule: utf8_next_ScalarE; simp add: width_not_cont)+

lemma utf8_next_Invalid:
  assumes "utf8_next bs = Invalid k"
  shows "0 < k" "k \<le> length bs" "k \<le> 3" "bs \<noteq> []"
proof -
  have "0 < k \<and> k \<le> length bs \<and> k \<le> 3 \<and> bs \<noteq> []"
    using assms by (cases bs) (auto split: list.splits if_splits)
  then show "0 < k" "k \<le> length bs" "k \<le> 3" "bs \<noteq> []" by auto
qed

lemma utf8_next_Incomplete: "utf8_next bs = Incomplete \<Longrightarrow> length bs \<le> 3"
  by (cases bs) (auto split: list.splits if_splits)

lemma utf8_next_take:
  assumes "utf8_next bs = Scalar w"
  shows "utf8_next (take w bs @ ys) = Scalar w"
  using assms by (cases rule: utf8_next_ScalarE) (simp_all add: numeral_3_eq_3 numeral_Bit0)

lemma utf8_next_inner:
  assumes "utf8_next bs = Scalar w" "0 < i" "i < w"
  shows "is_cont (bs ! i)"
  using assms(1)
proof (cases rule: utf8_next_ScalarE)
  case (two a b r)
  with assms have "i = 1" by simp
  with two show ?thesis by simp
next
  case (three a b c r)
  with assms have "i = 1 \<or> i = 2" by auto
  with three show ?thesis by (auto dest: second_ok_cont)
next
  case (four a b c d r)
  with assms have "i = 1 \<or> i = 2 \<or> i = 3" by auto
  with four show ?thesis by (auto dest: second_ok_cont)
qed (use assms in simp)

section \<open>Validation and lossy decoding\<close>

text \<open>
  \<open>str::from_utf8\<close>: success, or the error's \<open>valid_up_to\<close> and \<open>error_len\<close>.  The
  first argument is the index the validator has reached.
\<close>

function from_utf8_at :: "nat \<Rightarrow> bytes \<Rightarrow> (nat \<times> nat option) + unit" where
  "from_utf8_at n bs =
     (if bs = [] then Inr ()
      else case utf8_next bs of
        Scalar w \<Rightarrow> from_utf8_at (n + w) (drop w bs)
      | Invalid k \<Rightarrow> Inl (n, Some k)
      | Incomplete \<Rightarrow> Inl (n, None))"
  by pat_completeness auto
termination
  by (relation "measure (\<lambda>(n, bs). length bs)") (auto dest: utf8_next_Scalar)

declare from_utf8_at.simps [simp del]

definition from_utf8 :: "bytes \<Rightarrow> (nat \<times> nat option) + unit" where
  "from_utf8 bs = from_utf8_at 0 bs"

definition valid_utf8 :: "bytes \<Rightarrow> bool" where
  "valid_utf8 bs \<longleftrightarrow> from_utf8 bs = Inr ()"

text \<open>The replacement character U+FFFD in UTF-8.\<close>

definition replacement :: bytes where
  "replacement = [char_of (239::nat), char_of (191::nat), char_of (189::nat)]"

function from_utf8_lossy :: "bytes \<Rightarrow> string" where
  "from_utf8_lossy bs =
     (if bs = [] then []
      else case utf8_next bs of
        Scalar w \<Rightarrow> take w bs @ from_utf8_lossy (drop w bs)
      | Invalid k \<Rightarrow> replacement @ from_utf8_lossy (drop k bs)
      | Incomplete \<Rightarrow> replacement)"
  by pat_completeness auto
termination
  by (relation "measure length") (auto dest: utf8_next_Scalar utf8_next_Invalid)

declare from_utf8_lossy.simps [simp del]

text \<open>
  The two halves of a decoder that waits for more input: what can be decoded now, and the
  cut-off scalar that has to wait.
\<close>

function utf8_split :: "bytes \<Rightarrow> string \<times> bytes" where
  "utf8_split bs =
     (if bs = [] then ([], [])
      else case utf8_next bs of
        Scalar w \<Rightarrow> apfst (append (take w bs)) (utf8_split (drop w bs))
      | Invalid k \<Rightarrow> apfst (append replacement) (utf8_split (drop k bs))
      | Incomplete \<Rightarrow> ([], bs))"
  by pat_completeness auto
termination
  by (relation "measure length") (auto dest: utf8_next_Scalar utf8_next_Invalid)

declare utf8_split.simps [simp del]

lemma utf8_cases [case_names Nil Scalar Invalid Incomplete]:
  assumes "bs = [] \<Longrightarrow> P"
    and "\<And>w. bs \<noteq> [] \<Longrightarrow> utf8_next bs = Scalar w \<Longrightarrow> P"
    and "\<And>k. bs \<noteq> [] \<Longrightarrow> utf8_next bs = Invalid k \<Longrightarrow> P"
    and "bs \<noteq> [] \<Longrightarrow> utf8_next bs = Incomplete \<Longrightarrow> P"
  shows P
  using assms by (cases "bs = []"; cases "utf8_next bs") auto

lemma utf8_induct [case_names Nil Scalar Invalid Incomplete]:
  assumes "P []"
    and "\<And>bs w. bs \<noteq> [] \<Longrightarrow> utf8_next bs = Scalar w \<Longrightarrow> P (drop w bs) \<Longrightarrow> P bs"
    and "\<And>bs k. bs \<noteq> [] \<Longrightarrow> utf8_next bs = Invalid k \<Longrightarrow> P (drop k bs) \<Longrightarrow> P bs"
    and "\<And>bs. bs \<noteq> [] \<Longrightarrow> utf8_next bs = Incomplete \<Longrightarrow> P bs"
  shows "P bs"
proof (induction bs rule: utf8_split.induct)
  case (1 bs)
  show ?case
    by (cases bs rule: utf8_cases) (use 1 assms in auto)
qed

lemma from_utf8_at_shift:
  "from_utf8_at (n + m) bs = map_sum (apfst ((+) n)) id (from_utf8_at m bs)"
proof (induction bs arbitrary: m rule: utf8_induct)
  case (Scalar bs w)
  then show ?case
    by (simp add: from_utf8_at.simps [of _ bs] add.assoc)
qed (simp_all add: from_utf8_at.simps)

lemma from_utf8_simps:
  "from_utf8 [] = Inr ()"
  "utf8_next bs = Scalar w \<Longrightarrow> from_utf8 bs = map_sum (apfst ((+) w)) id (from_utf8 (drop w bs))"
  "bs \<noteq> [] \<Longrightarrow> utf8_next bs = Invalid k \<Longrightarrow> from_utf8 bs = Inl (0, Some k)"
  "bs \<noteq> [] \<Longrightarrow> utf8_next bs = Incomplete \<Longrightarrow> from_utf8 bs = Inl (0, None)"
  using from_utf8_at_shift [of w 0 "drop w bs"] utf8_next_Scalar [of bs w]
  by (auto simp: from_utf8_def from_utf8_at.simps [of _ bs] from_utf8_at.simps [of _ "[]"])

lemma valid_utf8_Nil [simp]: "valid_utf8 []"
  by (simp add: valid_utf8_def from_utf8_simps)

lemma valid_utf8_Scalar:
  "utf8_next bs = Scalar w \<Longrightarrow> valid_utf8 bs \<longleftrightarrow> valid_utf8 (drop w bs)"
  by (cases "from_utf8 (drop w bs)") (simp_all add: valid_utf8_def from_utf8_simps)

lemma valid_utf8_next:
  "valid_utf8 bs \<Longrightarrow> bs \<noteq> [] \<Longrightarrow> \<exists>w. utf8_next bs = Scalar w \<and> valid_utf8 (drop w bs)"
proof (cases bs rule: utf8_cases)
  case (Scalar w)
  moreover assume "valid_utf8 bs"
  ultimately show ?thesis by (auto simp: valid_utf8_Scalar)
qed (auto simp: valid_utf8_def from_utf8_simps)

lemma valid_utf8_induct [consumes 1, case_names Nil Scalar]:
  assumes "valid_utf8 bs" "P []"
    and "\<And>bs w. utf8_next bs = Scalar w \<Longrightarrow> valid_utf8 (drop w bs) \<Longrightarrow> P (drop w bs) \<Longrightarrow> P bs"
  shows "P bs"
  using assms(1)
proof (induction bs rule: utf8_induct)
  case (Scalar bs w)
  then have "valid_utf8 (drop w bs)" by (simp add: valid_utf8_Scalar)
  with Scalar show ?case by (blast intro: assms(3))
qed (auto simp: assms(2) valid_utf8_def from_utf8_simps)

lemma valid_utf8_append [intro]:
  assumes "valid_utf8 xs" "valid_utf8 ys"
  shows "valid_utf8 (xs @ ys)"
  using assms(1)
proof (induction xs rule: valid_utf8_induct)
  case Nil
  then show ?case using assms(2) by simp
next
  case (Scalar xs w)
  then have "utf8_next (xs @ ys) = Scalar w" by (simp add: utf8_next_append)
  then show ?case
    using Scalar utf8_next_Scalar(2) [OF Scalar(1)] by (simp add: valid_utf8_Scalar)
qed

lemma valid_utf8_cancel:
  assumes "valid_utf8 xs"
  shows "valid_utf8 (xs @ ys) \<longleftrightarrow> valid_utf8 ys"
  using assms
proof (induction xs rule: valid_utf8_induct)
  case Nil
  then show ?case by simp
next
  case (Scalar xs w)
  then have "utf8_next (xs @ ys) = Scalar w" by (simp add: utf8_next_append)
  then show ?case
    using Scalar utf8_next_Scalar(2) [OF Scalar(1)] by (simp add: valid_utf8_Scalar)
qed

lemma valid_utf8_take_Scalar:
  assumes "utf8_next bs = Scalar w"
  shows "valid_utf8 (take w bs)"
proof -
  have "utf8_next (take w bs) = Scalar w"
    using utf8_next_take [OF assms, of "[]"] by simp
  then show ?thesis by (simp add: valid_utf8_Scalar)
qed

lemma valid_replacement [simp]: "valid_utf8 replacement"
proof -
  have "utf8_next replacement = Scalar 3"
    by (simp add: replacement_def utf8_char_width_def second_ok_def is_cont_def Let_def)
  then show ?thesis by (simp add: valid_utf8_Scalar replacement_def)
qed

lemma replacement_length [simp]: "length replacement = 3"
  by (simp add: replacement_def)

lemma valid_from_utf8_lossy [simp]: "valid_utf8 (from_utf8_lossy bs)"
proof (induction bs rule: utf8_induct)
  case (Scalar bs w)
  then show ?case
    by (simp add: from_utf8_lossy.simps [of bs] valid_utf8_append valid_utf8_take_Scalar)
qed (simp_all add: from_utf8_lossy.simps valid_utf8_append)

lemma from_utf8_lossy_valid: "valid_utf8 bs \<Longrightarrow> from_utf8_lossy bs = bs"
  by (induction bs rule: valid_utf8_induct)
     (auto simp: from_utf8_lossy.simps dest: utf8_next_Scalar(5))

text \<open>One invalid byte can become a three-byte replacement, and never more than that.\<close>

lemma from_utf8_lossy_length: "length (from_utf8_lossy bs) \<le> 3 * length bs"
proof (induction bs rule: utf8_induct)
  case (Scalar bs w)
  then show ?case
    using utf8_next_Scalar(2) [OF Scalar(2)] by (simp add: from_utf8_lossy.simps [of bs])
next
  case (Invalid bs k)
  then show ?case
    using utf8_next_Invalid(1,2) [OF Invalid(2)] by (simp add: from_utf8_lossy.simps [of bs])
next
  case (Incomplete bs)
  then have "1 \<le> length bs" by (simp add: Suc_le_eq)
  with Incomplete show ?case by (simp add: from_utf8_lossy.simps [of bs])
qed (simp add: from_utf8_lossy.simps)

section \<open>Splitting off the cut-off scalar\<close>

lemma utf8_split_tail:
  "snd (utf8_split bs) = [] \<or> utf8_next (snd (utf8_split bs)) = Incomplete"
  by (induction bs rule: utf8_induct) (simp_all add: utf8_split.simps)

lemma utf8_split_lossy:
  "from_utf8_lossy bs = fst (utf8_split bs) @ from_utf8_lossy (snd (utf8_split bs))"
  by (induction bs rule: utf8_induct)
     (simp_all add: utf8_split.simps from_utf8_lossy.simps)

lemma utf8_split_append:
  "utf8_split (xs @ ys) =
     apfst (append (fst (utf8_split xs))) (utf8_split (snd (utf8_split xs) @ ys))"
proof (induction xs rule: utf8_induct)
  case Nil
  then show ?case by (simp add: utf8_split.simps [of "[]"] prod_eq_iff)
next
  case (Scalar xs w)
  then have "utf8_next (xs @ ys) = Scalar w" "w \<le> length xs"
    by (auto simp: utf8_next_append dest: utf8_next_Scalar)
  with Scalar show ?case
    by (simp add: utf8_split.simps [of xs] utf8_split.simps [of "xs @ ys"] apfst_compose comp_def)
next
  case (Invalid xs k)
  then have "utf8_next (xs @ ys) = Invalid k" "k \<le> length xs"
    by (auto simp: utf8_next_append dest: utf8_next_Invalid)
  with Invalid show ?case
    by (simp add: utf8_split.simps [of xs] utf8_split.simps [of "xs @ ys"] apfst_compose comp_def)
next
  case (Incomplete xs)
  then show ?case by (simp add: utf8_split.simps [of xs] prod_eq_iff)
qed

lemma utf8_split_valid: "valid_utf8 (fst (utf8_split bs))"
proof (induction bs rule: utf8_induct)
  case (Scalar bs w)
  then show ?case
    by (simp add: utf8_split.simps [of bs] valid_utf8_append valid_utf8_take_Scalar)
qed (simp_all add: utf8_split.simps valid_utf8_append)

text \<open>The validator's verdict in terms of the split.\<close>

lemma from_utf8_Inr: "from_utf8 bs = Inr u \<Longrightarrow> utf8_split bs = (bs, [])"
proof -
  assume "from_utf8 bs = Inr u"
  then have "valid_utf8 bs" by (simp add: valid_utf8_def)
  then show ?thesis
    by (induction bs rule: valid_utf8_induct)
       (auto simp: utf8_split.simps apfst_def dest: utf8_next_Scalar(5))
qed

lemma from_utf8_Inl_Some:
  "from_utf8 bs = Inl (v, Some k) \<Longrightarrow>
     0 < k \<and> v + k \<le> length bs \<and> valid_utf8 (take v bs) \<and>
     utf8_split bs = apfst (append (take v bs @ replacement)) (utf8_split (drop (v + k) bs))"
proof (induction bs arbitrary: v rule: utf8_induct)
  case (Scalar bs w)
  from Scalar(4) obtain v' where v: "v = w + v'" "from_utf8 (drop w bs) = Inl (v', Some k)"
    by (cases "from_utf8 (drop w bs)") (auto simp: from_utf8_simps(2) [OF Scalar(2)])
  note IH = Scalar.IH [OF v(2)]
  have w: "w \<le> length bs" using utf8_next_Scalar(2) [OF Scalar(2)] .
  have "take v bs = take w bs @ take v' (drop w bs)" by (simp add: v(1) take_add)
  moreover have "valid_utf8 (take w bs @ take v' (drop w bs))"
    using IH valid_utf8_take_Scalar [OF Scalar(2)] by blast
  ultimately show ?case
    using IH w Scalar(1,2) v(1)
    by (auto simp: utf8_split.simps [of bs] add.commute add.left_commute apfst_compose comp_def)
next
  case (Invalid bs k')
  then show ?case
    using utf8_next_Invalid [OF Invalid(2)] by (auto simp: from_utf8_simps utf8_split.simps [of bs])
qed (auto simp: from_utf8_simps)

lemma from_utf8_Inl_None:
  "from_utf8 bs = Inl (v, None) \<Longrightarrow>
     v < length bs \<and> valid_utf8 (take v bs) \<and> utf8_split bs = (take v bs, drop v bs)"
proof (induction bs arbitrary: v rule: utf8_induct)
  case (Scalar bs w)
  from Scalar(4) obtain v' where v: "v = w + v'" "from_utf8 (drop w bs) = Inl (v', None)"
    by (cases "from_utf8 (drop w bs)") (auto simp: from_utf8_simps(2) [OF Scalar(2)])
  note IH = Scalar.IH [OF v(2)]
  have w: "w \<le> length bs" using utf8_next_Scalar(2) [OF Scalar(2)] .
  have "take v bs = take w bs @ take v' (drop w bs)" by (simp add: v(1) take_add)
  moreover have "valid_utf8 (take w bs @ take v' (drop w bs))"
    using IH valid_utf8_take_Scalar [OF Scalar(2)] by blast
  ultimately show ?case
    using IH w Scalar(1,2) v(1) by (auto simp: utf8_split.simps [of bs] add.commute)
qed (auto simp: from_utf8_simps utf8_split.simps)

section \<open>Character boundaries\<close>

text \<open>\<open>str::is_char_boundary\<close>: true at both ends, false past the end.\<close>

definition is_char_boundary :: "string \<Rightarrow> nat \<Rightarrow> bool" where
  "is_char_boundary s i \<longleftrightarrow>
     i = 0 \<or> (if i < length s then \<not> is_cont (s ! i) else i = length s)"

lemma is_char_boundary_0 [simp]: "is_char_boundary s 0"
  by (simp add: is_char_boundary_def)

lemma is_char_boundary_valid_take:
  assumes "valid_utf8 s" "is_char_boundary s i"
  shows "valid_utf8 (take i s)"
  using assms
proof (induction s arbitrary: i rule: valid_utf8_induct)
  case Nil
  then show ?case by simp
next
  case (Scalar s w)
  note w = utf8_next_Scalar [OF Scalar(1)]
  show ?case
  proof (cases "i < w")
    case True
    then have "i = 0"
      using Scalar utf8_next_inner [OF Scalar(1), of i] w
      by (cases "i = 0") (auto simp: is_char_boundary_def split: if_splits)
    then show ?thesis by simp
  next
    case False
    then have "is_char_boundary (drop w s) (i - w)"
      using Scalar(4) w by (auto simp: is_char_boundary_def split: if_splits)
    then have "valid_utf8 (take (i - w) (drop w s))" by (rule Scalar.IH)
    moreover have "take i s = take w s @ take (i - w) (drop w s)"
      using False by (simp add: take_add_drop)
    ultimately show ?thesis
      using valid_utf8_take_Scalar [OF Scalar(1)] by auto
  qed
qed

lemma valid_take_is_char_boundary:
  assumes "valid_utf8 s" "valid_utf8 (take i s)" "i \<le> length s"
  shows "is_char_boundary s i"
proof (cases "i < length s")
  case True
  have "valid_utf8 (drop i s)"
    using assms valid_utf8_cancel [OF assms(2), of "drop i s"] by simp
  moreover have "drop i s \<noteq> []" using True by simp
  ultimately obtain w where "utf8_next (drop i s) = Scalar w"
    using valid_utf8_next by blast
  then have "\<not> is_cont (hd (drop i s))" by (rule utf8_next_Scalar)
  then show ?thesis using True by (simp add: is_char_boundary_def hd_drop_conv_nth)
next
  case False
  then show ?thesis using assms(3) by (simp add: is_char_boundary_def)
qed

text \<open>Among any four consecutive positions of a valid string one is a boundary.\<close>

lemma boundary_within_3:
  assumes "valid_utf8 s" "n \<le> length s"
  shows "\<exists>i \<le> n. n \<le> i + 3 \<and> is_char_boundary s i"
  using assms
proof (induction s arbitrary: n rule: valid_utf8_induct)
  case Nil
  then show ?case by simp
next
  case (Scalar s w)
  note w = utf8_next_Scalar [OF Scalar(1)]
  show ?case
  proof (cases "n < w")
    case True
    then show ?thesis using w by (intro exI [of _ 0]) auto
  next
    case False
    then obtain i where i: "i \<le> n - w" "n - w \<le> i + 3" "is_char_boundary (drop w s) i"
      using Scalar.IH [of "n - w"] Scalar(4) w by (auto intro: diff_le_mono)
    show ?thesis
    proof (cases "i = 0")
      case False
      then show ?thesis using i w \<open>\<not> n < w\<close>
        by (intro exI [of _ "w + i"])
           (auto simp: is_char_boundary_def split: if_splits)
    next
      case True
      have "is_char_boundary s w"
        using Scalar(1,2) w valid_take_is_char_boundary [of s w]
        by (simp add: valid_utf8_Scalar valid_utf8_take_Scalar)
      then show ?thesis using True i \<open>\<not> n < w\<close> by (intro exI [of _ w]) auto
    qed
  qed
qed

section \<open>Truncation at a character boundary\<close>

text \<open>
  The loop \<open>while boundary > 0 && !content.is_char_boundary(boundary) { boundary -= 1 }\<close>
  that the three \<open>truncate_utf8\<close> functions share.
\<close>

fun boundary_loop :: "string \<Rightarrow> nat \<Rightarrow> nat" where
  "boundary_loop s 0 = 0"
| "boundary_loop s (Suc n) =
     (if is_char_boundary s (Suc n) then Suc n else boundary_loop s n)"

lemma boundary_loop_le: "boundary_loop s n \<le> n"
  by (induction n) (auto simp: le_Suc_eq)

lemma boundary_loop_boundary: "is_char_boundary s (boundary_loop s n)"
  by (induction n) auto

lemma boundary_loop_greatest: "i \<le> n \<Longrightarrow> is_char_boundary s i \<Longrightarrow> i \<le> boundary_loop s n"
  by (induction n) (auto simp: le_Suc_eq)

text \<open>
  The contract of a truncation: what fits is kept whole, and a longer string is cut at the
  last boundary within the limit.
\<close>

locale utf8_truncation =
  fixes trunc :: "string \<Rightarrow> nat \<Rightarrow> string"
  assumes trunc_fits: "length s \<le> n \<Longrightarrow> trunc s n = s"
    and trunc_cut: "n < length s \<Longrightarrow> trunc s n = take (boundary_loop s n) s"
begin

lemma trunc_prefix: "prefix (trunc s n) s"
  by (cases "length s \<le> n") (simp_all add: trunc_fits trunc_cut take_is_prefix)

lemma trunc_length: "length (trunc s n) \<le> n"
proof (cases "length s \<le> n")
  case False
  then show ?thesis
    using boundary_loop_le [of s n] by (simp add: trunc_cut)
qed (simp add: trunc_fits)

lemma trunc_length_le: "length (trunc s n) \<le> length s"
  using trunc_prefix by (rule prefix_length_le)

lemma trunc_valid: "valid_utf8 s \<Longrightarrow> valid_utf8 (trunc s n)"
  by (cases "length s \<le> n")
     (simp_all add: trunc_fits trunc_cut is_char_boundary_valid_take boundary_loop_boundary)

text \<open>No valid prefix within the limit is longer.\<close>

lemma trunc_maximal:
  assumes "valid_utf8 s" "prefix t s" "valid_utf8 t" "length t \<le> n"
  shows "prefix t (trunc s n)"
proof (cases "length s \<le> n")
  case True
  then show ?thesis using assms by (simp add: trunc_fits)
next
  case False
  have t: "t = take (length t) s" and len: "length t \<le> length s"
    using assms(2) by (auto simp: prefix_def)
  then have "is_char_boundary s (length t)"
    using assms(1,3) valid_take_is_char_boundary [of s "length t"] by simp
  then have "length t \<le> boundary_loop s n"
    using assms(4) by (intro boundary_loop_greatest)
  then have "prefix (take (length t) s) (take (boundary_loop s n) s)"
    by (metis min.absorb1 take_is_prefix take_take)
  then show ?thesis using False t by (simp add: trunc_cut)
qed

lemma trunc_loses_at_most_3:
  assumes "valid_utf8 s" "n < length s"
  shows "n \<le> length (trunc s n) + 3"
proof -
  obtain i where i: "i \<le> n" "n \<le> i + 3" "is_char_boundary s i"
    using boundary_within_3 [of s n] assms by auto
  then have "i \<le> boundary_loop s n" by (intro boundary_loop_greatest)
  then show ?thesis
    using i assms boundary_loop_le [of s n] by (simp add: trunc_cut)
qed

lemma trunc_eq_iff: "trunc s n = s \<longleftrightarrow> length s \<le> n"
  using trunc_length [of s n] by (auto simp: trunc_fits)

end

end
