(* ===== verification/Process_Output.thy ===== *)
theory Process_Output
  imports Protocol Rust_Utf8
begin

text \<open>
  Output retention of a supervised command, \<^verbatim>\<open>src/crates/kodo/src/process.rs\<close>: the
  incremental UTF-8 decoder, the reader task, the bounded buffer of output chunks and the
  reply to a poll.  The buffer is compared with the log of every chunk ever appended:
  what it retains is a suffix of the log, and a poll that does not report truncation
  returns everything of the log past the cursor.
\<close>

section \<open>Decoding\<close>

function decode_loop :: "bytes \<Rightarrow> string \<Rightarrow> string \<times> bytes" where
  "decode_loop pending decoded =
     (case from_utf8 pending of
        Inr _ \<Rightarrow> (decoded @ pending, [])
      | Inl (valid, error_len) \<Rightarrow>
          (case error_len of
             Some invalid \<Rightarrow>
               decode_loop (drop (valid + invalid) pending)
                 (decoded @ take valid pending @ replacement)
           | None \<Rightarrow> (decoded @ take valid pending, drop valid pending)))"
  by pat_completeness auto
termination
  by (relation "measure (\<lambda>(pending, decoded). length pending)")
     (auto dest: from_utf8_Inl_Some)

declare decode_loop.simps [simp del]

definition decode_utf8 :: "bytes \<Rightarrow> bytes \<Rightarrow> bool \<Rightarrow> string \<times> bytes" where
  "decode_utf8 pending bs end_of_stream =
     (let (decoded, pending') = decode_loop (pending @ bs) []
      in if end_of_stream \<and> pending' \<noteq> [] then (decoded @ from_utf8_lossy pending', [])
         else (decoded, pending'))"

definition truncate_utf8 :: "string \<Rightarrow> usize \<Rightarrow> string \<times> bool" where
  "truncate_utf8 str max_bytes =
     (if length str \<le> max_bytes then (str, False)
      else (take (boundary_loop str max_bytes) str, True))"

section \<open>The buffer\<close>

record output_buffer =
  chunks :: "command_output list"
  bytes :: usize
  next_sequence :: u64
  terminal_truncated :: bool

definition output_buffer_default :: output_buffer where
  "output_buffer_default =
     \<lparr>chunks = [], bytes = 0, next_sequence = 1, terminal_truncated = False\<rparr>"

record process_state =
  outbuf :: output_buffer
  status :: process_status

text \<open>The eviction loop of \<open>append_output\<close>, for a chunk of \<open>len\<close> bytes.\<close>

definition over_budget :: "usize \<Rightarrow> usize \<Rightarrow> usize \<Rightarrow> output_buffer \<Rightarrow> bool" where
  "over_budget len max_bytes max_chunks out \<longleftrightarrow>
     bytes out + len > max_bytes \<or> length (chunks out) \<ge> max_chunks"

definition pop_chunk :: "output_buffer \<Rightarrow> output_buffer" where
  "pop_chunk out =
     out\<lparr>chunks := tl (chunks out), bytes := bytes out - length (content (hd (chunks out)))\<rparr>"

function evict_output :: "usize \<Rightarrow> usize \<Rightarrow> usize \<Rightarrow> output_buffer \<Rightarrow> output_buffer" where
  "evict_output len max_bytes max_chunks out =
     (if over_budget len max_bytes max_chunks out then
        (case chunks out of
           [] \<Rightarrow> out
         | _ # _ \<Rightarrow> evict_output len max_bytes max_chunks (pop_chunk out))
      else out)"
  by pat_completeness auto
termination
  by (relation "measure (\<lambda>(len, b, c, out). length (chunks out))") (auto simp: pop_chunk_def)

declare evict_output.simps [simp del]

definition append_output ::
  "process_state \<Rightarrow> output_stream \<Rightarrow> string \<Rightarrow> usize \<Rightarrow> usize \<Rightarrow> process_state" where
  "append_output state strm str max_bytes max_chunks =
     (let (str', was_truncated) = truncate_utf8 str max_bytes;
          out = outbuf state
      in if str' = [] then
           state\<lparr>outbuf := out\<lparr>terminal_truncated := terminal_truncated out \<or> was_truncated\<rparr>\<rparr>
         else
           let out' = evict_output (length str') max_bytes max_chunks out
           in state\<lparr>outbuf := out'\<lparr>
                bytes := bytes out' + length str',
                chunks := chunks out' @
                  [\<lparr>sequence = next_sequence out', stream = strm, content = str',
                    truncated = was_truncated\<rparr>],
                next_sequence := next_sequence out' + 1\<rparr>\<rparr>)"

section \<open>The reader task\<close>

text \<open>What one \<open>read\<close> of the pipe returns.  An empty read is the end of the stream.\<close>

datatype read_result = ReadOk bytes | ReadErr

record reader =
  rd_stream :: output_stream
  rd_pending :: bytes
  rd_done :: bool

definition new_reader :: "output_stream \<Rightarrow> reader" where
  "new_reader s = \<lparr>rd_stream = s, rd_pending = [], rd_done = False\<rparr>"

fun reader_step :: "usize \<Rightarrow> usize \<Rightarrow> process_state \<Rightarrow> reader \<Rightarrow> read_result \<Rightarrow> process_state \<times> reader"
where
  "reader_step max_bytes max_chunks state rd (ReadOk bs) =
     (if bs = [] then
        (let (str, pending) = decode_utf8 (rd_pending rd) [] True
         in (append_output state (rd_stream rd) str max_bytes max_chunks,
             rd\<lparr>rd_pending := pending, rd_done := True\<rparr>))
      else
        (let (str, pending) = decode_utf8 (rd_pending rd) bs False
         in (append_output state (rd_stream rd) str max_bytes max_chunks,
             rd\<lparr>rd_pending := pending\<rparr>)))"
| "reader_step max_bytes max_chunks state rd ReadErr =
     (let (str, pending) = decode_utf8 (rd_pending rd) [] True
      in (append_output state (rd_stream rd) str max_bytes max_chunks,
          rd\<lparr>rd_pending := pending, rd_done := True\<rparr>))"

text \<open>The loop of the task: it reads until the end of the stream or an error.\<close>

fun spawn_reader ::
  "usize \<Rightarrow> usize \<Rightarrow> process_state \<Rightarrow> reader \<Rightarrow> read_result list \<Rightarrow> process_state \<times> reader"
where
  "spawn_reader max_bytes max_chunks state rd [] = (state, rd)"
| "spawn_reader max_bytes max_chunks state rd (r # rs) =
     (let (state', rd') = reader_step max_bytes max_chunks state rd r
      in if rd_done rd' then (state', rd')
         else spawn_reader max_bytes max_chunks state' rd' rs)"

section \<open>Polling\<close>

record process_poll =
  poll_status :: process_status
  poll_output :: "command_output list"
  poll_earliest_sequence :: u64
  poll_next_sequence :: u64
  poll_truncated :: bool

definition poll_state :: "process_state \<Rightarrow> u64 \<Rightarrow> process_poll" where
  "poll_state state after_sequence =
     (let out = outbuf state;
          earliest = (case chunks out of [] \<Rightarrow> next_sequence out | c # _ \<Rightarrow> sequence c);
          selected = filter (\<lambda>chunk. sequence chunk > after_sequence) (chunks out);
          trunc = terminal_truncated out \<or> saturating_add_u64 after_sequence 1 < earliest \<or>
                  list_ex truncated selected
      in \<lparr>poll_status = status state, poll_output = selected, poll_earliest_sequence = earliest,
          poll_next_sequence = next_sequence out, poll_truncated = trunc\<rparr>)"

section \<open>The decoder cannot see chunk boundaries\<close>

lemma decode_loop_split: "decode_loop pending decoded = apfst (append decoded) (utf8_split pending)"
proof (induction pending decoded rule: decode_loop.induct)
  case (1 pending decoded)
  show ?case
  proof (cases "from_utf8 pending")
    case (Inl e)
    obtain v l where e: "e = (v, l)" by (cases e)
    show ?thesis
    proof (cases l)
      case None
      with Inl e show ?thesis
        using from_utf8_Inl_None [of pending v] by (simp add: decode_loop.simps [of pending])
    next
      case (Some k)
      with Inl e have "utf8_split pending =
          apfst (append (take v pending @ replacement)) (utf8_split (drop (v + k) pending))"
        using from_utf8_Inl_Some [of pending v k] by simp
      moreover have "decode_loop (drop (v + k) pending) (decoded @ take v pending @ replacement) =
          apfst (append (decoded @ take v pending @ replacement)) (utf8_split (drop (v + k) pending))"
        using "1" [OF Inl, of v l k] e Some by simp
      ultimately show ?thesis
        using Inl e Some by (simp add: decode_loop.simps [of pending] apfst_compose comp_def)
    qed
  next
    case (Inr u)
    then show ?thesis using from_utf8_Inr [OF Inr] by (simp add: decode_loop.simps [of pending])
  qed
qed

lemma decode_utf8_more: "decode_utf8 pending bs False = utf8_split (pending @ bs)"
  by (simp add: decode_utf8_def decode_loop_split apfst_def map_prod_def split_beta)

lemma decode_utf8_end:
  "snd (utf8_split xs) = pending \<Longrightarrow>
   decode_utf8 pending [] True = (from_utf8_lossy pending, [])"
proof -
  assume p: "snd (utf8_split xs) = pending"
  have "utf8_split pending = ([], pending)"
    using utf8_split_tail [of xs] p
    by (cases "pending = []") (auto simp: utf8_split.simps)
  then show ?thesis
    by (auto simp: decode_utf8_def decode_loop_split from_utf8_lossy.simps)
qed

text \<open>The decoder's accumulated text and pending bytes are a function of the bytes read.\<close>

definition decode_consume :: "string \<times> bytes \<Rightarrow> bytes \<Rightarrow> string \<times> bytes" where
  "decode_consume = (\<lambda>(str, pending) bs. apfst (append str) (decode_utf8 pending bs False))"

interpretation decoder: stream_consumer decode_consume utf8_split
proof
  fix xs ys
  show "decode_consume (utf8_split xs) ys = utf8_split (xs @ ys)"
    by (simp add: decode_consume_def decode_utf8_more utf8_split_append [of xs ys] split_beta)
qed

lemma decoded_valid: "valid_utf8 (fst (decode_utf8 pending bs e))"
proof -
  have "valid_utf8 (fst (utf8_split (pending @ bs)))" by (rule utf8_split_valid)
  then show ?thesis
    by (auto simp: decode_utf8_def decode_loop_split split_beta)
qed

section \<open>The buffer's truncation and eviction\<close>

interpretation process_truncation: utf8_truncation "\<lambda>s n. fst (truncate_utf8 s n)"
  by unfold_locales (simp_all add: truncate_utf8_def)

lemma truncate_utf8_flag: "snd (truncate_utf8 s n) \<longleftrightarrow> fst (truncate_utf8 s n) \<noteq> s"
  using process_truncation.trunc_eq_iff [of s n] by (simp add: truncate_utf8_def)

interpretation output_eviction: front_eviction chunks "over_budget len max_bytes max_chunks"
  pop_chunk "evict_output len max_bytes max_chunks"
  for len max_bytes max_chunks
proof
  fix s :: output_buffer
  show "chunks s \<noteq> [] \<Longrightarrow> chunks (pop_chunk s) = tl (chunks s)"
    by (simp add: pop_chunk_def)
  show "chunks s = [] \<or> \<not> over_budget len max_bytes max_chunks s \<Longrightarrow>
        evict_output len max_bytes max_chunks s = s"
    by (subst evict_output.simps) (auto split: list.splits)
  show "chunks s \<noteq> [] \<Longrightarrow> over_budget len max_bytes max_chunks s \<Longrightarrow>
        evict_output len max_bytes max_chunks s = evict_output len max_bytes max_chunks (pop_chunk s)"
    by (subst evict_output.simps) (auto split: list.splits)
qed

lemma evict_output_next [simp]: "next_sequence (evict_output l b c out) = next_sequence out"
  by (rule output_eviction.loop_drop_measure) (simp add: pop_chunk_def)

lemma evict_output_terminal [simp]:
  "terminal_truncated (evict_output l b c out) = terminal_truncated out"
  by (rule output_eviction.loop_drop_measure) (simp add: pop_chunk_def)

section \<open>The buffer's invariant\<close>

abbreviation content_bytes :: "command_output list \<Rightarrow> nat" where
  "content_bytes cs \<equiv> sum_list (map (length \<circ> content) cs)"

definition counted :: "output_buffer \<Rightarrow> bool" where
  "counted out \<longleftrightarrow> bytes out = content_bytes (chunks out)"

definition within :: "usize \<Rightarrow> usize \<Rightarrow> output_buffer \<Rightarrow> bool" where
  "within max_bytes max_chunks out \<longleftrightarrow>
     counted out \<and> bytes out \<le> max_bytes \<and> length (chunks out) \<le> max_chunks"

lemma counted_pop: "counted out \<Longrightarrow> chunks out \<noteq> [] \<Longrightarrow> counted (pop_chunk out)"
  by (cases "chunks out") (simp_all add: counted_def pop_chunk_def)

lemma counted_evict: "counted out \<Longrightarrow> counted (evict_output l b c out)"
  by (rule output_eviction.loop_invariant) (simp_all add: counted_pop)

lemma evict_output_room:
  assumes "counted out" "l \<le> max_bytes" "0 < max_chunks"
  shows "bytes (evict_output l max_bytes max_chunks out) + l \<le> max_bytes"
    and "length (chunks (evict_output l max_bytes max_chunks out)) < max_chunks"
proof -
  let ?e = "evict_output l max_bytes max_chunks out"
  have c: "counted ?e" using assms(1) by (rule counted_evict)
  have "chunks ?e = [] \<or> \<not> over_budget l max_bytes max_chunks ?e"
    by (rule output_eviction.loop_done)
  then show "bytes ?e + l \<le> max_bytes" "length (chunks ?e) < max_chunks"
    using c assms by (auto simp: over_budget_def counted_def not_less)
qed

lemma append_output_cases:
  obtains (dropped) "fst (truncate_utf8 str b) = []"
      "append_output state s str b c =
        state\<lparr>outbuf := (outbuf state)\<lparr>terminal_truncated :=
          terminal_truncated (outbuf state) \<or> snd (truncate_utf8 str b)\<rparr>\<rparr>"
    | (kept) out' where "fst (truncate_utf8 str b) \<noteq> []"
      "out' = evict_output (length (fst (truncate_utf8 str b))) b c (outbuf state)"
      "append_output state s str b c =
        state\<lparr>outbuf := out'\<lparr>
          bytes := bytes out' + length (fst (truncate_utf8 str b)),
          chunks := chunks out' @ [\<lparr>sequence = next_sequence out', stream = s,
             content = fst (truncate_utf8 str b), truncated = snd (truncate_utf8 str b)\<rparr>],
          next_sequence := next_sequence out' + 1\<rparr>\<rparr>"
  by (cases "fst (truncate_utf8 str b) = []") (auto simp: append_output_def Let_def split_beta)

lemma append_output_status [simp]: "status (append_output state s str b c) = status state"
  by (cases rule: append_output_cases [of str b state s c]) simp_all

lemma append_output_within [invariant_intros]:
  assumes "within b c (outbuf state)" "0 < c"
  shows "within b c (outbuf (append_output state s str b c))"
proof (cases rule: append_output_cases [of str b state s c])
  case dropped
  then show ?thesis using assms by (simp add: within_def counted_def)
next
  case (kept out')
  let ?t = "fst (truncate_utf8 str b)"
  have "counted (outbuf state)" using assms(1) by (simp add: within_def)
  moreover have "length ?t \<le> b" by (rule process_truncation.trunc_length)
  ultimately have "bytes out' + length ?t \<le> b" "length (chunks out') < c" "counted out'"
    unfolding kept(2) using assms(2) by (simp_all add: evict_output_room counted_evict)
  then show ?thesis using kept(3) by (simp add: within_def counted_def)
qed

section \<open>The log that the buffer is a window on\<close>

text \<open>The specification of \<open>append_output\<close>: an unbounded log of numbered chunks.\<close>

definition log_append ::
  "usize \<Rightarrow> command_output list \<Rightarrow> output_stream \<Rightarrow> string \<Rightarrow> command_output list" where
  "log_append max_bytes log s str =
     (let (str', was_truncated) = truncate_utf8 str max_bytes
      in if str' = [] then log
         else log @ [\<lparr>sequence = of_nat (Suc (length log)), stream = s, content = str',
                      truncated = was_truncated\<rparr>])"

definition numbered :: "command_output list \<Rightarrow> bool" where
  "numbered log \<longleftrightarrow> (\<forall>i < length log. sequence (log ! i) = of_nat (Suc i))"

definition window :: "command_output list \<Rightarrow> output_buffer \<Rightarrow> bool" where
  "window log out \<longleftrightarrow>
     suffix (chunks out) log \<and> next_sequence out = of_nat (Suc (length log)) \<and>
     (chunks out = [] \<longrightarrow> log = [])"

lemma window_default: "window [] output_buffer_default"
  by (simp add: window_def output_buffer_default_def)

lemma numbered_Nil [simp]: "numbered []"
  by (simp add: numbered_def)

lemma numbered_append: "numbered log \<Longrightarrow> numbered (log_append b log s str)"
  by (auto simp: numbered_def log_append_def split_beta nth_append less_Suc_eq)

lemma suffix_append_same: "suffix xs ys \<Longrightarrow> suffix (xs @ zs) (ys @ zs)"
  by (auto simp: suffix_def)

lemma append_output_window [invariant_intros]:
  assumes "window log (outbuf state)"
  shows "window (log_append b log s str) (outbuf (append_output state s str b c))"
proof (cases rule: append_output_cases [of str b state s c])
  case dropped
  then show ?thesis using assms by (simp add: window_def log_append_def split_beta)
next
  case (kept out')
  have "suffix (chunks out') (chunks (outbuf state))"
    using output_eviction.loop_suffix kept(2) by blast
  moreover have "suffix (chunks (outbuf state)) log" using assms by (simp add: window_def)
  ultimately have "suffix (chunks out') log" by (rule suffix_order.trans)
  moreover have "next_sequence out' = of_nat (Suc (length log))"
    using assms kept(2) by (simp add: window_def)
  ultimately show ?thesis
    using kept(1,3) by (simp add: window_def log_append_def split_beta suffix_append_same)
qed

text \<open>The sequence numbers of a log that has not exhausted the 64-bit counter.\<close>

lemma numbered_nth:
  assumes "numbered log" "length log + 1 < 2 ^ 64" "i < length log"
  shows "unat (sequence (log ! i)) = Suc i"
proof -
  have "sequence (log ! i) = of_nat (Suc i)" using assms(1,3) by (simp add: numbered_def)
  then show ?thesis using assms(2,3) by (simp add: unat_of_nat del: of_nat_Suc)
qed

lemma numbered_later:
  assumes "numbered log" "length log + 1 < 2 ^ 64"
  shows "filter (\<lambda>c. sequence c > a) log = drop (unat a) log"
proof -
  let ?P = "\<lambda>c. sequence c > a"
  have "filter ?P (take (unat a) log) = []"
    using numbered_nth [OF assms] by (auto simp: filter_empty_conv in_set_conv_nth word_less_nat_alt)
  moreover have "filter ?P (drop (unat a) log) = drop (unat a) log"
    using numbered_nth [OF assms] by (auto simp: filter_id_conv in_set_conv_nth word_less_nat_alt)
  moreover have "filter ?P log = filter ?P (take (unat a) log) @ filter ?P (drop (unat a) log)"
    by (metis append_take_drop_id filter_append)
  ultimately show ?thesis by simp
qed

lemma window_suffix_drop:
  assumes "window log out" "numbered log"
  obtains k where "k \<le> length log" "chunks out = drop k log"
    "chunks out \<noteq> [] \<longrightarrow> hd (chunks out) = log ! k \<and> k < length log"
proof -
  obtain pre where pre: "log = pre @ chunks out" using assms(1) by (auto simp: window_def suffix_def)
  show thesis
  proof (rule that [of "length pre"])
    show "length pre \<le> length log" "chunks out = drop (length pre) log" using pre by auto
    show "chunks out \<noteq> [] \<longrightarrow> hd (chunks out) = log ! length pre \<and> length pre < length log"
      using pre by (cases "chunks out") (simp_all add: nth_append)
  qed
qed

text \<open>A poll that does not report truncation misses nothing of the log past its cursor.\<close>

lemma poll_complete:
  assumes "window log (outbuf state)" "numbered log" "length log + 1 < 2 ^ 64"
    "\<not> poll_truncated (poll_state state a)"
  shows "poll_output (poll_state state a) = drop (unat a) log"
proof -
  obtain k where k: "k \<le> length log" "chunks (outbuf state) = drop k log"
    and first: "chunks (outbuf state) \<noteq> [] \<longrightarrow> hd (chunks (outbuf state)) = log ! k \<and> k < length log"
    using window_suffix_drop [OF assms(1,2)] .
  have sel: "poll_output (poll_state state a) = filter (\<lambda>c. sequence c > a) (drop k log)"
    by (simp add: poll_state_def Let_def k(2))
  show ?thesis
  proof (cases "chunks (outbuf state)")
    case Nil
    with assms(1) have "log = []" by (simp add: window_def)
    then show ?thesis using sel by simp
  next
    case (Cons c cs)
    have "\<not> saturating_add_u64 a 1 < sequence (log ! k)"
      using assms(4) first Cons by (simp add: poll_state_def Let_def)
    then have "Suc k \<le> min (unat a + 1) (2 ^ 64 - 1)"
      using numbered_nth [OF assms(2,3), of k] first Cons
      by (simp add: not_less word_le_nat_alt unat_saturating_add_u64_1)
    then have "k \<le> unat a" by simp
    have "filter (\<lambda>c. sequence c > a) log =
        filter (\<lambda>c. sequence c > a) (take k log) @ filter (\<lambda>c. sequence c > a) (drop k log)"
      by (metis append_take_drop_id filter_append)
    moreover have "filter (\<lambda>c. sequence c > a) (take k log) = []"
      using numbered_nth [OF assms(2,3)] \<open>k \<le> unat a\<close>
      by (auto simp: filter_empty_conv in_set_conv_nth word_less_nat_alt)
    ultimately show ?thesis using sel numbered_later [OF assms(2,3), of a] by simp
  qed
qed

lemma poll_next_is_cursor:
  assumes "window log (outbuf state)" "length log + 1 < 2 ^ 64"
  shows "unat (poll_next_sequence (poll_state state a)) = Suc (length log)"
    and "unat (poll_next_sequence (poll_state state a) - 1) = length log"
proof -
  have n: "poll_next_sequence (poll_state state a) = of_nat (Suc (length log))"
    using assms(1) by (simp add: poll_state_def Let_def window_def)
  then show "unat (poll_next_sequence (poll_state state a)) = Suc (length log)"
    using assms(2) by (simp add: unat_of_nat del: of_nat_Suc)
  from n have "poll_next_sequence (poll_state state a) - 1 = of_nat (length log)" by simp
  then show "unat (poll_next_sequence (poll_state state a) - 1) = length log"
    using assms(2) by (simp add: unat_of_nat)
qed

section \<open>Runs of the reader\<close>

text \<open>Every append of a run, in order.\<close>

fun run_appends ::
  "usize \<Rightarrow> usize \<Rightarrow> process_state \<Rightarrow> (output_stream \<times> string) list \<Rightarrow> process_state" where
  "run_appends b c state [] = state"
| "run_appends b c state ((s, str) # rest) = run_appends b c (append_output state s str b c) rest"

fun log_appends ::
  "usize \<Rightarrow> command_output list \<Rightarrow> (output_stream \<times> string) list \<Rightarrow> command_output list" where
  "log_appends b log [] = log"
| "log_appends b log ((s, str) # rest) = log_appends b (log_append b log s str) rest"

lemma run_appends_window:
  "window log (outbuf state) \<Longrightarrow> numbered log \<Longrightarrow>
   window (log_appends b log xs) (outbuf (run_appends b c state xs)) \<and> numbered (log_appends b log xs)"
proof (induction xs arbitrary: log state)
  case (Cons x xs)
  obtain s str where x: "x = (s, str)" by (cases x)
  show ?case
    using Cons.IH [OF append_output_window [OF Cons.prems(1), of b s str c]
        numbered_append [OF Cons.prems(2), of b s str]] x by simp
qed simp

lemma run_appends_within:
  "within b c (outbuf state) \<Longrightarrow> 0 < c \<Longrightarrow> within b c (outbuf (run_appends b c state xs))"
  by (induction b c state xs rule: run_appends.induct) (simp_all add: append_output_within)

lemma run_appends_append: "run_appends b c state (xs @ ys) = run_appends b c (run_appends b c state xs) ys"
  by (induction b c state xs rule: run_appends.induct) simp_all

lemma log_appends_append: "log_appends b log (xs @ ys) = log_appends b (log_appends b log xs) ys"
  by (induction b log xs rule: log_appends.induct) simp_all

lemma log_append_prefix: "prefix log (log_append b log s str)"
  by (simp add: log_append_def split_beta)

lemma log_appends_prefix: "prefix log (log_appends b log xs)"
  by (induction b log xs rule: log_appends.induct)
     (auto intro: prefix_order.trans [OF log_append_prefix])

text \<open>When nothing exceeds a budget the log is the concatenation of the texts.\<close>

lemma log_append_content:
  "length str \<le> b \<Longrightarrow> concat (map content (log_append b log s str)) = concat (map content log) @ str"
  by (simp add: log_append_def truncate_utf8_def split_beta)

lemma log_append_length: "length (log_append b log s str) \<le> Suc (length log)"
  by (simp add: log_append_def split_beta)

lemma log_appends_length: "length (log_appends b log xs) \<le> length log + length xs"
proof (induction b log xs rule: log_appends.induct)
  case (2 b log s str rest)
  then show ?case using log_append_length [of b log s str] by simp
qed simp

text \<open>The texts that a reader hands to the buffer, one per read and one at the end.\<close>

fun decode_texts :: "bytes \<Rightarrow> bytes list \<Rightarrow> string list" where
  "decode_texts pending [] = [fst (decode_utf8 pending [] True)]"
| "decode_texts pending (bs # rest) =
     fst (decode_utf8 pending bs False) # decode_texts (snd (decode_utf8 pending bs False)) rest"

lemma decode_texts_lossy:
  "fst (utf8_split xs) @ concat (decode_texts (snd (utf8_split xs)) css) =
   from_utf8_lossy (xs @ concat css)"
proof (induction css arbitrary: xs)
  case Nil
  then show ?case
    using decode_utf8_end [OF refl, of xs] utf8_split_lossy [of xs] by simp
next
  case (Cons bs css)
  have "utf8_split (xs @ bs) = apfst (append (fst (utf8_split xs)))
      (decode_utf8 (snd (utf8_split xs)) bs False)"
    by (simp add: decode_utf8_more utf8_split_append [of xs bs])
  then show ?case using Cons.IH [of "xs @ bs"] by simp
qed

lemma length_decode_texts [simp]: "length (decode_texts pending css) = Suc (length css)"
  by (induction pending css rule: decode_texts.induct) simp_all

definition end_of_stream :: "read_result \<Rightarrow> bool" where
  "end_of_stream r \<longleftrightarrow> r = ReadOk [] \<or> r = ReadErr"

lemma spawn_reader_appends:
  assumes "[] \<notin> set css" "end_of_stream e"
  shows "spawn_reader b c state rd (map ReadOk css @ e # rest) =
    (run_appends b c state (map (Pair (rd_stream rd)) (decode_texts (rd_pending rd) css)),
     rd\<lparr>rd_pending := [], rd_done := True\<rparr>) \<or> rd_done rd"
  using assms(1)
proof (induction css arbitrary: state rd)
  case Nil
  have "snd (decode_utf8 p [] True) = []" for p
    by (simp add: decode_utf8_def split_beta)
  then show ?case
    using assms(2) by (auto simp: end_of_stream_def Let_def split_beta)
next
  case (Cons bs css)
  let ?d = "decode_utf8 (rd_pending rd) bs False"
  from Cons have "bs \<noteq> []" "[] \<notin> set css" by auto
  then show ?case
    using Cons.IH [of "append_output state (rd_stream rd) (fst ?d) b c" "rd\<lparr>rd_pending := snd ?d\<rparr>"]
    by (auto simp: Let_def split_beta)
qed

lemma append_output_fits:
  assumes "counted (outbuf state)" "bytes (outbuf state) + length str \<le> b"
    "length (chunks (outbuf state)) < c"
  shows "chunks (outbuf (append_output state s str b c)) =
      (if str = [] then chunks (outbuf state)
       else chunks (outbuf state) @
         [\<lparr>sequence = next_sequence (outbuf state), stream = s, content = str, truncated = False\<rparr>])"
    and "counted (outbuf (append_output state s str b c))"
proof -
  have "truncate_utf8 str b = (str, False)" using assms(2) by (simp add: truncate_utf8_def)
  moreover have "evict_output (length str) b c (outbuf state) = outbuf state"
    using assms by (intro output_eviction.loop_stop) (auto simp: over_budget_def)
  ultimately show "chunks (outbuf (append_output state s str b c)) =
      (if str = [] then chunks (outbuf state)
       else chunks (outbuf state) @
         [\<lparr>sequence = next_sequence (outbuf state), stream = s, content = str, truncated = False\<rparr>])"
    and "counted (outbuf (append_output state s str b c))"
    using assms(1) by (simp_all add: append_output_def counted_def Let_def)
qed

lemma run_appends_fits:
  assumes "counted (outbuf state)" "bytes (outbuf state) + length (concat (map snd xs)) \<le> b"
    "length (chunks (outbuf state)) + length xs \<le> c"
  shows "concat (map content (chunks (outbuf (run_appends b c state xs)))) =
    concat (map content (chunks (outbuf state))) @ concat (map snd xs)"
  using assms
proof (induction xs arbitrary: state)
  case (Cons x xs)
  obtain s str where x: "x = (s, str)" by (cases x)
  let ?n = "append_output state s str b c"
  have fits: "bytes (outbuf state) + length str \<le> b" "length (chunks (outbuf state)) < c"
    using Cons.prems x by auto
  note step = append_output_fits [OF Cons.prems(1) fits, of s]
  have "bytes (outbuf ?n) = bytes (outbuf state) + length str"
    using step Cons.prems(1) by (cases "str = []") (simp_all add: counted_def)
  moreover have "length (chunks (outbuf ?n)) \<le> Suc (length (chunks (outbuf state)))"
    using step(1) by simp
  ultimately have "concat (map content (chunks (outbuf (run_appends b c ?n xs)))) =
      concat (map content (chunks (outbuf ?n))) @ concat (map snd xs)"
    using Cons.prems x by (intro Cons.IH step(2)) auto
  then show ?case using x step(1) by simp
qed simp

definition new_process_state :: process_state where
  "new_process_state = \<lparr>outbuf = output_buffer_default, status = Running\<rparr>"

lemma new_process_state_facts:
  "window [] (outbuf new_process_state)" "within b c (outbuf new_process_state)"
  by (simp_all add: new_process_state_def window_def within_def counted_def output_buffer_default_def)

section \<open>Properties\<close>

text \<open>C27.
  The reader task decodes a stream as a whole.  However the pipe splits the bytes of a
  stream into reads, and whether the stream ends or fails, the texts that the task appends
  concatenate to the lossy UTF-8 decoding of all the bytes it read: a scalar that
  straddles two reads is neither lost nor replaced.
\<close>

theorem reader_decodes_stream:
  assumes "[] \<notin> set css" and "end_of_stream e"
  shows "\<exists>texts. fst (spawn_reader b c state (new_reader s) (map ReadOk css @ e # rest)) =
      run_appends b c state (map (Pair s) texts) \<and>
    concat texts = from_utf8_lossy (concat css)"
proof (intro exI conjI)
  show "fst (spawn_reader b c state (new_reader s) (map ReadOk css @ e # rest)) =
      run_appends b c state (map (Pair s) (decode_texts [] css))"
    using spawn_reader_appends [OF assms, of b c state "new_reader s" rest]
    by (auto simp: new_reader_def)
  show "concat (decode_texts [] css) = from_utf8_lossy (concat css)"
    using decode_texts_lossy [of "[]" css] by (simp add: utf8_split.simps)
qed

text \<open>The euro sign, split after its second byte.\<close>

definition euro :: bytes where
  "euro = [char_of (226::nat), char_of (130::nat), char_of (172::nat)]"

theorem reader_decodes_stream_witness:
  "\<exists>texts. fst (spawn_reader 8 8 new_process_state (new_reader Stdout)
       (map ReadOk [take 2 euro, drop 2 euro] @ ReadOk [] # [])) =
     run_appends 8 8 new_process_state (map (Pair Stdout) texts) \<and>
     concat texts = from_utf8_lossy (concat [take 2 euro, drop 2 euro])"
  by (rule reader_decodes_stream) (simp_all add: euro_def end_of_stream_def)

text \<open>Output that fits is reported exactly.  If the decoded output of a stream fits the byte
  budget and its reads fit the chunk budget, then after the end of the stream the retained
  chunks concatenate to the decoded output.
\<close>

theorem reader_output_exact:
  assumes "[] \<notin> set css" and "end_of_stream e"
    and "length (from_utf8_lossy (concat css)) \<le> max_bytes" and "length css < max_chunks"
  shows "concat (map content (chunks (outbuf (fst
      (spawn_reader max_bytes max_chunks new_process_state (new_reader s) (map ReadOk css @ e # rest)))))) =
    from_utf8_lossy (concat css)"
proof -
  let ?xs = "map (Pair s) (decode_texts [] css)"
  have "concat (decode_texts [] css) = from_utf8_lossy (concat css)"
    using decode_texts_lossy [of "[]" css] by (simp add: utf8_split.simps)
  then have snd: "concat (map snd ?xs) = from_utf8_lossy (concat css)" by (simp add: comp_def)
  have "concat (map content (chunks (outbuf (run_appends max_bytes max_chunks new_process_state ?xs)))) =
      concat (map content (chunks (outbuf new_process_state))) @ concat (map snd ?xs)"
    using assms(3,4) snd
    by (intro run_appends_fits)
       (simp_all add: new_process_state_def output_buffer_default_def counted_def)
  moreover have "fst (spawn_reader max_bytes max_chunks new_process_state (new_reader s)
      (map ReadOk css @ e # rest)) = run_appends max_bytes max_chunks new_process_state ?xs"
    using spawn_reader_appends [OF assms(1,2), of max_bytes max_chunks new_process_state "new_reader s" rest]
    by (auto simp: new_reader_def)
  ultimately show ?thesis
    using snd by (simp add: new_process_state_def output_buffer_default_def)
qed

theorem reader_output_exact_witness:
  "concat (map content (chunks (outbuf (fst
      (spawn_reader 8 8 new_process_state (new_reader Stdout)
        (map ReadOk [''ab'', ''c''] @ ReadErr # [])))))) = from_utf8_lossy (concat [''ab'', ''c''])"
proof (rule reader_output_exact)
  show "length (from_utf8_lossy (concat [''ab'', ''c''])) \<le> 8"
    using from_utf8_lossy_length [of "''abc''"]
    by (simp add: from_utf8_lossy.simps utf8_char_width_def)
qed (simp_all add: end_of_stream_def)

text \<open>Retention is bounded: after any sequence of appends the byte counter is exact, the
  retained text stays within the byte budget, the chunks within the chunk budget.
\<close>

theorem retained_output_bounded:
  assumes "0 < max_chunks"
  shows "let out = outbuf (run_appends max_bytes max_chunks new_process_state xs)
    in bytes out = length (concat (map content (chunks out))) \<and>
       bytes out \<le> max_bytes \<and> length (chunks out) \<le> max_chunks"
  using run_appends_within [OF new_process_state_facts(2) assms, of max_bytes xs]
  by (simp add: Let_def within_def counted_def length_concat comp_def)

theorem retained_output_bounded_witness:
  "let out = outbuf (run_appends 4 2 new_process_state
                [(Stdout, ''abc''), (Stderr, ''de''), (Stdout, ''f'')])
   in bytes out = length (concat (map content (chunks out))) \<and>
      bytes out \<le> 4 \<and> length (chunks out) \<le> 2"
  by (rule retained_output_bounded) simp

text \<open>C28.
  Polling with the returned cursor loses nothing.  Let a client poll from cursor \<open>a\<close>, let
  any output arrive, and let the client poll again from \<open>next_sequence - 1\<close>.  If
  neither reply reports truncation, the two replies together are every chunk the command
  produced past \<open>a\<close>, in order and once.
\<close>

theorem polling_loses_nothing:
  fixes b c xs ys a
  defines "s1 \<equiv> run_appends b c new_process_state xs"
  defines "s2 \<equiv> run_appends b c s1 ys"
  defines "p1 \<equiv> poll_state s1 a"
  defines "p2 \<equiv> poll_state s2 (poll_next_sequence p1 - 1)"
  assumes "\<not> poll_truncated p1" and "\<not> poll_truncated p2"
    and "a < poll_next_sequence p1" and "length xs + length ys + 1 < 2 ^ 64"
  shows "poll_output p1 @ poll_output p2 = drop (unat a) (log_appends b [] (xs @ ys))"
proof -
  let ?l1 = "log_appends b [] xs" and ?l2 = "log_appends b (log_appends b [] xs) ys"
  have w1: "window ?l1 (outbuf s1)" "numbered ?l1"
    unfolding s1_def using run_appends_window [OF new_process_state_facts(1) numbered_Nil] by auto
  have w2: "window ?l2 (outbuf s2)" "numbered ?l2"
    unfolding s2_def using run_appends_window [OF w1] by auto
  have small: "length ?l2 + 1 < 2 ^ 64" "length ?l1 + 1 < 2 ^ 64"
    using log_appends_length [of b "[]" xs] log_appends_length [of b ?l1 ys] assms(8) by auto
  have out1: "poll_output p1 = drop (unat a) ?l1"
    unfolding p1_def using w1 small(2) assms(5)[unfolded p1_def] by (rule poll_complete)
  have next_is: "unat (poll_next_sequence p1) = Suc (length ?l1)"
      "unat (poll_next_sequence p1 - 1) = length ?l1"
    unfolding p1_def by (rule poll_next_is_cursor [OF w1(1) small(2)])+
  have out2: "poll_output p2 = drop (length ?l1) ?l2"
    using poll_complete [OF w2 small(1) assms(6)[unfolded p2_def]] next_is(2) by (simp add: p2_def)
  have "unat a \<le> length ?l1" using assms(7) next_is(1) by (simp add: word_less_nat_alt)
  moreover obtain zs where "?l2 = ?l1 @ zs"
    using log_appends_prefix [of ?l1 b ys] by (auto simp: prefix_def)
  ultimately show ?thesis using out1 out2 by (simp add: log_appends_append)
qed

theorem polling_loses_nothing_witness:
  "poll_output (poll_state (run_appends 9 9 new_process_state [(Stdout, ''a'')]) 0) @
   poll_output (poll_state (run_appends 9 9 (run_appends 9 9 new_process_state [(Stdout, ''a'')])
       [(Stderr, ''b'')])
     (poll_next_sequence (poll_state (run_appends 9 9 new_process_state [(Stdout, ''a'')]) 0) - 1)) =
   drop (unat (0 :: u64)) (log_appends 9 [] ([(Stdout, ''a'')] @ [(Stderr, ''b'')]))"
proof -
  note ev = new_process_state_def output_buffer_default_def append_output_def truncate_utf8_def
    evict_output.simps over_budget_def poll_state_def saturating_add_u64_def Let_def
  show ?thesis by (rule polling_loses_nothing) (simp_all add: ev)
qed

end
