(* ===== verification/Authority.thy ===== *)
theory Authority
  imports Protocol
begin

text \<open>
  The runner-enforced leases of \<^verbatim>\<open>src/crates/kodo/src/authority.rs\<close>.  The registry is the map
  from a session to its lease; \<open>grant\<close> and \<open>ensure_valid\<close> take the reading of the
  monotonic clock that the code obtains from \<open>Instant::now\<close>.  \<open>grant\<close> is one step: in the code the
  clock is read before the lock is taken and the waiters are notified after it is dropped, so what
  is said of later grants supposes that they come with later readings of the clock.  The waiter
  \<open>wait_until_invalid\<close> is a small state machine that interleaves with grants and with the
  passage of time.
\<close>

section \<open>State\<close>

record lease_state =
  ownership_epoch :: u64
  generation :: u64
  expires_at :: instant

type_synonym authority_registry = "uuid \<rightharpoonup> lease_state"

text \<open>
  A guard holds an optional handle on the one registry of the dispatcher; the field
  \<open>guard_registry\<close> says whether the handle is there.
\<close>

record authority_guard =
  guard_registry :: bool
  guard_session_id :: uuid
  guard_ownership_epoch :: u64
  guard_generation :: u64

datatype authority_error = InvalidEpoch | InvalidTtl | Stale u64 | Lost

fun authority_error_to_string :: "authority_error \<Rightarrow> string" where
  "authority_error_to_string InvalidEpoch = ''authority lease ownership epoch must be positive''"
| "authority_error_to_string InvalidTtl =
     ''authority lease TTL must be between 1 and '' @ show_nat (unat MAX_AUTHORITY_LEASE_MS) @
     '' milliseconds''"
| "authority_error_to_string (Stale current_epoch) =
     ''authority lease was superseded by ownership epoch '' @ show_nat (unat current_epoch)"
| "authority_error_to_string Lost = ''authority lease expired or was superseded''"

definition duration_from_millis :: "u64 \<Rightarrow> nat" where
  "duration_from_millis ms = unat ms * 1000000"

section \<open>Operations\<close>

definition grant ::
  "authority_registry \<Rightarrow> instant \<Rightarrow> authority_lease \<Rightarrow>
   authority_error + (authority_registry \<times> authority_guard)" where
  "grant sessions now lease =
     (if lease_ownership_epoch lease = 0 then Inl InvalidEpoch
      else if lease_ttl_ms lease = 0 \<or> lease_ttl_ms lease > MAX_AUTHORITY_LEASE_MS then
        Inl InvalidTtl
      else
        let previous = sessions (lease_session_id lease) in
        case previous of
          Some state \<Rightarrow>
            if lease_ownership_epoch lease < ownership_epoch state then
              Inl (Stale (ownership_epoch state))
            else
              let gen = (if ownership_epoch state = lease_ownership_epoch lease \<and>
                            expires_at state > now
                         then generation state else generation state + 1)
              in Inr (sessions(lease_session_id lease \<mapsto>
                       \<lparr>ownership_epoch = lease_ownership_epoch lease, generation = gen,
                        expires_at = now + duration_from_millis (lease_ttl_ms lease)\<rparr>),
                     \<lparr>guard_registry = True, guard_session_id = lease_session_id lease,
                      guard_ownership_epoch = lease_ownership_epoch lease,
                      guard_generation = gen\<rparr>)
        | None \<Rightarrow>
            Inr (sessions(lease_session_id lease \<mapsto>
                   \<lparr>ownership_epoch = lease_ownership_epoch lease, generation = 0,
                    expires_at = now + duration_from_millis (lease_ttl_ms lease)\<rparr>),
                 \<lparr>guard_registry = True, guard_session_id = lease_session_id lease,
                  guard_ownership_epoch = lease_ownership_epoch lease,
                  guard_generation = 0\<rparr>))"

definition unmanaged :: authority_guard where
  "unmanaged = \<lparr>guard_registry = False, guard_session_id = 0, guard_ownership_epoch = 0,
                guard_generation = 0\<rparr>"

definition state_matches :: "lease_state \<Rightarrow> authority_guard \<Rightarrow> instant \<Rightarrow> bool" where
  "state_matches state g now \<longleftrightarrow>
     ownership_epoch state = guard_ownership_epoch g \<and>
     generation state = guard_generation g \<and> expires_at state > now"

definition ensure_valid ::
  "authority_registry \<Rightarrow> instant \<Rightarrow> authority_guard \<Rightarrow> authority_error + unit" where
  "ensure_valid sessions now g =
     (if \<not> guard_registry g then Inr ()
      else case sessions (guard_session_id g) of
        Some state \<Rightarrow> if state_matches state g now then Inr () else Inl Lost
      | None \<Rightarrow> Inl Lost)"

text \<open>The registry after one lease message whose outcome the caller ignores, and after many.\<close>

definition apply_lease :: "authority_registry \<Rightarrow> instant \<Rightarrow> authority_lease \<Rightarrow> authority_registry"
where
  "apply_lease sessions now lease =
     (case grant sessions now lease of Inl _ \<Rightarrow> sessions | Inr (s, _) \<Rightarrow> s)"

fun grant_all :: "authority_registry \<Rightarrow> (instant \<times> authority_lease) list \<Rightarrow> authority_registry"
where
  "grant_all sessions [] = sessions"
| "grant_all sessions ((now, lease) # events) =
     grant_all (apply_lease sessions now lease) events"

section \<open>The waiter\<close>

text \<open>
  One turn of the loop of \<open>wait_until_invalid\<close> first arms the notification, then reads
  the registry, then parks until the lease expires or a grant notifies it.  The flag of an
  armed or parked waiter records that \<open>notify_waiters\<close> has run since the arming.
\<close>

datatype waiter = Loop | Armed bool | Parked instant bool | Returned | Pending

record lease_world =
  sessions :: authority_registry
  clock :: instant
  waiter :: waiter

fun notify_waiters :: "waiter \<Rightarrow> waiter" where
  "notify_waiters (Armed _) = Armed True"
| "notify_waiters (Parked t _) = Parked t True"
| "notify_waiters w = w"

text \<open>The critical section of the loop: keep waiting until the expiry, or return.\<close>

definition wait_read :: "authority_registry \<Rightarrow> instant \<Rightarrow> authority_guard \<Rightarrow> bool \<Rightarrow> waiter" where
  "wait_read sess now g notified =
     (case sess (guard_session_id g) of
        Some state \<Rightarrow> if state_matches state g now then Parked (expires_at state) notified
                      else Returned
      | None \<Rightarrow> Returned)"

inductive wait_step :: "authority_guard \<Rightarrow> lease_world \<Rightarrow> lease_world \<Rightarrow> bool" for g where
  time: "clock w \<le> t \<Longrightarrow> wait_step g w (w\<lparr>clock := t\<rparr>)"
| grant: "Authority.grant (sessions w) (clock w) lease = Inr (s, g') \<Longrightarrow>
    wait_step g w (w\<lparr>sessions := s, waiter := notify_waiters (waiter w)\<rparr>)"
| unmanaged: "waiter w = Loop \<Longrightarrow> \<not> guard_registry g \<Longrightarrow> wait_step g w (w\<lparr>waiter := Pending\<rparr>)"
| arm: "waiter w = Loop \<Longrightarrow> guard_registry g \<Longrightarrow> wait_step g w (w\<lparr>waiter := Armed False\<rparr>)"
| read: "waiter w = Armed n \<Longrightarrow>
    wait_step g w (w\<lparr>waiter := wait_read (sessions w) (clock w) g n\<rparr>)"
| wake: "waiter w = Parked t n \<Longrightarrow> n \<or> t \<le> clock w \<Longrightarrow> wait_step g w (w\<lparr>waiter := Loop\<rparr>)"

inductive wait_run :: "authority_guard \<Rightarrow> lease_world \<Rightarrow> lease_world \<Rightarrow> bool" for g where
  wait_refl: "wait_run g w w"
| wait_next: "wait_run g w v \<Longrightarrow> wait_step g v u \<Longrightarrow> wait_run g w u"


section \<open>Facts on single operations\<close>

lemma ensure_valid_cases: "ensure_valid r t g = Inr () \<or> ensure_valid r t g = Inl Lost"
  by (auto simp: ensure_valid_def split: option.splits)

lemma ensure_valid_unmanaged [simp]: "ensure_valid r t unmanaged = Inr ()"
  by (simp add: ensure_valid_def unmanaged_def)

lemma ensure_valid_iff:
  "guard_registry g \<Longrightarrow>
   ensure_valid r t g = Inr () \<longleftrightarrow>
     (\<exists>st. r (guard_session_id g) = Some st \<and> state_matches st g t)"
  by (auto simp: ensure_valid_def split: option.splits)

lemma grant_InrE:
  assumes "grant r now lease = Inr (r', g)"
  obtains st where "r' = r(lease_session_id lease \<mapsto> st)"
    "ownership_epoch st = lease_ownership_epoch lease"
    "expires_at st = now + duration_from_millis (lease_ttl_ms lease)"
    "g = \<lparr>guard_registry = True, guard_session_id = lease_session_id lease,
          guard_ownership_epoch = ownership_epoch st, guard_generation = generation st\<rparr>"
    "lease_ownership_epoch lease \<noteq> 0" "lease_ttl_ms lease \<noteq> 0"
    "lease_ttl_ms lease \<le> MAX_AUTHORITY_LEASE_MS"
    "\<And>old. r (lease_session_id lease) = Some old \<Longrightarrow>
       ownership_epoch old \<le> ownership_epoch st \<and>
       generation st = (if ownership_epoch old = ownership_epoch st \<and> now < expires_at old
                        then generation old else generation old + 1)"
  using assms
  by (cases "r (lease_session_id lease)")
     (auto simp: grant_def Let_def not_less split: if_splits)

text \<open>What one grant does to the lease of a session, as seen by an earlier holder.\<close>

definition advances :: "instant \<Rightarrow> lease_state \<Rightarrow> lease_state \<Rightarrow> bool" where
  "advances now old st \<longleftrightarrow>
     st = old \<or>
     ownership_epoch old \<le> ownership_epoch st \<and>
     generation st = (if ownership_epoch old = ownership_epoch st \<and> now < expires_at old
                      then generation old else generation old + 1)"

lemma apply_lease_advances:
  assumes "r sid = Some old"
  obtains st where "apply_lease r now lease sid = Some st" "advances now old st"
proof (cases "grant r now lease")
  case (Inl e)
  then show ?thesis using assms that by (simp add: apply_lease_def advances_def)
next
  case (Inr p)
  then obtain r' g where p: "grant r now lease = Inr (r', g)" by (cases p) auto
  then have app: "apply_lease r now lease = r'" by (simp add: apply_lease_def)
  from p show ?thesis
  proof (cases rule: grant_InrE)
    case (1 st)
    show ?thesis
    proof (cases "lease_session_id lease = sid")
      case True
      with 1 assms have "advances now old st" by (simp add: advances_def)
      with True 1(1) app show ?thesis by (intro that) simp_all
    next
      case False
      with 1(1) app assms show ?thesis by (intro that [of old]) (simp_all add: advances_def)
    qed
  qed
qed

section \<open>Fencing\<close>

text \<open>
  How a guard relates to the lease of its session after at most \<open>n\<close> further grants.  The
  generation counter is a wrapping 64-bit word, so the distance is a natural number whose
  image in the word is the difference of the counters.
\<close>

definition issued :: "nat \<Rightarrow> authority_guard \<Rightarrow> authority_registry \<Rightarrow> bool" where
  "issued n g r \<longleftrightarrow>
     (\<exists>st. r (guard_session_id g) = Some st \<and>
       (guard_ownership_epoch g < ownership_epoch st \<or>
        guard_ownership_epoch g = ownership_epoch st \<and>
          (\<exists>k \<le> n. generation st = guard_generation g + of_nat k)))"

definition fenced :: "nat \<Rightarrow> authority_guard \<Rightarrow> instant \<Rightarrow> authority_registry \<Rightarrow> bool" where
  "fenced n g t r \<longleftrightarrow>
     (\<exists>st. r (guard_session_id g) = Some st \<and>
       (guard_ownership_epoch g < ownership_epoch st \<or>
        guard_ownership_epoch g = ownership_epoch st \<and>
          (\<exists>k \<le> n. generation st = guard_generation g + of_nat k \<and>
             (0 < k \<or> expires_at st \<le> t))))"

lemma grant_issued: "grant r now lease = Inr (r', g) \<Longrightarrow> issued 0 g r'"
  by (erule grant_InrE) (simp add: issued_def)

lemma issued_step:
  assumes "issued n g r"
  shows "issued (Suc n) g (apply_lease r now lease)"
proof -
  obtain old where old: "r (guard_session_id g) = Some old"
    and cond: "guard_ownership_epoch g < ownership_epoch old \<or>
      guard_ownership_epoch g = ownership_epoch old \<and>
      (\<exists>k \<le> n. generation old = guard_generation g + of_nat k)"
    using assms by (auto simp: issued_def)
  have keep: "\<exists>k' \<le> Suc n. x = guard_generation g + of_nat k'"
    if "x = guard_generation g + of_nat k \<or> x = guard_generation g + of_nat k + 1" "k \<le> n" for x k
    using that(1)
  proof
    assume "x = guard_generation g + of_nat k"
    then show ?thesis using that(2) by (intro exI [of _ k]) simp
  next
    assume "x = guard_generation g + of_nat k + 1"
    then show ?thesis using that(2) by (intro exI [of _ "Suc k"]) simp
  qed
  obtain st where st: "apply_lease r now lease (guard_session_id g) = Some st" "advances now old st"
    using apply_lease_advances [where r = r, OF old] .
  show ?thesis
  proof (cases "guard_ownership_epoch g < ownership_epoch st")
    case False
    then obtain k where k: "k \<le> n" "generation old = guard_generation g + of_nat k"
      "guard_ownership_epoch g = ownership_epoch old" "ownership_epoch old = ownership_epoch st"
      using cond st(2) by (auto simp: advances_def)
    then have "\<exists>k' \<le> Suc n. generation st = guard_generation g + of_nat k'"
      using st(2) by (intro keep [of _ k]) (auto simp: advances_def split: if_splits)
    with st k show ?thesis by (simp add: issued_def)
  qed (simp add: issued_def st(1))
qed

lemma issued_all: "issued n g r \<Longrightarrow> issued (n + length es) g (grant_all r es)"
proof (induction es arbitrary: n r)
  case (Cons e es)
  obtain now lease where e: "e = (now, lease)" by (cases e)
  show ?case
    using Cons.IH [OF issued_step [OF Cons.prems, of now lease]] e by simp
qed simp

lemma issued_lost_fenced:
  assumes "issued n g r" "guard_registry g" "ensure_valid r t g \<noteq> Inr ()"
  shows "fenced n g t r"
proof -
  obtain st where st: "r (guard_session_id g) = Some st"
    and cond: "guard_ownership_epoch g < ownership_epoch st \<or>
      guard_ownership_epoch g = ownership_epoch st \<and>
      (\<exists>k \<le> n. generation st = guard_generation g + of_nat k)"
    using assms(1) by (auto simp: issued_def)
  have "\<not> state_matches st g t"
    using assms(2,3) st by (auto simp: ensure_valid_def split: if_splits)
  then have "expires_at st \<le> t"
    if "guard_ownership_epoch g = ownership_epoch st" "generation st = guard_generation g"
    using that by (simp add: state_matches_def not_less)
  with st cond show ?thesis
    by (cases "guard_ownership_epoch g < ownership_epoch st")
       (auto simp: fenced_def intro!: gr0I)
qed

lemma fenced_step:
  assumes "fenced n g t r" "t \<le> now"
  shows "fenced (Suc n) g t (apply_lease r now lease)"
proof -
  obtain old where old: "r (guard_session_id g) = Some old"
    and cond: "guard_ownership_epoch g < ownership_epoch old \<or>
      guard_ownership_epoch g = ownership_epoch old \<and>
      (\<exists>k \<le> n. generation old = guard_generation g + of_nat k \<and> (0 < k \<or> expires_at old \<le> t))"
    using assms by (auto simp: fenced_def)
  obtain st where st: "apply_lease r now lease (guard_session_id g) = Some st"
    and eff: "advances now old st"
    using apply_lease_advances [where r = r, OF old] .
  have "guard_ownership_epoch g < ownership_epoch old \<or>
      guard_ownership_epoch g = ownership_epoch old \<and>
        (\<exists>k \<le> n. generation old = guard_generation g + of_nat k \<and> 0 < k) \<or>
      guard_ownership_epoch g = ownership_epoch old \<and>
        generation old = guard_generation g \<and> expires_at old \<le> t"
    using cond by (auto intro!: gr0I)
  then consider (newer) "guard_ownership_epoch g < ownership_epoch old"
    | (later) k where "guard_ownership_epoch g = ownership_epoch old" "k \<le> n"
        "generation old = guard_generation g + of_nat k" "0 < k"
    | (expired) "guard_ownership_epoch g = ownership_epoch old"
        "generation old = guard_generation g" "expires_at old \<le> t"
    by blast
  then show ?thesis
  proof cases
    case newer
    then have "guard_ownership_epoch g < ownership_epoch st" using eff by (auto simp: advances_def)
    with st show ?thesis by (simp add: fenced_def)
  next
    case (later k)
    have "guard_ownership_epoch g < ownership_epoch st \<or>
      ownership_epoch st = ownership_epoch old \<and>
      (generation st = generation old \<or> generation st = generation old + 1)"
      using eff later(1) by (auto simp: advances_def split: if_splits)
    then show ?thesis
    proof (elim disjE conjE)
      assume "guard_ownership_epoch g < ownership_epoch st"
      with st show ?thesis by (simp add: fenced_def)
    next
      assume "ownership_epoch st = ownership_epoch old" "generation st = generation old"
      then show ?thesis using st later by (auto simp: fenced_def intro!: exI [of _ k])
    next
      assume "ownership_epoch st = ownership_epoch old" "generation st = generation old + 1"
      then show ?thesis using st later by (auto simp: fenced_def intro!: exI [of _ "Suc k"])
    qed
  next
    case expired
    have "guard_ownership_epoch g < ownership_epoch st \<or> st = old \<or>
      ownership_epoch st = ownership_epoch old \<and> generation st = guard_generation g + of_nat (Suc 0)"
      using eff expired assms(2) by (auto simp: advances_def split: if_splits)
    then show ?thesis
    proof (elim disjE conjE)
      assume "ownership_epoch st = ownership_epoch old"
        "generation st = guard_generation g + of_nat (Suc 0)"
      then show ?thesis using st expired by (auto simp: fenced_def intro!: exI [of _ "Suc 0"])
    qed (use st expired in \<open>auto simp: fenced_def intro!: exI [of _ 0]\<close>)
  qed
qed

lemma fenced_all:
  "fenced n g t r \<Longrightarrow> \<forall>e \<in> set es. t \<le> fst e \<Longrightarrow> fenced (n + length es) g t (grant_all r es)"
proof (induction es arbitrary: n r)
  case (Cons e es)
  obtain now lease where e: "e = (now, lease)" by (cases e)
  then have "t \<le> now" using Cons.prems(2) by simp
  from Cons.IH [OF fenced_step [OF Cons.prems(1) this, of lease]] Cons.prems(2) e
  show ?case by simp
qed simp

text \<open>Fewer than \<open>2 ^ 64\<close> grants cannot bring a generation back, so a fenced guard is dead.\<close>

lemma fenced_invalid:
  assumes "fenced n g t r" "guard_registry g" "n < 2 ^ 64" "t \<le> t'"
  shows "ensure_valid r t' g = Inl Lost"
proof -
  have ne: "guard_generation g + of_nat k \<noteq> guard_generation g" if "0 < k" "k \<le> n" for k
  proof
    assume "guard_generation g + of_nat k = guard_generation g"
    then have "(of_nat k :: u64) = 0" by simp
    moreover have "unat (of_nat k :: u64) = k"
      using that assms(3) by (simp add: unat_of_nat take_bit_nat_eq_self)
    ultimately show False using that by simp
  qed
  from assms(1) obtain st where st: "r (guard_session_id g) = Some st"
    and cond: "guard_ownership_epoch g < ownership_epoch st \<or>
      guard_ownership_epoch g = ownership_epoch st \<and>
      (\<exists>k \<le> n. generation st = guard_generation g + of_nat k \<and> (0 < k \<or> expires_at st \<le> t))"
    by (auto simp: fenced_def)
  have "\<not> state_matches st g t'"
  proof
    assume m: "state_matches st g t'"
    then obtain k where "k \<le> n" "generation st = guard_generation g + of_nat k"
      "0 < k \<or> expires_at st \<le> t"
      using cond by (auto simp: state_matches_def)
    with m ne show False using assms(4) by (auto simp: state_matches_def)
  qed
  with st assms(2) show ?thesis by (simp add: ensure_valid_def)
qed

section \<open>Epochs never go back\<close>

lemma grant_all_epoch:
  assumes "r sid = Some old"
  shows "\<exists>st. grant_all r es sid = Some st \<and> ownership_epoch old \<le> ownership_epoch st"
  using assms
proof (induction es arbitrary: r old)
  case (Cons e es)
  obtain now lease where e: "e = (now, lease)" by (cases e)
  obtain st where st: "apply_lease r now lease sid = Some st" "advances now old st"
    using apply_lease_advances [where r = r, OF Cons.prems] .
  then obtain st' where "grant_all (apply_lease r now lease) es sid = Some st'"
    "ownership_epoch st \<le> ownership_epoch st'"
    using Cons.IH by blast
  with st(2) e show ?case by (auto simp: advances_def)
qed simp

section \<open>The waiter misses no invalidation\<close>

text \<open>
  A parked waiter that has not been notified since it armed sleeps on the registry as it
  is: its deadline is the expiry of a lease that still matches the guard.
\<close>

definition waiter_inv :: "authority_guard \<Rightarrow> lease_world \<Rightarrow> bool" where
  "waiter_inv g w \<longleftrightarrow>
     (\<forall>t. waiter w = Parked t False \<longrightarrow>
        (\<exists>st. sessions w (guard_session_id g) = Some st \<and>
           ownership_epoch st = guard_ownership_epoch g \<and>
           generation st = guard_generation g \<and> expires_at st = t))"

lemma waiter_inv_step [invariant_intros]:
  "wait_step g w v \<Longrightarrow> waiter_inv g w \<Longrightarrow> waiter_inv g v"
proof (induction rule: wait_step.induct)
  case (grant w lease s g')
  then show ?case by (cases "waiter w") (auto simp: waiter_inv_def)
next
  case (read w n)
  then show ?case
    by (auto simp: waiter_inv_def wait_read_def state_matches_def split: option.splits if_splits)
qed (auto simp: waiter_inv_def)

lemma waiter_inv_run: "wait_run g w v \<Longrightarrow> waiter_inv g w \<Longrightarrow> waiter_inv g v"
  by (induction rule: wait_run.induct) (auto intro: invariant_intros)

lemma wait_run_read:
  "wait_run g w v \<Longrightarrow> waiter v = Armed n \<Longrightarrow> wait_read (sessions v) (clock v) g n = x \<Longrightarrow>
   wait_run g w (v\<lparr>waiter := x\<rparr>)"
  using wait_next wait_step.read by blast

section \<open>The interface of the registry\<close>

text \<open>
  What the dispatcher and the process supervisor rely on: a fresh grant is valid, at most
  one ownership epoch of a session is valid at a time, validity is lost with time, and a
  grant disturbs neither other sessions nor holders of the same epoch.
\<close>

locale lease_authority =
  fixes issue :: "'r \<Rightarrow> instant \<Rightarrow> 'l \<Rightarrow> 'e + ('r \<times> 'g)"
    and valid :: "'r \<Rightarrow> instant \<Rightarrow> 'g \<Rightarrow> bool"
    and session_of :: "'g \<Rightarrow> 'i"
    and epoch_of :: "'g \<Rightarrow> 'n::linorder"
  assumes issue_valid: "issue r t l = Inr (r', g) \<Longrightarrow> valid r' t g"
    and valid_unique: "valid r t g \<Longrightarrow> valid r t h \<Longrightarrow> session_of g = session_of h \<Longrightarrow> epoch_of g = epoch_of h"
    and valid_antimono: "valid r t' g \<Longrightarrow> t \<le> t' \<Longrightarrow> valid r t g"
    and issue_frame: "issue r t l = Inr (r', g) \<Longrightarrow> session_of h \<noteq> session_of g \<Longrightarrow>
      valid r' t' h \<longleftrightarrow> valid r t' h"
    and issue_renew: "issue r t l = Inr (r', g) \<Longrightarrow> valid r t h \<Longrightarrow> session_of h = session_of g \<Longrightarrow>
      epoch_of h = epoch_of g \<Longrightarrow> valid r' t h"
begin

lemma superseded_invalid:
  assumes "issue r t l = Inr (r', g)" "session_of h = session_of g" "epoch_of h \<noteq> epoch_of g" "t \<le> t'"
  shows "\<not> valid r' t' h"
  using assms issue_valid valid_antimono valid_unique by metis

text \<open>Which holders survive a grant.\<close>

lemma handover:
  assumes "issue r t l = Inr (r', g)" "valid r t h"
  shows "valid r' t h \<longleftrightarrow> session_of h \<noteq> session_of g \<or> epoch_of h = epoch_of g"
  using assms superseded_invalid issue_frame issue_renew by blast

end

definition guard_valid :: "authority_registry \<Rightarrow> instant \<Rightarrow> authority_guard \<Rightarrow> bool" where
  "guard_valid r t g \<longleftrightarrow> guard_registry g \<and> ensure_valid r t g = Inr ()"

lemma guard_valid_iff:
  "guard_valid r t g \<longleftrightarrow> guard_registry g \<and>
     (\<exists>st. r (guard_session_id g) = Some st \<and> state_matches st g t)"
  by (auto simp: guard_valid_def ensure_valid_iff)

lemma duration_pos: "ms \<noteq> 0 \<Longrightarrow> 0 < duration_from_millis ms"
  by (simp add: duration_from_millis_def unat_gt_0)

interpretation leases: lease_authority grant guard_valid guard_session_id guard_ownership_epoch
proof
  fix r t l r' g
  assume "grant r t l = Inr (r', g)"
  then show "guard_valid r' t g"
    by (cases rule: grant_InrE) (simp add: guard_valid_iff state_matches_def duration_pos)
next
  fix r t and g h :: authority_guard
  assume "guard_valid r t g" "guard_valid r t h" "guard_session_id g = guard_session_id h"
  then show "guard_ownership_epoch g = guard_ownership_epoch h"
    by (auto simp: guard_valid_iff state_matches_def)
next
  fix r t' g t
  assume "guard_valid r t' g" "t \<le> t'"
  then show "guard_valid r t g" by (auto simp: guard_valid_iff state_matches_def)
next
  fix r t l r' g and h :: authority_guard and t'
  assume "grant r t l = Inr (r', g)" "guard_session_id h \<noteq> guard_session_id g"
  then show "guard_valid r' t' h \<longleftrightarrow> guard_valid r t' h"
    by (cases rule: grant_InrE) (simp add: guard_valid_iff)
next
  fix r t l r' g and h :: authority_guard
  assume g: "grant r t l = Inr (r', g)" and h: "guard_valid r t h"
    and eq: "guard_session_id h = guard_session_id g" "guard_ownership_epoch h = guard_ownership_epoch g"
  from g show "guard_valid r' t h"
    by (cases rule: grant_InrE)
       (use h eq in \<open>auto simp: guard_valid_iff state_matches_def duration_pos\<close>)
qed

section \<open>Properties\<close>

text \<open>C15.
  A lost lease stays lost.  Take any guard that \<open>grant\<close> issued, let any lease messages
  \<open>es\<close> arrive, and let \<open>ensure_valid\<close> reject the guard at time \<open>t\<close>.  Then it rejects the
  guard at every later time, whatever leases \<open>fs\<close> arrive from then on, as long as
  fewer than \<open>2 ^ 64\<close> messages arrive in all (the generation counter wraps).
\<close>

theorem lost_guard_stays_lost:
  assumes "grant r now lease = Inr (r1, g)"
    and "ensure_valid (grant_all r1 es) t g \<noteq> Inr ()"
    and "\<forall>e \<in> set fs. t \<le> fst e" and "t \<le> t'"
    and "length es + length fs < 2 ^ 64"
  shows "ensure_valid (grant_all (grant_all r1 es) fs) t' g = Inl Lost"
proof -
  have managed: "guard_registry g" using assms(1) by (cases rule: grant_InrE) simp
  have "issued (length es) g (grant_all r1 es)"
    using issued_all [OF grant_issued [OF assms(1)], of es] by simp
  then have "fenced (length es) g t (grant_all r1 es)"
    using managed assms(2) by (rule issued_lost_fenced)
  then have "fenced (length es + length fs) g t (grant_all (grant_all r1 es) fs)"
    using assms(3) by (rule fenced_all)
  then show ?thesis using managed assms(5,4) by (rule fenced_invalid)
qed

definition demo_lease :: "u64 \<Rightarrow> authority_lease" where
  "demo_lease e = \<lparr>lease_session_id = 7, lease_ownership_epoch = e, lease_ttl_ms = 1\<rparr>"

definition demo_guard :: authority_guard where
  "demo_guard = \<lparr>guard_registry = True, guard_session_id = 7, guard_ownership_epoch = 1,
                 guard_generation = 0\<rparr>"

definition demo_registry :: authority_registry where
  "demo_registry = [7 \<mapsto> \<lparr>ownership_epoch = 1, generation = 0, expires_at = 1000000\<rparr>]"

lemma demo_grant: "grant Map.empty 0 (demo_lease 1) = Inr (demo_registry, demo_guard)"
  by (simp add: grant_def demo_lease_def demo_registry_def demo_guard_def
      duration_from_millis_def MAX_AUTHORITY_LEASE_MS_def)

text \<open>The lease expires after a millisecond; a renewal in the same epoch comes too late.\<close>

theorem lost_guard_stays_lost_witness:
  "ensure_valid (grant_all demo_registry [(2000000, demo_lease 1)]) 2000001 demo_guard = Inl Lost"
proof -
  have "ensure_valid (grant_all demo_registry []) 1000000 demo_guard \<noteq> Inr ()"
    by (simp add: ensure_valid_def demo_registry_def demo_guard_def state_matches_def)
  from lost_guard_stays_lost [OF demo_grant this, of "[(2000000, demo_lease 1)]" 2000001]
  show ?thesis by simp
qed

text \<open>A grant hands a session over.  After a successful \<open>grant\<close> the guards that were valid and
  still are, are exactly those of other sessions and those of the granted epoch; every
  guard of another epoch of the session is rejected from that moment on.
\<close>

theorem grant_hands_over:
  assumes "grant r t lease = Inr (r', g)" and "guard_valid r t h"
  shows "guard_valid r' t g \<and>
    (guard_valid r' t h \<longleftrightarrow> guard_session_id h \<noteq> lease_session_id lease \<or>
                            guard_ownership_epoch h = lease_ownership_epoch lease)"
proof -
  have "guard_session_id g = lease_session_id lease"
    "guard_ownership_epoch g = lease_ownership_epoch lease"
    using assms(1) by (cases rule: grant_InrE, simp)+
  then show ?thesis
    using leases.issue_valid [OF assms(1)] leases.handover [OF assms] by simp
qed

theorem grant_hands_over_witness:
  "\<not> guard_valid (apply_lease demo_registry 5 (demo_lease 2)) 5 demo_guard"
proof -
  have g: "grant demo_registry 5 (demo_lease 2) =
    Inr (apply_lease demo_registry 5 (demo_lease 2),
         \<lparr>guard_registry = True, guard_session_id = 7, guard_ownership_epoch = 2,
          guard_generation = 1\<rparr>)"
    by (simp add: grant_def apply_lease_def demo_lease_def demo_registry_def
        duration_from_millis_def MAX_AUTHORITY_LEASE_MS_def)
  have v: "guard_valid demo_registry 5 demo_guard"
    by (simp add: guard_valid_iff demo_registry_def demo_guard_def state_matches_def)
  from grant_hands_over [OF g v] show ?thesis
    by (simp add: demo_guard_def demo_lease_def)
qed

text \<open>C32.
  No lost wake-up.  Run \<open>wait_until_invalid\<close> beside any interleaving of grants and of
  time.  Whenever the waiter is parked although the lease is no longer valid, it can
  wake, re-read the registry and return without any further grant and without time passing.
\<close>

theorem waiter_not_stuck:
  assumes "wait_run g w0 w" and "waiter w0 = Loop" and "waiter w = Parked d n"
    and "guard_registry g" and "ensure_valid (sessions w) (clock w) g \<noteq> Inr ()"
  shows "wait_run g w (w\<lparr>waiter := Returned\<rparr>)"
proof -
  have "waiter_inv g w"
    using waiter_inv_run [OF assms(1)] assms(2) by (simp add: waiter_inv_def)
  then have wake: "n \<or> d \<le> clock w"
    using assms(3-5) by (auto simp: waiter_inv_def ensure_valid_iff state_matches_def not_less)
  have read: "wait_read (sessions w) (clock w) g False = Returned"
    using assms(4,5) by (auto simp: wait_read_def ensure_valid_def split: option.splits if_splits)
  have "wait_run g w (w\<lparr>waiter := Loop\<rparr>)"
    using wait_next [OF wait_refl wait_step.wake [OF assms(3) wake]] .
  then have "wait_run g w (w\<lparr>waiter := Armed False\<rparr>)"
    using wait_next [OF _ wait_step.arm [of "w\<lparr>waiter := Loop\<rparr>"]] assms(4) by simp
  from wait_run_read [OF this, of False Returned] read show ?thesis by simp
qed

text \<open>A waiter parks on a lease that expires in a millisecond, and the clock reaches that time.\<close>

theorem waiter_not_stuck_witness:
  "wait_run demo_guard \<lparr>sessions = demo_registry, clock = 1000000, waiter = Parked 1000000 False\<rparr>
     \<lparr>sessions = demo_registry, clock = 1000000, waiter = Returned\<rparr>"
proof -
  let ?w = "\<lambda>t x. \<lparr>sessions = demo_registry, clock = t, waiter = x\<rparr>"
  have park: "wait_read demo_registry 0 demo_guard False = Parked 1000000 False"
    by (simp add: wait_read_def demo_registry_def demo_guard_def state_matches_def)
  have "wait_run demo_guard (?w 0 Loop) (?w 0 (Armed False))"
    using wait_next [OF wait_refl wait_step.arm [of "?w 0 Loop" demo_guard]]
    by (simp add: demo_guard_def)
  from wait_run_read [OF this, of False "Parked 1000000 False"] park
  have "wait_run demo_guard (?w 0 Loop) (?w 0 (Parked 1000000 False))" by simp
  then have "wait_run demo_guard (?w 0 Loop) (?w 1000000 (Parked 1000000 False))"
    using wait_next [OF _ wait_step.time [of "?w 0 (Parked 1000000 False)" 1000000]] by simp
  from waiter_not_stuck [OF this, of 1000000 False] show ?thesis
    by (simp add: ensure_valid_def demo_registry_def demo_guard_def state_matches_def)
qed

text \<open>No spurious loss.  A step of the waiter returns only in a state in which \<open>ensure_valid\<close>
  rejects the guard.
\<close>

theorem waiter_returns_only_when_lost:
  assumes "wait_step g w w'" and "waiter w \<noteq> Returned" and "waiter w' = Returned"
    and "guard_registry g"
  shows "ensure_valid (sessions w) (clock w) g = Inl Lost"
  using assms
proof (cases rule: wait_step.cases)
  case (grant lease s g')
  then show ?thesis using assms(2,3) by (cases "waiter w") auto
next
  case (read n)
  then show ?thesis
    using assms by (auto simp: wait_read_def ensure_valid_def split: option.splits if_splits)
qed (use assms in auto)

theorem waiter_returns_only_when_lost_witness:
  "ensure_valid Map.empty 0 demo_guard = Inl Lost"
proof -
  let ?w = "\<lambda>x. \<lparr>sessions = Map.empty, clock = 0, waiter = x\<rparr>"
  have "wait_step demo_guard (?w (Armed False)) (?w Returned)"
    using wait_step.read [of "?w (Armed False)" False demo_guard] by (simp add: wait_read_def)
  from waiter_returns_only_when_lost [OF this] show ?thesis by (simp add: demo_guard_def)
qed

text \<open>Ownership epochs are monotone: whatever leases arrive, in whatever order, the epoch that
  the registry holds for a session never decreases.
\<close>

theorem epoch_never_decreases:
  assumes "grant_all r es sid = Some st"
  shows "\<exists>st'. grant_all r (es @ fs) sid = Some st' \<and> ownership_epoch st \<le> ownership_epoch st'"
proof -
  have "grant_all r (es @ fs) = grant_all (grant_all r es) fs" for r
    by (induction r es rule: grant_all.induct) simp_all
  then show ?thesis using grant_all_epoch [where r = "grant_all r es", OF assms] by simp
qed

theorem epoch_never_decreases_witness:
  "\<exists>st'. grant_all Map.empty ([(0, demo_lease 1)] @ [(1, demo_lease 2), (2, demo_lease 1)]) 7 = Some st' \<and>
     1 \<le> ownership_epoch st'"
  using epoch_never_decreases
    [of Map.empty "[(0, demo_lease 1)]" 7 "\<lparr>ownership_epoch = 1, generation = 0, expires_at = 1000000\<rparr>"
        "[(1, demo_lease 2), (2, demo_lease 1)]"]
  by (simp add: apply_lease_def demo_grant demo_registry_def)

end
