(* ===== verification/Process.thy ===== *)
theory Process
  imports Process_Output Authority "HOL-Library.Mapping"
begin

text \<open>
  The lifecycle of supervised commands, \<^verbatim>\<open>src/crates/kodo/src/process.rs\<close>: the manager with its
  bounded registry of commands, \<open>start\<close>, \<open>poll\<close> and \<open>stop\<close>, and the supervisor task of
  each command.  A supervisor is a state machine whose phases are the stretches of
  \<open>supervise\<close> between two suspension points; the commands of one runner, their readers, the
  lease registry and the clock interleave freely in the step relation \<open>proc_step\<close>.
  Operating-system outcomes (whether a spawn succeeds, when a child exits, what a pipe
  delivers, whether a wait ends in time) are arguments of the operations.
\<close>

section \<open>State\<close>

definition PROCESS_RETENTION :: nat where
  "PROCESS_RETENTION = 5 * 60 * 1000000000"

datatype process_error =
    Start io_error
  | Unknown uuid
  | SupervisorStopped uuid
  | Capacity usize
  | ProcessAuthority string

datatype stop_reason = ReasonTimedOut | ReasonStopped | ReasonAuthorityLost

text \<open>
  An entry shares its state with the supervisor; \<open>entry_stop\<close> holds the messages of the
  stop channel, whose capacity is one.
\<close>

record process_entry =
  entry_state :: process_state
  entry_stop :: "stop_reason list"

record process_manager =
  pm_entries :: "(uuid, process_entry) mapping"
  pm_max_pending_output_bytes :: usize
  pm_max_retained_processes :: usize
  pm_max_output_chunks :: usize

definition with_limits :: "usize \<Rightarrow> usize \<Rightarrow> usize \<Rightarrow> process_manager" where
  "with_limits max_pending max_retained max_chunks =
     \<lparr>pm_entries = Mapping.empty, pm_max_pending_output_bytes = max_pending,
      pm_max_retained_processes = max_retained, pm_max_output_chunks = max_chunks\<rparr>"

definition new_manager :: "usize \<Rightarrow> process_manager" where
  "new_manager max_pending =
     with_limits max_pending (max_retained_processes standalone)
       (max_process_output_chunks standalone)"

section \<open>Operations of the manager\<close>

definition new_entry :: process_entry where
  "new_entry = \<lparr>entry_state = new_process_state, entry_stop = []\<rparr>"

text \<open>
  \<open>spawned\<close> is what the operating system answers to the spawn: an error, or the child's
  identifier (absent when the child has already been reaped).
\<close>

definition start_authorized ::
  "process_manager \<Rightarrow> authority_registry \<Rightarrow> instant \<Rightarrow> authority_guard \<Rightarrow>
   io_error + nat option \<Rightarrow> uuid \<Rightarrow> process_error + (process_manager \<times> uuid)" where
  "start_authorized m reg now authority spawned process_id =
     (case ensure_valid reg now authority of
        Inl e \<Rightarrow> Inl (ProcessAuthority (authority_error_to_string e))
      | Inr _ \<Rightarrow>
          if Mapping.size (pm_entries m) \<ge> pm_max_retained_processes m then
            Inl (Capacity (pm_max_retained_processes m))
          else case spawned of
            Inl e \<Rightarrow> Inl (Start e)
          | Inr _ \<Rightarrow>
              Inr (m\<lparr>pm_entries := Mapping.update process_id new_entry (pm_entries m)\<rparr>, process_id))"

definition start ::
  "process_manager \<Rightarrow> authority_registry \<Rightarrow> instant \<Rightarrow> io_error + nat option \<Rightarrow> uuid \<Rightarrow>
   process_error + (process_manager \<times> uuid)" where
  "start m reg now spawned process_id = start_authorized m reg now unmanaged spawned process_id"

definition poll :: "process_manager \<Rightarrow> uuid \<Rightarrow> u64 \<Rightarrow> process_error + process_poll" where
  "poll m process_id after_sequence =
     (case Mapping.lookup (pm_entries m) process_id of
        None \<Rightarrow> Inl (Unknown process_id)
      | Some entry \<Rightarrow> Inr (poll_state (entry_state entry) after_sequence))"

text \<open>
  The first half of \<open>stop\<close>: \<open>try_send\<close> on a channel of capacity one.  A full channel
  keeps the message it has.  The receiver lives as long as the entry does, so the
  \<open>Closed\<close> arm, which only yields, changes nothing here.
\<close>

definition stop_send :: "process_manager \<Rightarrow> uuid \<Rightarrow> process_error + process_manager" where
  "stop_send m process_id =
     (case Mapping.lookup (pm_entries m) process_id of
        None \<Rightarrow> Inl (Unknown process_id)
      | Some entry \<Rightarrow>
          if status (entry_state entry) = Running \<and> entry_stop entry = [] then
            Inr (m\<lparr>pm_entries := Mapping.update process_id
                    (entry\<lparr>entry_stop := [ReasonStopped]\<rparr>) (pm_entries m)\<rparr>)
          else Inr m)"

text \<open>
  \<open>wait_until_terminal\<close> polls the manager as it is at successive moments; \<open>None\<close> means
  that it is still waiting after the moments given.
\<close>

fun wait_until_terminal ::
  "process_manager list \<Rightarrow> uuid \<Rightarrow> u64 \<Rightarrow> (process_error + process_poll) option" where
  "wait_until_terminal [] process_id after_sequence = None"
| "wait_until_terminal (m # ms) process_id after_sequence =
     (case poll m process_id after_sequence of
        Inl e \<Rightarrow> Some (Inl e)
      | Inr p \<Rightarrow>
          if poll_status p \<noteq> Running then Some (Inr p)
          else wait_until_terminal ms process_id after_sequence)"

section \<open>Process groups\<close>

datatype signal = SIGTERM | SIGKILL

datatype group_action =
    KillGroup nat signal
  | WaitChild
  | WaitChildFor nat
  | Sleep nat

text \<open>\<open>waited\<close> says whether the child was reaped within the 100 milliseconds of grace.\<close>

fun terminate_process_group :: "nat option \<Rightarrow> bool \<Rightarrow> group_action list" where
  "terminate_process_group None waited = [WaitChild]"
| "terminate_process_group (Some pgid) waited =
     [KillGroup pgid SIGTERM, WaitChildFor 100, KillGroup pgid SIGKILL] @
     (if waited then [] else [WaitChild])"

fun cleanup_process_group :: "nat option \<Rightarrow> group_action list" where
  "cleanup_process_group None = []"
| "cleanup_process_group (Some pgid) =
     [KillGroup pgid SIGTERM, Sleep 100, KillGroup pgid SIGKILL]"

text \<open>The guard of a process group: what its \<open>drop\<close> does.\<close>

fun drop_process_group_guard :: "nat option \<Rightarrow> group_action list" where
  "drop_process_group_guard None = []"
| "drop_process_group_guard (Some pgid) = [KillGroup pgid SIGKILL]"

section \<open>The supervisor\<close>

datatype supervisor_outcome =
    OutcomeExited "io_error + 32 word option"
  | OutcomeStopped stop_reason

text \<open>
  The biased \<open>select!\<close>: the first ready branch in source order wins.  \<open>child\<close> is the
  result of the wait if the child has exited; \<open>stop\<close> is what the channel delivers.  With
  a zero timeout the last branch does not exist.
\<close>

definition supervisor_select ::
  "bool \<Rightarrow> (io_error + 32 word option) option \<Rightarrow> stop_reason option option \<Rightarrow> bool \<Rightarrow> bool \<Rightarrow>
   supervisor_outcome option" where
  "supervisor_select timeout_is_zero child stop authority_invalid timer_elapsed =
     (case child of
        Some exit \<Rightarrow> Some (OutcomeExited exit)
      | None \<Rightarrow>
          (case stop of
             Some reason \<Rightarrow>
               Some (OutcomeStopped (case reason of Some r \<Rightarrow> r | None \<Rightarrow> ReasonStopped))
           | None \<Rightarrow>
               if authority_invalid then Some (OutcomeStopped ReasonAuthorityLost)
               else if \<not> timeout_is_zero \<and> timer_elapsed then Some (OutcomeStopped ReasonTimedOut)
               else None))"

fun outcome_status :: "supervisor_outcome \<Rightarrow> process_status" where
  "outcome_status (OutcomeExited (Inr code)) = Exited code"
| "outcome_status (OutcomeExited (Inl _)) = Exited None"
| "outcome_status (OutcomeStopped ReasonTimedOut) = TimedOut"
| "outcome_status (OutcomeStopped ReasonStopped) = Stopped"
| "outcome_status (OutcomeStopped ReasonAuthorityLost) = Stopped"

fun outcome_actions :: "supervisor_outcome \<Rightarrow> nat option \<Rightarrow> bool \<Rightarrow> group_action list" where
  "outcome_actions (OutcomeExited _) pgid waited = cleanup_process_group pgid"
| "outcome_actions (OutcomeStopped _) pgid waited = terminate_process_group pgid waited"

text \<open>\<open>finish_reader\<close>: a reader that has not finished in time is aborted, which is reported.\<close>

definition finish_reader :: "reader \<Rightarrow> reader \<times> bool" where
  "finish_reader rd = (rd\<lparr>rd_done := True\<rparr>, \<not> rd_done rd)"

datatype phase =
    Selecting
  | Ending supervisor_outcome
  | DrainStdout process_status
  | DrainStderr process_status bool
  | Retaining instant
  | Finished

record supervisor =
  sup_stdout :: reader
  sup_stderr :: reader
  sup_started :: instant
  sup_timeout :: nat
  sup_group :: "nat option"
  sup_guard :: "nat option"
  sup_authority :: authority_guard
  sup_phase :: phase
  sup_actions :: "group_action list"

definition new_supervisor ::
  "instant \<Rightarrow> nat \<Rightarrow> nat option \<Rightarrow> authority_guard \<Rightarrow> supervisor" where
  "new_supervisor now timeout child_id authority =
     \<lparr>sup_stdout = new_reader Stdout, sup_stderr = new_reader Stderr, sup_started = now,
      sup_timeout = timeout, sup_group = child_id, sup_guard = child_id,
      sup_authority = authority, sup_phase = Selecting, sup_actions = []\<rparr>"

text \<open>The commands of a runner, with the registry and the clock they observe.\<close>

record process_world =
  manager :: process_manager
  supervisors :: "uuid \<rightharpoonup> supervisor"
  registry :: authority_registry
  now :: instant

definition set_entry :: "uuid \<Rightarrow> process_entry \<Rightarrow> process_world \<Rightarrow> process_world" where
  "set_entry pid e w =
     w\<lparr>manager := (manager w)\<lparr>pm_entries := Mapping.update pid e (pm_entries (manager w))\<rparr>\<rparr>"

definition set_supervisor :: "uuid \<Rightarrow> supervisor \<Rightarrow> process_world \<Rightarrow> process_world" where
  "set_supervisor pid s w = w\<lparr>supervisors := (supervisors w)(pid \<mapsto> s)\<rparr>"

abbreviation entry_of :: "process_world \<Rightarrow> uuid \<Rightarrow> process_entry option" where
  "entry_of w pid \<equiv> Mapping.lookup (pm_entries (manager w)) pid"

text \<open>Starting a command registers its entry and hands its supervisor to the runtime.\<close>

definition start_world ::
  "process_world \<Rightarrow> authority_guard \<Rightarrow> nat \<Rightarrow> io_error + nat option \<Rightarrow> uuid \<Rightarrow>
   process_error + process_world" where
  "start_world w authority timeout spawned pid =
     (case start_authorized (manager w) (registry w) (now w) authority spawned pid of
        Inl e \<Rightarrow> Inl e
      | Inr (m, _) \<Rightarrow>
          Inr (set_supervisor pid
                (new_supervisor (now w) timeout (case spawned of Inr i \<Rightarrow> i | Inl _ \<Rightarrow> None) authority)
                (w\<lparr>manager := m\<rparr>)))"

text \<open>The head of \<open>supervise\<close>: the readers and the \<open>select!\<close>.\<close>

definition select_outcome ::
  "process_world \<Rightarrow> supervisor \<Rightarrow> process_entry \<Rightarrow> (io_error + 32 word option) option \<Rightarrow>
   supervisor_outcome option" where
  "select_outcome w s e child =
     supervisor_select (sup_timeout s = 0) child
       (case entry_stop e of [] \<Rightarrow> None | r # _ \<Rightarrow> Some (Some r))
       (ensure_valid (registry w) (now w) (sup_authority s) \<noteq> Inr ())
       (sup_started s + sup_timeout s \<le> now w)"

definition terminal_entry :: "process_entry \<Rightarrow> process_status \<Rightarrow> bool \<Rightarrow> process_entry" where
  "terminal_entry e st cut_off =
     e\<lparr>entry_state :=
        (entry_state e)\<lparr>
          outbuf := (outbuf (entry_state e))\<lparr>terminal_truncated :=
            terminal_truncated (outbuf (entry_state e)) \<or> cut_off\<rparr>,
          status := st\<rparr>\<rparr>"

inductive proc_step :: "process_world \<Rightarrow> process_world \<Rightarrow> bool" where
  step_time: "now w \<le> t \<Longrightarrow> proc_step w (w\<lparr>now := t\<rparr>)"
| step_lease: "proc_step w (w\<lparr>registry := apply_lease (registry w) (now w) lease\<rparr>)"
| step_start: "supervisors w pid = None \<Longrightarrow> start_world w authority timeout spawned pid = Inr w' \<Longrightarrow>
    proc_step w w'"
| step_stop: "stop_send (manager w) pid = Inr m \<Longrightarrow> proc_step w (w\<lparr>manager := m\<rparr>)"
| step_stdout: "supervisors w pid = Some s \<Longrightarrow> entry_of w pid = Some e \<Longrightarrow> \<not> rd_done (sup_stdout s) \<Longrightarrow>
    reader_step (pm_max_pending_output_bytes (manager w)) (pm_max_output_chunks (manager w))
      (entry_state e) (sup_stdout s) r = (st, rd) \<Longrightarrow>
    proc_step w (set_supervisor pid (s\<lparr>sup_stdout := rd\<rparr>) (set_entry pid (e\<lparr>entry_state := st\<rparr>) w))"
| step_stderr: "supervisors w pid = Some s \<Longrightarrow> entry_of w pid = Some e \<Longrightarrow> \<not> rd_done (sup_stderr s) \<Longrightarrow>
    reader_step (pm_max_pending_output_bytes (manager w)) (pm_max_output_chunks (manager w))
      (entry_state e) (sup_stderr s) r = (st, rd) \<Longrightarrow>
    proc_step w (set_supervisor pid (s\<lparr>sup_stderr := rd\<rparr>) (set_entry pid (e\<lparr>entry_state := st\<rparr>) w))"
| step_select: "supervisors w pid = Some s \<Longrightarrow> sup_phase s = Selecting \<Longrightarrow> entry_of w pid = Some e \<Longrightarrow>
    select_outcome w s e child = Some oc \<Longrightarrow>
    e' = (if child = None then e\<lparr>entry_stop := tl (entry_stop e)\<rparr> else e) \<Longrightarrow>
    proc_step w (set_supervisor pid (s\<lparr>sup_phase := Ending oc\<rparr>) (set_entry pid e' w))"
| step_end: "supervisors w pid = Some s \<Longrightarrow> sup_phase s = Ending oc \<Longrightarrow>
    proc_step w (set_supervisor pid
      (s\<lparr>sup_actions := sup_actions s @ outcome_actions oc (sup_group s) waited,
         sup_phase := DrainStdout (outcome_status oc)\<rparr>) w)"
| step_drain_stdout: "supervisors w pid = Some s \<Longrightarrow> sup_phase s = DrainStdout st \<Longrightarrow>
    finish_reader (sup_stdout s) = (rd, cut_off) \<Longrightarrow>
    proc_step w (set_supervisor pid (s\<lparr>sup_stdout := rd, sup_phase := DrainStderr st cut_off\<rparr>) w)"
| step_drain_stderr: "supervisors w pid = Some s \<Longrightarrow> sup_phase s = DrainStderr st cut_off \<Longrightarrow>
    entry_of w pid = Some e \<Longrightarrow> finish_reader (sup_stderr s) = (rd, cut_off') \<Longrightarrow>
    proc_step w (set_supervisor pid
      (s\<lparr>sup_stderr := rd, sup_guard := None, sup_phase := Retaining (now w + PROCESS_RETENTION)\<rparr>)
      (set_entry pid (terminal_entry e st (cut_off \<or> cut_off')) w))"
| step_expire: "supervisors w pid = Some s \<Longrightarrow> sup_phase s = Retaining t \<Longrightarrow> t \<le> now w \<Longrightarrow>
    proc_step w (set_supervisor pid (s\<lparr>sup_phase := Finished\<rparr>)
      (w\<lparr>manager := (manager w)\<lparr>pm_entries := Mapping.delete pid (pm_entries (manager w))\<rparr>\<rparr>))"

inductive proc_run :: "process_world \<Rightarrow> process_world \<Rightarrow> bool" where
  run_refl: "proc_run w w"
| run_step: "proc_run w v \<Longrightarrow> proc_step v u \<Longrightarrow> proc_run w u"

definition init_world :: "process_manager \<Rightarrow> authority_registry \<Rightarrow> instant \<Rightarrow> process_world" where
  "init_world m r t = \<lparr>manager = m, supervisors = Map.empty, registry = r, now = t\<rparr>"

section \<open>Frame facts\<close>

lemma set_simps [simp]:
  "manager (set_supervisor pid s w) = manager w"
  "supervisors (set_supervisor pid s w) = (supervisors w)(pid \<mapsto> s)"
  "registry (set_supervisor pid s w) = registry w"
  "now (set_supervisor pid s w) = now w"
  "supervisors (set_entry pid e w) = supervisors w"
  "registry (set_entry pid e w) = registry w"
  "now (set_entry pid e w) = now w"
  "pm_entries (manager (set_entry pid e w)) = Mapping.update pid e (pm_entries (manager w))"
  "pm_max_pending_output_bytes (manager (set_entry pid e w)) = pm_max_pending_output_bytes (manager w)"
  "pm_max_retained_processes (manager (set_entry pid e w)) = pm_max_retained_processes (manager w)"
  "pm_max_output_chunks (manager (set_entry pid e w)) = pm_max_output_chunks (manager w)"
  by (simp_all add: set_supervisor_def set_entry_def)

lemma reader_step_appends:
  assumes "reader_step b c st rd r = (st', rd')"
  obtains str where "st' = append_output st (rd_stream rd) str b c"
  using assms by (cases r) (auto simp: Let_def split_beta split: if_splits)

lemma outcome_kills: "KillGroup g SIGKILL \<in> set (outcome_actions oc (Some g) waited)"
  by (cases oc) simp_all

lemma outcome_not_running: "outcome_status oc \<noteq> Running"
  by (cases oc rule: outcome_status.cases) simp_all

lemma start_authorized_InrE:
  assumes "start_authorized m reg t g spawned pid = Inr (m', pid')"
  obtains i where "ensure_valid reg t g = Inr ()" "spawned = Inr i" "pid' = pid"
    "Mapping.size (pm_entries m) < pm_max_retained_processes m"
    "m' = m\<lparr>pm_entries := Mapping.update pid new_entry (pm_entries m)\<rparr>"
  using assms
  by (auto simp: start_authorized_def not_le split: sum.splits if_splits)

lemma start_world_InrE:
  assumes "start_world w g timeout spawned pid = Inr w'"
  obtains i where "ensure_valid (registry w) (now w) g = Inr ()" "spawned = Inr i"
    "Mapping.size (pm_entries (manager w)) < pm_max_retained_processes (manager w)"
    "w' = set_supervisor pid (new_supervisor (now w) timeout i g) (set_entry pid new_entry w)"
  using assms
  by (auto simp: start_world_def set_entry_def split: sum.splits prod.splits
      elim!: start_authorized_InrE)

lemma stop_send_InrE:
  assumes "stop_send m pid = Inr m'"
  obtains "m' = m"
  | e where "Mapping.lookup (pm_entries m) pid = Some e" "status (entry_state e) = Running"
      "m' = m\<lparr>pm_entries := Mapping.update pid (e\<lparr>entry_stop := [ReasonStopped]\<rparr>) (pm_entries m)\<rparr>"
  using assms by (auto simp: stop_send_def split: option.splits if_splits)

section \<open>The invariant of the process table\<close>

text \<open>
  One supervisor against the entry it shares.  Before its terminal phase the status is
  \<open>Running\<close> and the group guard is armed; once the outcome is acted on, the group has
  received \<open>SIGKILL\<close>; once the status is terminal, no reader is left to append.
\<close>

definition killed :: "supervisor \<Rightarrow> bool" where
  "killed s \<longleftrightarrow> (\<forall>g. sup_group s = Some g \<longrightarrow> KillGroup g SIGKILL \<in> set (sup_actions s))"

definition running_entry :: "process_entry option \<Rightarrow> bool" where
  "running_entry eo \<longleftrightarrow> (\<exists>e. eo = Some e \<and> status (entry_state e) = Running)"

definition sup_inv :: "supervisor \<Rightarrow> process_entry option \<Rightarrow> bool" where
  "sup_inv s eo =
     (case sup_phase s of
        Selecting \<Rightarrow> running_entry eo \<and> sup_guard s = sup_group s
      | Ending _ \<Rightarrow> running_entry eo \<and> sup_guard s = sup_group s
      | DrainStdout st \<Rightarrow> running_entry eo \<and> sup_guard s = sup_group s \<and> killed s \<and> st \<noteq> Running
      | DrainStderr st _ \<Rightarrow> running_entry eo \<and> sup_guard s = sup_group s \<and> killed s \<and> st \<noteq> Running \<and>
          rd_done (sup_stdout s)
      | Retaining _ \<Rightarrow> (\<exists>e. eo = Some e \<and> status (entry_state e) \<noteq> Running) \<and> killed s \<and>
          rd_done (sup_stdout s) \<and> rd_done (sup_stderr s)
      | Finished \<Rightarrow> eo = None \<and> killed s \<and> rd_done (sup_stdout s) \<and> rd_done (sup_stderr s))"

definition entry_ok :: "process_manager \<Rightarrow> process_entry \<Rightarrow> bool" where
  "entry_ok m e \<longleftrightarrow>
     within (pm_max_pending_output_bytes m) (pm_max_output_chunks m) (outbuf (entry_state e)) \<and>
     length (entry_stop e) \<le> 1"

fun linked_at :: "supervisor option \<Rightarrow> process_entry option \<Rightarrow> bool" where
  "linked_at None eo \<longleftrightarrow> eo = None"
| "linked_at (Some s) eo \<longleftrightarrow> sup_inv s eo"

definition linked :: "process_world \<Rightarrow> bool" where
  "linked w \<longleftrightarrow> (\<forall>pid. linked_at (supervisors w pid) (entry_of w pid))"

definition bounded_table :: "process_world \<Rightarrow> bool" where
  "bounded_table w \<longleftrightarrow>
     0 < pm_max_output_chunks (manager w) \<and>
     finite (Mapping.keys (pm_entries (manager w))) \<and>
     Mapping.size (pm_entries (manager w)) \<le> pm_max_retained_processes (manager w) \<and>
     (\<forall>pid e. entry_of w pid = Some e \<longrightarrow> entry_ok (manager w) e)"

lemma linkedD: "linked w \<Longrightarrow> supervisors w pid = Some s \<Longrightarrow> sup_inv s (entry_of w pid)"
  by (metis linked_def linked_at.simps(2))

lemma linked_entry:
  assumes "linked w" "entry_of w pid = Some e"
  obtains s where "supervisors w pid = Some s" "sup_inv s (Some e)"
  using assms by (metis linked_def linked_at.simps option.exhaust option.distinct(1))

text \<open>A step that touches one command keeps the link if it keeps that command's part.\<close>

lemma linked_set:
  assumes "linked w" "sup_inv s (Some e)"
  shows "linked (set_supervisor pid s (set_entry pid e w))"
  using assms by (simp add: linked_def lookup_update')

lemma linked_set_supervisor:
  assumes "linked w" "sup_inv s (entry_of w pid)"
  shows "linked (set_supervisor pid s w)"
  using assms by (simp add: linked_def)

lemma reader_keeps_running:
  assumes "reader_step b c (entry_state e) rd r = (st, rd')"
  shows "status st = status (entry_state e)"
  using assms by (elim reader_step_appends) simp

lemma linked_step [invariant_intros]: "proc_step w v \<Longrightarrow> linked w \<Longrightarrow> linked v"
proof (induction rule: proc_step.induct)
  case (step_start w pid authority timeout spawned w')
  from step_start(2) show ?case
  proof (cases rule: start_world_InrE)
    case (1 i)
    have "sup_inv (new_supervisor (now w) timeout i authority) (Some new_entry)"
      by (simp add: sup_inv_def new_supervisor_def new_entry_def running_entry_def new_process_state_def)
    with step_start.prems 1(4) show ?thesis by (simp add: linked_set)
  qed
next
  case (step_stop w pid m)
  show ?case
  proof (rule stop_send_InrE [OF step_stop(1)])
    fix e
    assume e: "entry_of w pid = Some e" "status (entry_state e) = Running"
      "m = (manager w)\<lparr>pm_entries := Mapping.update pid (e\<lparr>entry_stop := [ReasonStopped]\<rparr>)
             (pm_entries (manager w))\<rparr>"
    obtain s where s: "supervisors w pid = Some s" "sup_inv s (Some e)"
      using linked_entry [OF step_stop(2) e(1)] .
    then have "sup_inv s (Some (e\<lparr>entry_stop := [ReasonStopped]\<rparr>))"
      by (auto simp: sup_inv_def running_entry_def split: phase.splits)
    then show ?thesis using step_stop(2) e s(1) by (simp add: linked_def lookup_update')
  qed (use step_stop in simp)
next
  case (step_stdout w pid s e r st rd)
  then have "sup_inv s (Some e)" using linkedD by fastforce
  with step_stdout have "sup_inv (s\<lparr>sup_stdout := rd\<rparr>) (Some (e\<lparr>entry_state := st\<rparr>))"
    using reader_keeps_running [OF step_stdout(4)]
    by (auto simp: sup_inv_def running_entry_def killed_def split: phase.splits)
  with step_stdout show ?case by (simp add: linked_set)
next
  case (step_stderr w pid s e r st rd)
  then have "sup_inv s (Some e)" using linkedD by fastforce
  with step_stderr have "sup_inv (s\<lparr>sup_stderr := rd\<rparr>) (Some (e\<lparr>entry_state := st\<rparr>))"
    using reader_keeps_running [OF step_stderr(4)]
    by (auto simp: sup_inv_def running_entry_def killed_def split: phase.splits)
  with step_stderr show ?case by (simp add: linked_set)
next
  case (step_select w pid s e child oc e')
  then have "sup_inv s (Some e)" using linkedD by fastforce
  with step_select have "sup_inv (s\<lparr>sup_phase := Ending oc\<rparr>) (Some e')"
    by (auto simp: sup_inv_def running_entry_def)
  with step_select show ?case by (simp add: linked_set)
next
  case (step_end w pid s oc waited)
  then have "sup_inv s (entry_of w pid)" using linkedD by fastforce
  with step_end show ?case
    by (intro linked_set_supervisor)
       (auto simp: sup_inv_def killed_def outcome_kills outcome_not_running)
next
  case (step_drain_stdout w pid s st rd cut_off)
  then have "sup_inv s (entry_of w pid)" using linkedD by fastforce
  with step_drain_stdout show ?case
    by (intro linked_set_supervisor) (auto simp: sup_inv_def killed_def finish_reader_def)
next
  case (step_drain_stderr w pid s st cut_off e rd cut_off')
  then have "sup_inv s (Some e)" using linkedD by fastforce
  with step_drain_stderr show ?case
    by (intro linked_set)
       (auto simp: sup_inv_def killed_def finish_reader_def terminal_entry_def)
next
  case (step_expire w pid s t)
  then have "sup_inv s (entry_of w pid)" using linkedD by fastforce
  with step_expire show ?case
    by (simp add: linked_def sup_inv_def killed_def lookup_delete')
qed (auto simp: linked_def)

lemma bounded_update:
  assumes "bounded_table w" "entry_of w pid = Some e0" "entry_ok (manager w) e"
  shows "bounded_table (set_supervisor pid s (set_entry pid e w))"
  using assms
  by (auto simp: bounded_table_def entry_ok_def lookup_update' size_update keys_dom_lookup
      split: if_splits)

lemma bounded_supervisor: "bounded_table (set_supervisor pid s w) = bounded_table w"
  by (simp add: bounded_table_def)

lemma reader_entry_ok:
  assumes "bounded_table w" "entry_of w pid = Some e"
    "reader_step (pm_max_pending_output_bytes (manager w)) (pm_max_output_chunks (manager w))
       (entry_state e) rd r = (st, rd')"
  shows "entry_ok (manager w) (e\<lparr>entry_state := st\<rparr>)"
  using assms(3)
proof (rule reader_step_appends)
  fix str
  assume "st = append_output (entry_state e) (rd_stream rd) str
    (pm_max_pending_output_bytes (manager w)) (pm_max_output_chunks (manager w))"
  then show ?thesis using assms(1,2)
    by (auto simp: bounded_table_def entry_ok_def append_output_within)
qed

lemma bounded_step [invariant_intros]: "proc_step w v \<Longrightarrow> bounded_table w \<Longrightarrow> bounded_table v"
proof (induction rule: proc_step.induct)
  case (step_start w pid authority timeout spawned w')
  from step_start(2) show ?case
  proof (cases rule: start_world_InrE)
    case (1 i)
    have "entry_ok (manager w) new_entry"
      by (simp add: entry_ok_def new_entry_def new_process_state_facts)
    then show ?thesis using step_start.prems 1
      by (auto simp: bounded_table_def entry_ok_def lookup_update' size_update split: if_splits)
  qed
next
  case (step_stop w pid m)
  then show ?case
    by (auto simp: bounded_table_def stop_send_def entry_ok_def lookup_update' size_update
        keys_dom_lookup split: option.splits if_splits)
next
  case (step_stdout w pid s e r st rd)
  then show ?case by (intro bounded_update [of w pid e] reader_entry_ok)
next
  case (step_stderr w pid s e r st rd)
  then show ?case by (intro bounded_update [of w pid e] reader_entry_ok)
next
  case (step_select w pid s e child oc e')
  then have "entry_ok (manager w) e" by (auto simp: bounded_table_def)
  then have "entry_ok (manager w) e'" using step_select(5) by (auto simp: entry_ok_def)
  with step_select show ?case by (intro bounded_update [of w pid e])
next
  case (step_drain_stderr w pid s st cut_off e rd cut_off')
  then have "entry_ok (manager w) e" by (auto simp: bounded_table_def)
  then have "entry_ok (manager w) (terminal_entry e st (cut_off \<or> cut_off'))"
    by (simp add: entry_ok_def terminal_entry_def within_def counted_def)
  with step_drain_stderr show ?case by (intro bounded_update [of w pid e])
next
  case (step_expire w pid s t)
  then show ?case
    by (auto simp: bounded_table_def size_delete lookup_delete' entry_ok_def keys_delete split: if_splits)
qed (auto simp: bounded_table_def bounded_supervisor entry_ok_def)

lemma proc_run_inv:
  "proc_run w v \<Longrightarrow> linked w \<and> bounded_table w \<Longrightarrow> linked v \<and> bounded_table v"
  by (induction rule: proc_run.induct) (auto intro: invariant_intros)

lemma init_world_inv:
  "0 < chunk_limit \<Longrightarrow>
   linked (init_world (with_limits b p chunk_limit) r t) \<and>
   bounded_table (init_world (with_limits b p chunk_limit) r t)"
  by (simp add: linked_def bounded_table_def init_world_def with_limits_def)

section \<open>When a command times out\<close>

text \<open>
  A command reports \<open>TimedOut\<close> only for a timer that exists and has elapsed: no other
  branch of the \<open>select!\<close>, and no message of the stop channel, yields it.
\<close>

definition timer_fired :: "process_world \<Rightarrow> supervisor \<Rightarrow> bool" where
  "timer_fired w s \<longleftrightarrow> sup_timeout s \<noteq> 0 \<and> sup_started s + sup_timeout s \<le> now w"

fun phase_status :: "phase \<Rightarrow> process_status" where
  "phase_status (Ending oc) = outcome_status oc"
| "phase_status (DrainStdout st) = st"
| "phase_status (DrainStderr st _) = st"
| "phase_status _ = Running"

definition timed_at :: "process_world \<Rightarrow> supervisor \<Rightarrow> process_entry \<Rightarrow> bool" where
  "timed_at w s e \<longleftrightarrow> set (entry_stop e) \<subseteq> {ReasonStopped} \<and>
     (phase_status (sup_phase s) = TimedOut \<or> status (entry_state e) = TimedOut \<longrightarrow> timer_fired w s)"

definition timed :: "process_world \<Rightarrow> bool" where
  "timed w \<longleftrightarrow>
     (\<forall>pid s e. supervisors w pid = Some s \<longrightarrow> entry_of w pid = Some e \<longrightarrow> timed_at w s e)"

lemma timedD: "timed w \<Longrightarrow> supervisors w pid = Some s \<Longrightarrow> entry_of w pid = Some e \<Longrightarrow> timed_at w s e"
  by (simp add: timed_def)

lemma timed_at_frame [simp]:
  "timed_at (set_supervisor pid s' w) s e = timed_at w s e"
  "timed_at (set_entry pid e' w) s e = timed_at w s e"
  "timed_at (w\<lparr>manager := m\<rparr>) s e = timed_at w s e"
  "timed_at (w\<lparr>registry := r\<rparr>) s e = timed_at w s e"
  by (simp_all add: timed_at_def timer_fired_def)

lemma timed_set:
  "timed w \<Longrightarrow> timed_at w s e \<Longrightarrow> timed (set_supervisor pid s (set_entry pid e w))"
  by (simp add: timed_def lookup_update')

lemma timed_set_supervisor:
  "timed w \<Longrightarrow> (\<And>e. entry_of w pid = Some e \<Longrightarrow> timed_at w s e) \<Longrightarrow> timed (set_supervisor pid s w)"
  by (simp add: timed_def)

lemma select_timed_out:
  assumes "select_outcome w s e child = Some oc" "outcome_status oc = TimedOut"
    and "set (entry_stop e) \<subseteq> {ReasonStopped}"
  shows "timer_fired w s"
  using assms
  by (auto simp: select_outcome_def supervisor_select_def timer_fired_def
      split: option.splits list.splits if_splits sum.splits stop_reason.splits
      elim!: outcome_status.elims)

lemma timed_step [invariant_intros]: "proc_step w v \<Longrightarrow> timed w \<Longrightarrow> timed v"
proof (induction rule: proc_step.induct)
  case (step_time w t)
  then show ?case by (fastforce simp: timed_def timed_at_def timer_fired_def)
next
  case (step_start w pid authority timeout spawned w')
  from step_start(2) show ?case
  proof (cases rule: start_world_InrE)
    case (1 i)
    have "timed_at w (new_supervisor (now w) timeout i authority) new_entry"
      by (simp add: timed_at_def new_supervisor_def new_entry_def new_process_state_def)
    with step_start.prems 1(4) show ?thesis by (simp add: timed_set)
  qed
next
  case (step_stop w pid m)
  show ?case
  proof (rule stop_send_InrE [OF step_stop(1)])
    fix e
    assume e: "entry_of w pid = Some e"
      "m = (manager w)\<lparr>pm_entries := Mapping.update pid (e\<lparr>entry_stop := [ReasonStopped]\<rparr>)
             (pm_entries (manager w))\<rparr>"
    have "timed_at w s (e\<lparr>entry_stop := [ReasonStopped]\<rparr>)" if "supervisors w pid = Some s" for s
      using timedD [OF step_stop(2) that e(1)] by (simp add: timed_at_def)
    then show ?thesis using step_stop(2) e by (simp add: timed_def lookup_update')
  qed (use step_stop in simp)
next
  case (step_stdout w pid s e r st rd)
  then have "timed_at w (s\<lparr>sup_stdout := rd\<rparr>) (e\<lparr>entry_state := st\<rparr>)"
    using timedD [of w pid s e] reader_keeps_running [OF step_stdout(4)]
    by (simp add: timed_at_def timer_fired_def)
  with step_stdout show ?case by (simp add: timed_set)
next
  case (step_stderr w pid s e r st rd)
  then have "timed_at w (s\<lparr>sup_stderr := rd\<rparr>) (e\<lparr>entry_state := st\<rparr>)"
    using timedD [of w pid s e] reader_keeps_running [OF step_stderr(4)]
    by (simp add: timed_at_def timer_fired_def)
  with step_stderr show ?case by (simp add: timed_set)
next
  case (step_select w pid s e child oc e')
  then have e: "timed_at w s e" using timedD by blast
  then have "set (entry_stop e') \<subseteq> {ReasonStopped}"
    using step_select(5) by (cases "entry_stop e") (auto simp: timed_at_def)
  moreover have "outcome_status oc = TimedOut \<Longrightarrow> timer_fired w s"
    using select_timed_out [OF step_select(4)] e by (simp add: timed_at_def)
  ultimately have "timed_at w (s\<lparr>sup_phase := Ending oc\<rparr>) e'"
    using e step_select(5) by (auto simp: timed_at_def timer_fired_def)
  with step_select show ?case by (simp add: timed_set)
next
  case (step_end w pid s oc waited)
  then show ?case
    by (intro timed_set_supervisor) (auto dest!: timedD simp: timed_at_def timer_fired_def)
next
  case (step_drain_stdout w pid s st rd cut_off)
  then show ?case
    by (intro timed_set_supervisor) (auto dest!: timedD simp: timed_at_def timer_fired_def)
next
  case (step_drain_stderr w pid s st cut_off e rd cut_off')
  then show ?case
    by (intro timed_set) (auto dest!: timedD simp: timed_at_def timer_fired_def terminal_entry_def)
next
  case (step_expire w pid s t)
  then show ?case by (simp add: timed_def lookup_delete')
qed (auto simp: timed_def)

lemma timed_run: "proc_run w v \<Longrightarrow> timed w \<Longrightarrow> timed v"
  by (induction rule: proc_run.induct) (auto intro: timed_step)

section \<open>Terminal entries are stable\<close>

text \<open>
  Once a command is terminal its entry keeps its status and output until it is removed:
  its supervisor is retaining it and both readers have ended.
\<close>

lemma terminal_phase:
  assumes "linked w" "entry_of w pid = Some e" "status (entry_state e) \<noteq> Running"
  obtains s t where "supervisors w pid = Some s" "sup_phase s = Retaining t" "killed s"
    "rd_done (sup_stdout s)" "rd_done (sup_stderr s)"
proof -
  obtain s where "supervisors w pid = Some s" "sup_inv s (Some e)"
    using linked_entry [OF assms(1,2)] .
  with assms(3) that show ?thesis
    by (auto simp: sup_inv_def running_entry_def split: phase.splits)
qed

definition same_terminal :: "process_state \<Rightarrow> process_world \<Rightarrow> uuid \<Rightarrow> bool" where
  "same_terminal st w pid \<longleftrightarrow>
     (case supervisors w pid of None \<Rightarrow> False
      | Some s \<Rightarrow> sup_phase s = Finished \<or>
          (\<exists>t. sup_phase s = Retaining t \<and> rd_done (sup_stdout s) \<and> rd_done (sup_stderr s)) \<and>
          (\<exists>e. entry_of w pid = Some e \<and> entry_state e = st))"

lemma same_terminal_step:
  "proc_step w v \<Longrightarrow> status st \<noteq> Running \<Longrightarrow> same_terminal st w pid \<Longrightarrow> same_terminal st v pid"
proof (induction rule: proc_step.induct)
  case (step_start w pid' authority timeout spawned w')
  from step_start(2) show ?case
    by (rule start_world_InrE)
       (use step_start in \<open>auto simp: same_terminal_def lookup_update' split: option.splits\<close>)
next
  case (step_stop w pid' m)
  show ?case
    by (rule stop_send_InrE [OF step_stop(1)])
       (use step_stop in \<open>auto simp: same_terminal_def lookup_update' split: option.splits\<close>)
qed (auto simp: same_terminal_def lookup_update' lookup_delete' finish_reader_def split: option.splits)

lemma same_terminal_run:
  "proc_run w v \<Longrightarrow> status st \<noteq> Running \<Longrightarrow> same_terminal st w pid \<Longrightarrow> same_terminal st v pid"
  by (induction rule: proc_run.induct) (auto intro: same_terminal_step)

section \<open>A supervisor with an outcome reaches its terminal state\<close>

lemma proc_run_trans: "proc_run v u \<Longrightarrow> proc_run w v \<Longrightarrow> proc_run w u"
  by (induction rule: proc_run.induct) (auto intro: run_step)

lemma proc_run_single: "proc_step w v \<Longrightarrow> proc_run w v"
  by (rule run_step [OF run_refl])

definition reaches :: "process_world \<Rightarrow> uuid \<Rightarrow> process_status \<Rightarrow> bool" where
  "reaches w pid st \<longleftrightarrow>
     (\<exists>v e. proc_run w v \<and> entry_of v pid = Some e \<and> status (entry_state e) = st)"

lemma reaches_step: "proc_step w v \<Longrightarrow> reaches v pid st \<Longrightarrow> reaches w pid st"
  unfolding reaches_def using proc_run_trans proc_run_single by blast

lemma drain_stderr_reaches:
  assumes "supervisors w pid = Some s" "sup_phase s = DrainStderr st c" "entry_of w pid = Some e"
  shows "reaches w pid st"
proof -
  obtain rd c' where f: "finish_reader (sup_stderr s) = (rd, c')" by fastforce
  have "proc_run w (set_supervisor pid
      (s\<lparr>sup_stderr := rd, sup_guard := None, sup_phase := Retaining (now w + PROCESS_RETENTION)\<rparr>)
      (set_entry pid (terminal_entry e st (c \<or> c')) w))" (is "proc_run w ?v")
    by (rule proc_run_single [OF step_drain_stderr [OF assms f]])
  moreover have "entry_of ?v pid = Some (terminal_entry e st (c \<or> c'))"
    by (simp add: lookup_update')
  moreover have "status (entry_state (terminal_entry e st (c \<or> c'))) = st"
    by (simp add: terminal_entry_def)
  ultimately show ?thesis unfolding reaches_def by blast
qed

lemma drain_stdout_reaches:
  assumes "supervisors w pid = Some s" "sup_phase s = DrainStdout st" "entry_of w pid = Some e"
  shows "reaches w pid st"
proof -
  obtain rd c where f: "finish_reader (sup_stdout s) = (rd, c)" by fastforce
  show ?thesis
    by (rule reaches_step [OF step_drain_stdout [OF assms(1,2) f]],
        rule drain_stderr_reaches [where s = "s\<lparr>sup_stdout := rd, sup_phase := DrainStderr st c\<rparr>" and c = c])
       (use assms in simp_all)
qed

lemma ending_reaches:
  assumes "supervisors w pid = Some s" "sup_phase s = Ending oc" "entry_of w pid = Some e"
  shows "reaches w pid (outcome_status oc)"
proof -
  let ?s = "s\<lparr>sup_actions := sup_actions s @ outcome_actions oc (sup_group s) True,
    sup_phase := DrainStdout (outcome_status oc)\<rparr>"
  have "reaches (set_supervisor pid ?s w) pid (outcome_status oc)"
    by (rule drain_stdout_reaches [where s = ?s]) (use assms in simp_all)
  then show ?thesis by (rule reaches_step [OF step_end [OF assms(1,2)]])
qed

lemma select_reaches:
  assumes "supervisors w pid = Some s" "sup_phase s = Selecting" "entry_of w pid = Some e"
    "select_outcome w s e child = Some oc"
  shows "reaches w pid (outcome_status oc)"
  by (rule reaches_step [OF step_select [OF assms(1-4) HOL.refl]],
      rule ending_reaches [where s = "s\<lparr>sup_phase := Ending oc\<rparr>"])
     (simp_all add: lookup_update')

section \<open>Waiting for a terminal status\<close>

lemma wait_until_terminal_sound:
  assumes "wait_until_terminal ms pid a = Some r"
  shows "\<exists>m \<in> set ms. poll m pid a = r \<and> (\<forall>p. r = Inr p \<longrightarrow> poll_status p \<noteq> Running)"
  using assms by (induction ms) (auto split: sum.splits if_splits)

lemma wait_until_terminal_returns:
  assumes "m \<in> set ms" "\<And>p. poll m pid a = Inr p \<Longrightarrow> poll_status p \<noteq> Running"
  shows "\<exists>r. wait_until_terminal ms pid a = Some r"
  using assms by (induction ms) (auto split: sum.splits)

section \<open>Properties\<close>

lemma proc_step_limits: "proc_step w v \<Longrightarrow>
    pm_max_retained_processes (manager v) = pm_max_retained_processes (manager w) \<and>
    pm_max_pending_output_bytes (manager v) = pm_max_pending_output_bytes (manager w) \<and>
    pm_max_output_chunks (manager v) = pm_max_output_chunks (manager w)"
  by (induction rule: proc_step.induct) (auto elim!: start_world_InrE stop_send_InrE)

lemma proc_run_limits: "proc_run w v \<Longrightarrow>
    pm_max_retained_processes (manager v) = pm_max_retained_processes (manager w) \<and>
    pm_max_pending_output_bytes (manager v) = pm_max_pending_output_bytes (manager w) \<and>
    pm_max_output_chunks (manager v) = pm_max_output_chunks (manager w)"
  by (induction rule: proc_run.induct) (auto dest: proc_step_limits)

text \<open>The worlds a manager with given limits can reach.\<close>

definition reachable :: "usize \<Rightarrow> usize \<Rightarrow> usize \<Rightarrow> process_world \<Rightarrow> bool" where
  "reachable b p c w \<longleftrightarrow> 0 < c \<and> (\<exists>r t. proc_run (init_world (with_limits b p c) r t) w)"

lemma reachable_inv:
  assumes "reachable b p c w"
  shows "linked w" "bounded_table w" "timed w" "pm_max_retained_processes (manager w) = p"
    "pm_max_pending_output_bytes (manager w) = b" "pm_max_output_chunks (manager w) = c"
proof -
  obtain r t where c: "0 < c" and run: "proc_run (init_world (with_limits b p c) r t) w"
    using assms unfolding reachable_def by blast
  show "linked w" "bounded_table w"
    using proc_run_inv [OF run init_world_inv [OF c]] by simp_all
  show "timed w"
    by (rule timed_run [OF run]) (simp add: timed_def init_world_def)
  show "pm_max_retained_processes (manager w) = p"
    "pm_max_pending_output_bytes (manager w) = b" "pm_max_output_chunks (manager w) = c"
    using proc_run_limits [OF run] by (simp_all add: init_world_def with_limits_def)
qed

lemma reachable_run: "reachable b p c w \<Longrightarrow> proc_run w v \<Longrightarrow> reachable b p c v"
  unfolding reachable_def using proc_run_trans by blast

text \<open>A command in group 42, started under no lease and without a timeout.\<close>

definition demo_start :: process_world where
  "demo_start = init_world (with_limits 10 1 2) Map.empty 0"

definition demo_running :: process_world where
  "demo_running = set_supervisor 7 (new_supervisor 0 0 (Some 42) unmanaged) (set_entry 7 new_entry demo_start)"

definition demo_stopping :: process_world where
  "demo_stopping = set_supervisor 7 (new_supervisor 0 0 (Some 42) unmanaged)
     (set_entry 7 (new_entry\<lparr>entry_stop := [ReasonStopped]\<rparr>) demo_running)"

lemma demo_running_reachable: "reachable 10 1 2 demo_running"
proof -
  have "start_world demo_start unmanaged 0 (Inr (Some 42)) 7 = Inr demo_running"
    by (simp add: start_world_def start_authorized_def demo_running_def set_entry_def demo_start_def
        init_world_def with_limits_def)
  then have "proc_step demo_start demo_running"
    by (rule step_start [rotated]) (simp add: demo_start_def init_world_def)
  then show ?thesis unfolding reachable_def demo_start_def
    by (auto dest!: proc_run_single)
qed

text \<open>A command under a lease that expires at one millisecond, with a timeout of five
  nanoseconds.\<close>

definition demo_leased :: process_world where
  "demo_leased = set_supervisor 7 (new_supervisor 0 5 (Some 42) demo_guard)
     (set_entry 7 new_entry (init_world (with_limits 10 1 2) demo_registry 0))"

lemma demo_leased_reachable: "reachable 10 1 2 (demo_leased\<lparr>now := t\<rparr>)"
proof -
  let ?w = "init_world (with_limits 10 1 2) demo_registry 0"
  have "start_world ?w demo_guard 5 (Inr (Some 42)) 7 = Inr demo_leased"
    by (simp add: start_world_def start_authorized_def demo_leased_def set_entry_def
        init_world_def with_limits_def ensure_valid_def demo_guard_def demo_registry_def state_matches_def)
  then have "proc_step ?w demo_leased"
    by (rule step_start [rotated]) (simp add: init_world_def)
  moreover have "proc_step demo_leased (demo_leased\<lparr>now := t\<rparr>)"
    by (rule step_time) (simp add: demo_leased_def init_world_def)
  ultimately have "proc_run ?w (demo_leased\<lparr>now := t\<rparr>)"
    by (meson proc_run_single run_step)
  then show ?thesis unfolding reachable_def by auto
qed

lemma demo_leased_facts:
  "supervisors demo_leased 7 = Some (new_supervisor 0 5 (Some 42) demo_guard)"
  "registry demo_leased = demo_registry" "entry_of demo_leased 7 = Some new_entry"
  by (simp_all add: demo_leased_def init_world_def lookup_update)

lemma demo_stop: "stop_send (manager demo_running) 7 = Inr (manager demo_stopping)"
  by (simp add: stop_send_def demo_stopping_def demo_running_def set_entry_def new_entry_def
      new_process_state_def lookup_update)

lemma demo_stopping_step: "proc_step demo_running demo_stopping"
proof -
  have "demo_running\<lparr>manager := manager demo_stopping\<rparr> = demo_stopping"
    by (simp add: demo_stopping_def demo_running_def set_supervisor_def set_entry_def)
  then show ?thesis using step_stop [OF demo_stop] by simp
qed

lemma demo_stopping_facts:
  "supervisors demo_stopping 7 = Some (new_supervisor 0 0 (Some 42) unmanaged)"
  "entry_of demo_stopping 7 = Some (new_entry\<lparr>entry_stop := [ReasonStopped]\<rparr>)"
  by (simp_all add: demo_stopping_def lookup_update)

lemma demo_stopped: "reaches demo_stopping 7 Stopped"
proof -
  have "select_outcome demo_stopping (new_supervisor 0 0 (Some 42) unmanaged)
      (new_entry\<lparr>entry_stop := [ReasonStopped]\<rparr>) None = Some (OutcomeStopped ReasonStopped)"
    by (simp add: select_outcome_def supervisor_select_def)
  then show ?thesis
    using select_reaches [OF demo_stopping_facts(1) _ demo_stopping_facts(2)]
    by (fastforce simp: new_supervisor_def)
qed

lemma demo_terminal:
  obtains w e where "reachable 10 1 2 w" "entry_of w 7 = Some e" "status (entry_state e) = Stopped"
  using demo_stopped unfolding reaches_def
  by (meson demo_running_reachable demo_stopping_step proc_run_single reachable_run)

text \<open>The process table is bounded: whatever interleaving of starts, stops, reads, lease
  changes and supervisor steps has happened, a manager never retains more entries than
  \<open>max_retained_processes\<close>, and each retained output buffer is exactly counted and within
  its byte and chunk budgets.\<close>

theorem process_table_bounded:
  assumes "reachable b p c w"
  shows "Mapping.size (pm_entries (manager w)) \<le> p \<and>
    (\<forall>pid e. entry_of w pid = Some e \<longrightarrow> within b c (outbuf (entry_state e)))"
  using reachable_inv [OF assms] by (auto simp: bounded_table_def entry_ok_def)

theorem process_table_bounded_witness:
  "Mapping.size (pm_entries (manager demo_running)) \<le> 1 \<and>
   entry_of demo_running 7 = Some new_entry \<and> within 10 2 (outbuf (entry_state new_entry))"
proof -
  have "entry_of demo_running 7 = Some new_entry"
    by (simp add: demo_running_def lookup_update)
  with process_table_bounded [OF demo_running_reachable] show ?thesis by blast
qed

text \<open>C20.  No command is reported terminal while its process group may be alive: in every
  reachable state, an entry whose status is not \<open>Running\<close> belongs to a supervisor that has
  sent \<open>SIGKILL\<close> to the group it started, and whose two output readers have ended.\<close>

theorem terminal_group_killed:
  assumes "reachable b p c w" "entry_of w pid = Some e" "status (entry_state e) \<noteq> Running"
  shows "\<exists>s. supervisors w pid = Some s \<and> rd_done (sup_stdout s) \<and> rd_done (sup_stderr s) \<and>
    (\<forall>g. sup_group s = Some g \<longrightarrow> KillGroup g SIGKILL \<in> set (sup_actions s))"
  using terminal_phase [OF reachable_inv(1) [OF assms(1)] assms(2,3)]
  by (metis killed_def)

theorem terminal_group_killed_witness:
  "\<exists>w e s. reachable 10 1 2 w \<and> entry_of w 7 = Some e \<and> status (entry_state e) = Stopped \<and>
     supervisors w 7 = Some s \<and> rd_done (sup_stdout s)"
proof (rule demo_terminal)
  fix w e
  assume w: "reachable 10 1 2 w" "entry_of w 7 = Some e" "status (entry_state e) = Stopped"
  with terminal_group_killed [OF w(1,2)] show ?thesis by auto
qed

text \<open>Descendants never outlive their supervisor: as long as the reported status is
  \<open>Running\<close> the group guard is armed, so dropping the supervisor at any suspension point
  sends \<open>SIGKILL\<close> to the group.\<close>

theorem running_guard_armed:
  assumes "reachable b p c w" "entry_of w pid = Some e" "status (entry_state e) = Running"
  shows "\<exists>s. supervisors w pid = Some s \<and>
    (\<forall>g. sup_group s = Some g \<longrightarrow> drop_process_group_guard (sup_guard s) = [KillGroup g SIGKILL])"
proof -
  obtain s where "supervisors w pid = Some s" "sup_inv s (Some e)"
    using linked_entry [OF reachable_inv(1) [OF assms(1)] assms(2)] .
  with assms(3) show ?thesis
    by (intro exI [of _ s]) (auto simp: sup_inv_def split: phase.splits)
qed

theorem running_guard_armed_witness:
  "drop_process_group_guard (sup_guard (new_supervisor 0 0 (Some 42) unmanaged)) = [KillGroup 42 SIGKILL]"
proof -
  have e: "entry_of demo_running 7 = Some new_entry" "status (entry_state new_entry) = Running"
    by (simp_all add: demo_running_def lookup_update new_entry_def new_process_state_def)
  have "supervisors demo_running 7 = Some (new_supervisor 0 0 (Some 42) unmanaged)"
    "sup_group (new_supervisor 0 0 (Some 42) unmanaged) = Some 42"
    by (simp_all add: demo_running_def new_supervisor_def)
  with running_guard_armed [OF demo_running_reachable e] show ?thesis by auto
qed

text \<open>Terminal results are stable: once a command is terminal, every later poll with
  the same cursor returns exactly the same status, chunks and truncation flag, until the
  retention period ends and the identifier is unknown.\<close>

theorem terminal_poll_stable:
  assumes "reachable b p c w" "poll (manager w) pid a = Inr r" "poll_status r \<noteq> Running"
    and "proc_run w v"
  shows "poll (manager v) pid a = Inr r \<or> poll (manager v) pid a = Inl (Unknown pid)"
proof -
  obtain e where e: "entry_of w pid = Some e" "r = poll_state (entry_state e) a"
    using assms(2) by (auto simp: poll_def split: option.splits)
  then have st: "status (entry_state e) \<noteq> Running"
    using assms(3) by (simp add: poll_state_def Let_def)
  have "same_terminal (entry_state e) w pid"
    using terminal_phase [OF reachable_inv(1) [OF assms(1)] e(1) st] e(1)
    by (fastforce simp: same_terminal_def)
  then have "same_terminal (entry_state e) v pid"
    by (rule same_terminal_run [OF assms(4) st])
  moreover have "linked v"
    by (rule reachable_inv(1) [OF reachable_run [OF assms(1,4)]])
  ultimately show ?thesis using e(2) linkedD [of v pid]
    by (fastforce simp: same_terminal_def poll_def sup_inv_def split: option.splits)
qed

theorem terminal_poll_stable_witness:
  "\<exists>(w :: process_world) r. poll (manager w) 7 0 = Inr r \<and> poll_status r = Stopped \<and>
     poll (manager (w\<lparr>now := now w + 5\<rparr>)) 7 0 \<in> {Inr r, Inl (Unknown 7)}"
proof (rule demo_terminal)
  fix w e
  assume w: "reachable 10 1 2 w" "entry_of w 7 = Some e" "status (entry_state e) = Stopped"
  then have p: "poll (manager w) 7 0 = Inr (poll_state (entry_state e) 0)"
    "poll_status (poll_state (entry_state e) 0) = Stopped"
    by (simp_all add: poll_def poll_state_def Let_def)
  have "proc_run w (w\<lparr>now := now w + 5\<rparr>)"
    by (rule proc_run_single [OF step_time]) simp
  from terminal_poll_stable [OF w(1) p(1) _ this] p show ?thesis
    by (intro exI [of _ w] exI [of _ "poll_state (entry_state e) 0"]) auto
qed

text \<open>A running command can always be stopped: after \<open>stop\<close> has put its message in
  the channel, the supervisor reaches a terminal status by its own steps, with no help
  from the child, the readers or the clock; if it was still selecting, that status is
  \<open>Stopped\<close>.\<close>

theorem stop_reaches_terminal:
  assumes "reachable b p c w" "entry_of w pid = Some e" "status (entry_state e) = Running"
    and "stop_send (manager w) pid = Inr m"
  shows "\<exists>s st. supervisors w pid = Some s \<and> st \<noteq> Running \<and> reaches (w\<lparr>manager := m\<rparr>) pid st \<and>
    (sup_phase s = Selecting \<longrightarrow> st = Stopped)"
proof -
  let ?w = "w\<lparr>manager := m\<rparr>"
  note inv = reachable_inv [OF assms(1)]
  obtain s where s: "supervisors w pid = Some s" "sup_inv s (Some e)"
    using linked_entry [OF inv(1) assms(2)] .
  then have sw: "supervisors ?w pid = Some s" by simp
  have "set (entry_stop e) \<subseteq> {ReasonStopped}"
    using timedD [OF inv(3) s(1) assms(2)] by (simp add: timed_at_def)
  then obtain e' rs where e': "entry_of ?w pid = Some e'" "entry_stop e' = ReasonStopped # rs"
    using assms(2-4)
    by (cases "entry_stop e") (auto simp: stop_send_def lookup_update split: if_splits)
  have sel: "select_outcome ?w s e' None = Some (OutcomeStopped ReasonStopped)"
    using e'(2) by (simp add: select_outcome_def supervisor_select_def)
  show ?thesis
  proof (cases "sup_phase s")
    case Selecting
    with select_reaches [OF sw _ e'(1) sel] s(1) show ?thesis by auto
  next
    case (Ending oc)
    with ending_reaches [OF sw _ e'(1)] s(1) outcome_not_running show ?thesis by auto
  next
    case (DrainStdout st)
    with drain_stdout_reaches [OF sw _ e'(1)] s show ?thesis by (auto simp: sup_inv_def)
  next
    case (DrainStderr st cu)
    with drain_stderr_reaches [OF sw _ e'(1)] s show ?thesis by (auto simp: sup_inv_def)
  qed (use s assms(3) in \<open>auto simp: sup_inv_def\<close>)
qed

theorem stop_reaches_terminal_witness: "reaches demo_stopping 7 Stopped"
proof -
  have e: "entry_of demo_running 7 = Some new_entry" "status (entry_state new_entry) = Running"
    by (simp_all add: demo_running_def lookup_update new_entry_def new_process_state_def)
  have "demo_running\<lparr>manager := manager demo_stopping\<rparr> = demo_stopping"
    by (simp add: demo_stopping_def demo_running_def set_supervisor_def set_entry_def)
  moreover have "supervisors demo_running 7 = Some (new_supervisor 0 0 (Some 42) unmanaged)"
    by (simp add: demo_running_def)
  ultimately show ?thesis
    using stop_reaches_terminal [OF demo_running_reachable e demo_stop]
    by (auto simp: new_supervisor_def)
qed

text \<open>C33.  Losing the lease stops the command: when the guard of a selecting supervisor is
  no longer valid and its child has not exited, the \<open>select!\<close> has an outcome, and it is a stop
  or the loss of authority, both of which end in status \<open>Stopped\<close> with the group killed.\<close>

theorem authority_loss_stops:
  assumes "reachable b p c w" "supervisors w pid = Some s" "sup_phase s = Selecting"
    and "ensure_valid (registry w) (now w) (sup_authority s) \<noteq> Inr ()"
  shows "\<exists>e oc. entry_of w pid = Some e \<and> select_outcome w s e None = Some oc \<and>
    outcome_status oc = Stopped \<and> reaches w pid Stopped"
proof -
  note inv = reachable_inv [OF assms(1)]
  obtain e where e: "entry_of w pid = Some e"
    using linkedD [OF inv(1) assms(2)] assms(3) by (auto simp: sup_inv_def running_entry_def)
  have "set (entry_stop e) \<subseteq> {ReasonStopped}"
    using timedD [OF inv(3) assms(2) e] by (simp add: timed_at_def)
  then obtain r where r: "select_outcome w s e None = Some (OutcomeStopped r)" "r \<noteq> ReasonTimedOut"
    using assms(4) by (cases "entry_stop e") (auto simp: select_outcome_def supervisor_select_def)
  then have "outcome_status (OutcomeStopped r) = Stopped" by (cases r) simp_all
  with select_reaches [OF assms(2,3) e r(1)] e r(1) show ?thesis by auto
qed

theorem authority_loss_stops_witness: "reaches (demo_leased\<lparr>now := 1000000\<rparr>) 7 Stopped"
proof -
  let ?s = "new_supervisor 0 5 (Some 42) demo_guard"
  have "sup_phase ?s = Selecting" "ensure_valid demo_registry 1000000 (sup_authority ?s) \<noteq> Inr ()"
    by (simp_all add: new_supervisor_def ensure_valid_def demo_registry_def demo_guard_def state_matches_def)
  with authority_loss_stops [OF demo_leased_reachable [of 1000000], of 7 ?s] show ?thesis
    by (auto simp: demo_leased_facts)
qed

text \<open>\<open>TimedOut\<close> is reported only for a command with a nonzero timeout whose timer has
  elapsed: neither a stop request, nor the loss of authority, nor an exit is ever
  reported as a timeout.\<close>

theorem timed_out_only_after_timeout:
  assumes "reachable b p c w" "entry_of w pid = Some e" "status (entry_state e) = TimedOut"
  shows "\<exists>s. supervisors w pid = Some s \<and> sup_timeout s \<noteq> 0 \<and>
    sup_started s + sup_timeout s \<le> now w"
proof -
  note inv = reachable_inv [OF assms(1)]
  obtain s where s: "supervisors w pid = Some s"
    using linked_entry [OF inv(1) assms(2)] .
  then show ?thesis
    using timedD [OF inv(3) s assms(2)] assms(3) by (simp add: timed_at_def timer_fired_def)
qed

theorem timed_out_only_after_timeout_witness:
  "\<exists>w e s. entry_of w 7 = Some e \<and> status (entry_state e) = TimedOut \<and>
     supervisors w 7 = Some s \<and> sup_started s + sup_timeout s \<le> now w"
proof -
  let ?w = "demo_leased\<lparr>now := 5\<rparr>" and ?s = "new_supervisor 0 5 (Some 42) demo_guard"
  have "select_outcome ?w ?s new_entry None = Some (OutcomeStopped ReasonTimedOut)"
    by (simp add: select_outcome_def supervisor_select_def new_supervisor_def new_entry_def
        ensure_valid_def demo_registry_def demo_guard_def state_matches_def demo_leased_facts)
  then have "reaches ?w 7 TimedOut"
    using select_reaches [of ?w 7 ?s new_entry None] by (simp add: demo_leased_facts new_supervisor_def)
  then obtain w e where w: "proc_run ?w w" "entry_of w 7 = Some e" "status (entry_state e) = TimedOut"
    unfolding reaches_def by blast
  with timed_out_only_after_timeout [OF reachable_run [OF demo_leased_reachable w(1)] w(2,3)]
  show ?thesis by auto
qed

end
