(* ===== verification/Dispatcher.thy ===== *)
theory Dispatcher
  imports Protocol Authority Rust_Utf8 "HOL-Library.Mapping"
begin

text \<open>
  Bounded, idempotent tool dispatch, \<^verbatim>\<open>src/crates/kodo/src/dispatcher.rs\<close>: the response
  cache with its slots, tombstones and byte accounting, the election of one execution per
  request identifier, and the waiters.  A slot is shared by the cache, the execution and
  the waiters, so slots live in an explicit heap and are named by their index.  The
  critical sections of the code (one lock of the cache, one lock of a slot) are the steps
  of \<open>dispatch_step\<close>; requests, executions, waiters, lease renewals and the clock
  interleave freely.

  The digest and the JSON encodings are library code and enter as a \<open>wire_codec\<close>; the
  outcome of \<open>Runner::execute_authorized\<close> is an argument of the step that completes an
  execution (\<open>Inl\<close> the rendered error).
\<close>

section \<open>State\<close>

type_synonym fingerprint = "256 word"

record wire_codec =
  sha256_digest :: "bytes \<Rightarrow> fingerprint"
  request_to_vec :: "uuid option \<times> tool_request \<Rightarrow> bytes"
  response_to_string :: "response_envelope \<Rightarrow> string"

definition MAX_IN_FLIGHT_REQUESTS :: usize where
  "MAX_IN_FLIGHT_REQUESTS = 64"

record response_slot =
  slot_fingerprint :: fingerprint
  slot_response :: "string option"

type_synonym slot_heap = "response_slot list"

record response_cache =
  slots :: "(uuid, nat) mapping"
  expired :: "(uuid, fingerprint) mapping"
  order :: "(uuid \<times> usize) list"
  response_bytes :: usize

record dispatcher =
  cache :: response_cache
  slot_heap :: slot_heap
  cached_requests_limit :: usize
  cached_bytes_limit :: usize
  max_error_bytes :: usize
  authorities :: authority_registry

definition response_cache_default :: response_cache where
  "response_cache_default =
     \<lparr>slots = Mapping.empty, expired = Mapping.empty, order = [], response_bytes = 0\<rparr>"

definition new_dispatcher :: "execution_limits \<Rightarrow> dispatcher" where
  "new_dispatcher limits =
     \<lparr>cache = response_cache_default, slot_heap = [],
      cached_requests_limit = max_cached_requests limits,
      cached_bytes_limit = max_cached_response_bytes limits,
      max_error_bytes = max_output_bytes limits,
      authorities = Map.empty\<rparr>"

section \<open>Responses\<close>

definition serialize_response :: "wire_codec \<Rightarrow> response_envelope \<Rightarrow> string" where
  "serialize_response cx response = response_to_string cx response"

definition request_fingerprint :: "wire_codec \<Rightarrow> tool_request \<Rightarrow> uuid option \<Rightarrow> fingerprint" where
  "request_fingerprint cx request session_id =
     sha256_digest cx (request_to_vec cx (session_id, request))"

definition mismatch_message :: string where
  "mismatch_message = ''request_id was already used for a different request''"

definition mismatch_response :: "wire_codec \<Rightarrow> uuid \<Rightarrow> string" where
  "mismatch_response cx request_id =
     serialize_response cx (Error PROTOCOL_VERSION (Some request_id) mismatch_message)"

definition expired_request_response :: "wire_codec \<Rightarrow> uuid \<Rightarrow> bool \<Rightarrow> string" where
  "expired_request_response cx request_id fingerprint_matches =
     serialize_response cx (Error PROTOCOL_VERSION (Some request_id)
       (if fingerprint_matches then
          ''request completed previously, but its response is no longer available; it was not re-executed''
        else mismatch_message))"

definition cache_capacity_response :: "wire_codec \<Rightarrow> uuid \<Rightarrow> string" where
  "cache_capacity_response cx request_id =
     serialize_response cx (Error PROTOCOL_VERSION (Some request_id)
       ''too many requests are currently in flight'')"

definition unsupported_protocol_response :: "wire_codec \<Rightarrow> uuid \<Rightarrow> u16 \<Rightarrow> string" where
  "unsupported_protocol_response cx request_id protocol_version =
     serialize_response cx (Error PROTOCOL_VERSION (Some request_id)
       (''unsupported protocol version '' @ show_nat (unat protocol_version) @ ''; expected '' @
        show_nat (unat PROTOCOL_VERSION)))"

definition missing_authority_response :: "wire_codec \<Rightarrow> uuid \<Rightarrow> string" where
  "missing_authority_response cx request_id =
     serialize_response cx (Error PROTOCOL_VERSION (Some request_id)
       ''connected runner request omitted its authority lease'')"

definition authority_error_response :: "wire_codec \<Rightarrow> uuid \<Rightarrow> authority_error \<Rightarrow> string" where
  "authority_error_response cx request_id error =
     serialize_response cx (Error PROTOCOL_VERSION (Some request_id) (authority_error_to_string error))"

definition truncate_error_utf8 :: "string \<Rightarrow> usize \<Rightarrow> string" where
  "truncate_error_utf8 str max_bytes =
     (if length str \<le> max_bytes then str else take (boundary_loop str max_bytes) str)"

section \<open>The cache\<close>

definition remove_cached_response ::
  "slot_heap \<Rightarrow> response_cache \<Rightarrow> uuid \<Rightarrow> usize \<Rightarrow> response_cache" where
  "remove_cached_response h c request_id response_len =
     (let c' = (case Mapping.lookup (slots c) request_id of
                  None \<Rightarrow> c
                | Some sid \<Rightarrow>
                    c\<lparr>slots := Mapping.delete request_id (slots c),
                      expired := Mapping.update request_id (slot_fingerprint (h ! sid)) (expired c)\<rparr>)
      in c'\<lparr>response_bytes := response_bytes c' - response_len\<rparr>)"

text \<open>The body of both eviction loops: pop the oldest response and tombstone it.\<close>

definition pop_response :: "slot_heap \<Rightarrow> response_cache \<Rightarrow> response_cache" where
  "pop_response h c =
     (case order c of
        [] \<Rightarrow> c
      | (request_id, response_len) # rest \<Rightarrow>
          remove_cached_response h (c\<lparr>order := rest\<rparr>) request_id response_len)"

definition requests_full :: "usize \<Rightarrow> response_cache \<Rightarrow> bool" where
  "requests_full max_requests c \<longleftrightarrow> Mapping.size (slots c) \<ge> max_requests"

definition bytes_full :: "usize \<Rightarrow> response_cache \<Rightarrow> bool" where
  "bytes_full max_bytes c \<longleftrightarrow> response_bytes c > max_bytes"

lemma order_remove [simp]: "order (remove_cached_response h c i n) = order c"
  by (simp add: remove_cached_response_def Let_def split: option.splits)

lemma order_pop [simp]: "order (pop_response h c) = tl (order c)"
  by (simp add: pop_response_def split: list.splits prod.splits)

text \<open>
  The capacity loop also says whether it made room: it gives up when every slot that is
  left belongs to an execution in flight.
\<close>

function evict_requests :: "slot_heap \<Rightarrow> usize \<Rightarrow> response_cache \<Rightarrow> response_cache \<times> bool" where
  "evict_requests h max_requests c =
     (if requests_full max_requests c then
        (case order c of
           [] \<Rightarrow> (c, False)
         | _ # _ \<Rightarrow> evict_requests h max_requests (pop_response h c))
      else (c, True))"
  by pat_completeness auto
termination by (relation "measure (\<lambda>(h, m, c). length (order c))") auto

function evict_bytes :: "slot_heap \<Rightarrow> usize \<Rightarrow> response_cache \<Rightarrow> response_cache" where
  "evict_bytes h max_bytes c =
     (if bytes_full max_bytes c then
        (case order c of
           [] \<Rightarrow> c
         | _ # _ \<Rightarrow> evict_bytes h max_bytes (pop_response h c))
      else c)"
  by pat_completeness auto
termination by (relation "measure (\<lambda>(h, m, c). length (order c))") auto

declare evict_requests.simps [simp del] evict_bytes.simps [simp del]

section \<open>Dispatching a request\<close>

datatype dispatch_reply = Reply string | AwaitSlot nat

text \<open>An execution in flight; \<open>task_response\<close> is the response once it is published, and
  \<open>task_notified\<close> says that the waiters have been notified.\<close>

record execution =
  task_request_id :: uuid
  task_request :: tool_request
  task_authority :: authority_guard
  task_slot :: nat
  task_response :: "string option"
  task_notified :: bool

definition spawn_execution :: "request_envelope \<Rightarrow> authority_guard \<Rightarrow> nat \<Rightarrow> execution" where
  "spawn_execution request authority sid =
     \<lparr>task_request_id = req_request_id request, task_request = req_request request,
      task_authority = authority, task_slot = sid, task_response = None,
      task_notified = False\<rparr>"

definition envelope_fingerprint :: "wire_codec \<Rightarrow> request_envelope \<Rightarrow> fingerprint" where
  "envelope_fingerprint cx request =
     request_fingerprint cx (req_request request) (map_option lease_session_id (req_authority request))"

definition join_slot ::
  "wire_codec \<Rightarrow> dispatcher \<Rightarrow> request_envelope \<Rightarrow> authority_guard \<Rightarrow> nat \<Rightarrow> bool \<Rightarrow>
   dispatcher \<times> dispatch_reply \<times> execution option" where
  "join_slot cx d request authority sid elected =
     (if slot_fingerprint (slot_heap d ! sid) \<noteq> envelope_fingerprint cx request then
        (d, Reply (mismatch_response cx (req_request_id request)), None)
      else
        (d, AwaitSlot sid,
         if elected then Some (spawn_execution request authority sid) else None))"

definition dispatch_with_authority ::
  "wire_codec \<Rightarrow> dispatcher \<Rightarrow> request_envelope \<Rightarrow> authority_guard \<Rightarrow>
   dispatcher \<times> dispatch_reply \<times> execution option" where
  "dispatch_with_authority cx d request authority =
     (let request_id = req_request_id request;
          fp = envelope_fingerprint cx request in
      case Mapping.lookup (slots (cache d)) request_id of
        Some sid \<Rightarrow> join_slot cx d request authority sid False
      | None \<Rightarrow>
          (case Mapping.lookup (expired (cache d)) request_id of
             Some expired_fingerprint \<Rightarrow>
               (d, Reply (expired_request_response cx request_id (expired_fingerprint = fp)), None)
           | None \<Rightarrow>
               (case evict_requests (slot_heap d) (cached_requests_limit d) (cache d) of
                  (c, False) \<Rightarrow>
                    (d\<lparr>cache := c\<rparr>, Reply (cache_capacity_response cx request_id), None)
                | (c, True) \<Rightarrow>
                    let sid = length (slot_heap d);
                        d' = d\<lparr>slot_heap := slot_heap d @ [\<lparr>slot_fingerprint = fp, slot_response = None\<rparr>],
                               cache := c\<lparr>slots := Mapping.update request_id sid (slots c)\<rparr>\<rparr>
                    in join_slot cx d' request authority sid True)))"

definition dispatch_connected ::
  "wire_codec \<Rightarrow> instant \<Rightarrow> dispatcher \<Rightarrow> request_envelope \<Rightarrow>
   dispatcher \<times> dispatch_reply \<times> execution option" where
  "dispatch_connected cx now d request =
     (if req_protocol_version request \<noteq> PROTOCOL_VERSION then
        (d, Reply (unsupported_protocol_response cx (req_request_id request)
                     (req_protocol_version request)), None)
      else case req_authority request of
        None \<Rightarrow> (d, Reply (missing_authority_response cx (req_request_id request)), None)
      | Some lease \<Rightarrow>
          (case grant (authorities d) now lease of
             Inl e \<Rightarrow> (d, Reply (authority_error_response cx (req_request_id request) e), None)
           | Inr (r, authority) \<Rightarrow>
               dispatch_with_authority cx (d\<lparr>authorities := r\<rparr>) request authority))"

definition renew_authority ::
  "instant \<Rightarrow> dispatcher \<Rightarrow> authority_lease \<Rightarrow> authority_error + dispatcher" where
  "renew_authority now d lease =
     (case grant (authorities d) now lease of
        Inl e \<Rightarrow> Inl e
      | Inr (r, _) \<Rightarrow> Inr (d\<lparr>authorities := r\<rparr>))"

section \<open>Completing an execution\<close>

definition execution_response ::
  "wire_codec \<Rightarrow> usize \<Rightarrow> uuid \<Rightarrow> string + tool_result \<Rightarrow> string" where
  "execution_response cx error_limit request_id result =
     serialize_response cx
       (case result of
          Inr response \<Rightarrow> Success PROTOCOL_VERSION request_id response
        | Inl error \<Rightarrow>
            Error PROTOCOL_VERSION (Some request_id) (truncate_error_utf8 error error_limit))"

text \<open>The execution publishes its response in the slot, under the slot's lock.\<close>

definition publish_response :: "dispatcher \<Rightarrow> nat \<Rightarrow> string \<Rightarrow> dispatcher" where
  "publish_response d sid response =
     d\<lparr>slot_heap := (slot_heap d)[sid := (slot_heap d ! sid)\<lparr>slot_response := Some response\<rparr>]\<rparr>"

text \<open>Then it accounts for the response, under the cache's lock, if the slot is still current.\<close>

definition account_response :: "dispatcher \<Rightarrow> uuid \<Rightarrow> nat \<Rightarrow> string \<Rightarrow> dispatcher" where
  "account_response d request_id sid response =
     (if Mapping.lookup (slots (cache d)) request_id = Some sid then
        d\<lparr>cache := evict_bytes (slot_heap d) (cached_bytes_limit d)
            ((cache d)\<lparr>response_bytes := response_bytes (cache d) + length response,
                       order := order (cache d) @ [(request_id, length response)]\<rparr>)\<rparr>
      else d)"

section \<open>Waiters\<close>

text \<open>
  \<open>wait_for_response\<close>: a waiter registers with the slot's \<open>Notify\<close>, looks at the response
  and parks.  A registered waiter receives every later \<open>notify_waiters\<close>, also when it has
  not been polled yet.  A transport that goes away drops its waiter.
\<close>

datatype wait_phase =
    WaitStart
  | WaitRegistered bool
  | WaitParked bool
  | WaitReturned string
  | WaitDropped

record slot_waiter =
  waiter_slot :: nat
  waiter_phase :: wait_phase

fun notify_phase :: "wait_phase \<Rightarrow> wait_phase" where
  "notify_phase (WaitRegistered _) = WaitRegistered True"
| "notify_phase (WaitParked _) = WaitParked True"
| "notify_phase ph = ph"

definition notify_slot :: "nat \<Rightarrow> slot_waiter list \<Rightarrow> slot_waiter list" where
  "notify_slot sid =
     map (\<lambda>v. if waiter_slot v = sid then v\<lparr>waiter_phase := notify_phase (waiter_phase v)\<rparr> else v)"

fun wait_for_response :: "response_slot \<Rightarrow> wait_phase \<Rightarrow> wait_phase" where
  "wait_for_response slot WaitStart = WaitRegistered False"
| "wait_for_response slot (WaitRegistered notified) =
     (case slot_response slot of
        Some response \<Rightarrow> WaitReturned response
      | None \<Rightarrow> WaitParked notified)"
| "wait_for_response slot (WaitParked notified) = (if notified then WaitStart else WaitParked notified)"
| "wait_for_response slot ph = ph"

section \<open>The system\<close>

text \<open>
  \<open>elections\<close> records, for the statements only, each execution that was spawned.
\<close>

record dispatch_world =
  disp :: dispatcher
  executions :: "execution list"
  waiters :: "slot_waiter list"
  elections :: "(uuid \<times> fingerprint) list"
  wclock :: instant

definition arrive ::
  "wire_codec \<Rightarrow> dispatch_world \<Rightarrow> request_envelope \<Rightarrow> dispatch_world \<times> dispatch_reply" where
  "arrive cx w request =
     (let (d, reply, ex) = dispatch_connected cx (wclock w) (disp w) request in
      (w\<lparr>disp := d,
         executions := executions w @ (case ex of None \<Rightarrow> [] | Some t \<Rightarrow> [t]),
         waiters := waiters w @
           (case reply of Reply _ \<Rightarrow> []
            | AwaitSlot sid \<Rightarrow> [\<lparr>waiter_slot = sid, waiter_phase = WaitStart\<rparr>]),
         elections := elections w @
           (case ex of None \<Rightarrow> []
            | Some t \<Rightarrow> [(task_request_id t, envelope_fingerprint cx request)])\<rparr>,
       reply))"

text \<open>
  The tasks of the dispatcher take steps of their own: an execution publishes, notifies and
  accounts, a waiter is polled.
\<close>

inductive task_step :: "wire_codec \<Rightarrow> dispatch_world \<Rightarrow> dispatch_world \<Rightarrow> bool" for cx where
  task_publish: "i < length (executions w) \<Longrightarrow> ex = executions w ! i \<Longrightarrow> task_response ex = None \<Longrightarrow>
    response = execution_response cx (max_error_bytes (disp w)) (task_request_id ex) result \<Longrightarrow>
    task_step cx w (w\<lparr>disp := publish_response (disp w) (task_slot ex) response,
      executions := (executions w)[i := ex\<lparr>task_response := Some response\<rparr>]\<rparr>)"
| task_notify: "i < length (executions w) \<Longrightarrow> ex = executions w ! i \<Longrightarrow> task_response ex = Some response \<Longrightarrow>
    \<not> task_notified ex \<Longrightarrow>
    task_step cx w (w\<lparr>waiters := notify_slot (task_slot ex) (waiters w),
      executions := (executions w)[i := ex\<lparr>task_notified := True\<rparr>]\<rparr>)"
| task_account: "executions w = xs @ ex # ys \<Longrightarrow> task_response ex = Some response \<Longrightarrow> task_notified ex \<Longrightarrow>
    task_step cx w (w\<lparr>disp := account_response (disp w) (task_request_id ex) (task_slot ex) response,
      executions := xs @ ys\<rparr>)"
| task_wait: "i < length (waiters w) \<Longrightarrow> v = waiters w ! i \<Longrightarrow>
    task_step cx w (w\<lparr>waiters := (waiters w)[i :=
      v\<lparr>waiter_phase := wait_for_response (slot_heap (disp w) ! waiter_slot v) (waiter_phase v)\<rparr>]\<rparr>)"

inductive task_run :: "wire_codec \<Rightarrow> dispatch_world \<Rightarrow> dispatch_world \<Rightarrow> bool" for cx where
  task_refl: "task_run cx w w"
| task_next: "task_run cx w v \<Longrightarrow> task_step cx v u \<Longrightarrow> task_run cx w u"

text \<open>The transport, the lease renewals and the clock interleave with them.\<close>

inductive dispatch_step :: "wire_codec \<Rightarrow> dispatch_world \<Rightarrow> dispatch_world \<Rightarrow> bool" for cx where
  step_task: "task_step cx w v \<Longrightarrow> dispatch_step cx w v"
| step_clock: "wclock w \<le> t \<Longrightarrow> dispatch_step cx w (w\<lparr>wclock := t\<rparr>)"
| step_renew: "renew_authority (wclock w) (disp w) lease = Inr d \<Longrightarrow>
    dispatch_step cx w (w\<lparr>disp := d\<rparr>)"
| step_arrive: "arrive cx w request = (v, reply) \<Longrightarrow> dispatch_step cx w v"
| step_disconnect: "i < length (waiters w) \<Longrightarrow>
    dispatch_step cx w (w\<lparr>waiters := (waiters w)[i := (waiters w ! i)\<lparr>waiter_phase := WaitDropped\<rparr>]\<rparr>)"

inductive dispatch_run :: "wire_codec \<Rightarrow> dispatch_world \<Rightarrow> dispatch_world \<Rightarrow> bool" for cx where
  dispatch_refl: "dispatch_run cx w w"
| dispatch_next: "dispatch_run cx w v \<Longrightarrow> dispatch_step cx v u \<Longrightarrow> dispatch_run cx w u"

definition initial_world :: "execution_limits \<Rightarrow> dispatch_world" where
  "initial_world limits =
     \<lparr>disp = new_dispatcher limits, executions = [], waiters = [], elections = [], wclock = 0\<rparr>"

section \<open>The truncation and the two eviction loops meet their contracts\<close>

interpretation error_truncation: utf8_truncation truncate_error_utf8
  by unfold_locales (simp_all add: truncate_error_utf8_def)

interpretation request_eviction: front_eviction order "requests_full m" "pop_response h"
  "\<lambda>c. fst (evict_requests h m c)" for h m
proof
  fix s :: response_cache
  show "order (pop_response h s) = tl (order s)" by simp
  show "order s = [] \<or> \<not> requests_full m s \<Longrightarrow> fst (evict_requests h m s) = s"
    by (subst evict_requests.simps) (auto split: list.splits)
  show "order s \<noteq> [] \<Longrightarrow> requests_full m s \<Longrightarrow>
      fst (evict_requests h m s) = fst (evict_requests h m (pop_response h s))"
    by (subst evict_requests.simps) (auto split: list.splits)
qed

interpretation byte_eviction: front_eviction order "bytes_full m" "pop_response h"
  "evict_bytes h m" for h m
proof
  fix s :: response_cache
  show "order (pop_response h s) = tl (order s)" by simp
  show "order s = [] \<or> \<not> bytes_full m s \<Longrightarrow> evict_bytes h m s = s"
    by (subst evict_bytes.simps) (auto split: list.splits)
  show "order s \<noteq> [] \<Longrightarrow> bytes_full m s \<Longrightarrow> evict_bytes h m s = evict_bytes h m (pop_response h s)"
    by (subst evict_bytes.simps) (auto split: list.splits)
qed

lemma evict_requests_room: "snd (evict_requests h m c) \<longleftrightarrow> \<not> requests_full m (fst (evict_requests h m c))"
proof (induction h m c rule: evict_requests.induct)
  case (1 h m c)
  then show ?case
    by (cases "requests_full m c"; cases "order c")
       (simp_all add: evict_requests.simps [of h m c])
qed

section \<open>The cache invariant\<close>

text \<open>The fingerprint a request identifier was first used with, if it was used at all.\<close>

definition seen :: "slot_heap \<Rightarrow> response_cache \<Rightarrow> uuid \<rightharpoonup> fingerprint" where
  "seen h c request_id =
     (case Mapping.lookup (slots c) request_id of
        Some sid \<Rightarrow> Some (slot_fingerprint (h ! sid))
      | None \<Rightarrow> Mapping.lookup (expired c) request_id)"

definition completed :: "slot_heap \<Rightarrow> response_cache \<Rightarrow> uuid \<times> usize \<Rightarrow> bool" where
  "completed h c entry \<longleftrightarrow>
     (\<exists>sid r. Mapping.lookup (slots c) (fst entry) = Some sid \<and> slot_response (h ! sid) = Some r \<and>
        length r = snd entry)"

text \<open>
  \<open>flight\<close> pairs each identifier in flight with its slot.  A slot of the cache is either
  in flight or completed and queued, never both; the byte count is the sum of the queue.
\<close>

definition slots_wf :: "nat \<Rightarrow> (uuid, nat) mapping \<Rightarrow> bool" where
  "slots_wf n m \<longleftrightarrow>
     finite (Mapping.keys m) \<and>
     (\<forall>request_id sid. Mapping.lookup m request_id = Some sid \<longrightarrow> sid < n) \<and>
     (\<forall>i j sid. Mapping.lookup m i = Some sid \<longrightarrow> Mapping.lookup m j = Some sid \<longrightarrow> i = j)"

lemma slots_wf_delete: "slots_wf n m \<Longrightarrow> slots_wf n (Mapping.delete k m)"
  unfolding slots_wf_def lookup_delete' keys_delete by (metis finite_Diff option.distinct(1))

lemma slots_wf_insert: "slots_wf n m \<Longrightarrow> slots_wf (Suc n) (Mapping.update k n m)"
  unfolding slots_wf_def lookup_update' keys_update
  by (metis finite_insert less_Suc_eq less_irrefl option.inject)

definition cache_inv :: "slot_heap \<Rightarrow> (uuid \<times> nat) set \<Rightarrow> response_cache \<Rightarrow> bool" where
  "cache_inv h flight c \<longleftrightarrow>
     slots_wf (length h) (slots c) \<and>
     distinct (map fst (order c)) \<and>
     (\<forall>entry \<in> set (order c). completed h c entry) \<and>
     response_bytes c = sum_list (map snd (order c)) \<and>
     Mapping.keys (slots c) = fst ` set (order c) \<union> fst ` flight \<and>
     fst ` set (order c) \<inter> fst ` flight = {} \<and>
     (\<forall>(request_id, sid) \<in> flight. Mapping.lookup (slots c) request_id = Some sid)"

lemma cache_invD:
  assumes "cache_inv h flight c"
  shows "finite (Mapping.keys (slots c))" "distinct (map fst (order c))"
    "response_bytes c = sum_list (map snd (order c))"
    "Mapping.keys (slots c) = fst ` set (order c) \<union> fst ` flight"
    "fst ` set (order c) \<inter> fst ` flight = {}"
  using assms by (auto simp: cache_inv_def slots_wf_def)

lemma cache_inv_lookup:
  assumes "cache_inv h flight c" "Mapping.lookup (slots c) request_id = Some sid"
  shows "sid < length h" "Mapping.lookup (slots c) j = Some sid \<Longrightarrow> j = request_id"
  using assms unfolding cache_inv_def slots_wf_def by metis+

lemma cache_inv_flight:
  assumes "cache_inv h flight c" "(request_id, sid) \<in> flight"
  shows "Mapping.lookup (slots c) request_id = Some sid"
  using assms unfolding cache_inv_def by blast

lemma cache_inv_completed:
  assumes "cache_inv h flight c" "entry \<in> set (order c)"
  shows "completed h c entry"
  using assms by (simp add: cache_inv_def)

lemma pop_response_eq:
  assumes "cache_inv h flight c" "order c = (request_id, n) # rest"
  obtains sid where "Mapping.lookup (slots c) request_id = Some sid"
    "pop_response h c = c\<lparr>order := rest, slots := Mapping.delete request_id (slots c),
       expired := Mapping.update request_id (slot_fingerprint (h ! sid)) (expired c),
       response_bytes := response_bytes c - n\<rparr>"
proof -
  obtain sid where "Mapping.lookup (slots c) request_id = Some sid"
    using cache_inv_completed [OF assms(1), of "(request_id, n)"] assms(2)
    by (auto simp: completed_def)
  with assms(2) that show ?thesis by (simp add: pop_response_def remove_cached_response_def)
qed

lemma seen_None: "seen h c request_id = None \<Longrightarrow> Mapping.lookup (slots c) request_id = None"
  by (simp add: seen_def split: option.splits)

lemma seen_account: "seen h (c\<lparr>response_bytes := n, order := q\<rparr>) = seen h c"
  by (rule ext) (simp add: seen_def split: option.splits)

lemma seen_pop: "seen h (pop_response h c) = seen h c"
  by (rule ext)
     (auto simp: seen_def pop_response_def remove_cached_response_def Let_def lookup_delete'
        lookup_update' split: list.splits option.splits)

lemma cache_inv_pop [invariant_intros]:
  assumes "cache_inv h flight c" "order c \<noteq> []"
  shows "cache_inv h flight (pop_response h c)"
proof -
  obtain request_id n rest where o: "order c = (request_id, n) # rest"
    using assms(2) by (cases "order c") auto
  obtain sid where sid: "Mapping.lookup (slots c) request_id = Some sid"
    and eq: "pop_response h c = c\<lparr>order := rest, slots := Mapping.delete request_id (slots c),
       expired := Mapping.update request_id (slot_fingerprint (h ! sid)) (expired c),
       response_bytes := response_bytes c - n\<rparr>"
    using pop_response_eq [OF assms(1) o] .
  note inv = assms(1) [unfolded cache_inv_def o]
  have rest: "request_id \<notin> fst ` set rest" "request_id \<notin> fst ` flight"
    using inv by auto
  have c: "completed h (pop_response h c) entry" if "entry \<in> set rest" for entry
  proof -
    have "fst entry \<noteq> request_id" using rest(1) that by auto
    moreover have "completed h c entry" using inv that by simp
    ultimately show ?thesis by (simp add: completed_def eq lookup_delete')
  qed
  have f: "Mapping.lookup (slots (pop_response h c)) i = Some s" if "(i, s) \<in> flight" for i s
  proof -
    have "i \<noteq> request_id" using rest(2) that by force
    then show ?thesis using inv that by (auto simp: eq lookup_delete')
  qed
  have keys: "Mapping.keys (slots (pop_response h c)) = fst ` set rest \<union> fst ` flight"
    using inv rest by (auto simp: eq)
  have "order (pop_response h c) = rest" "response_bytes (pop_response h c) = response_bytes c - n"
    by (simp_all add: eq)
  moreover have "slots_wf (length h) (slots (pop_response h c))"
    using inv by (simp add: eq slots_wf_delete)
  ultimately show ?thesis
    unfolding cache_inv_def using inv c f keys by (intro conjI) auto
qed

lemma size_pop: "cache_inv h flight c \<Longrightarrow> order c \<noteq> [] \<Longrightarrow>
    Mapping.size (slots (pop_response h c)) \<le> Mapping.size (slots c)"
  by (cases "order c")
     (auto simp: pop_response_def remove_cached_response_def Let_def size_delete split: option.splits)

lemma evict_requests_inv [invariant_intros]:
  assumes "cache_inv h flight c" "Mapping.size (slots c) \<le> l"
  shows "cache_inv h flight (fst (evict_requests h m c)) \<and>
    Mapping.size (slots (fst (evict_requests h m c))) \<le> l"
  by (rule request_eviction.loop_invariant
      [where I = "\<lambda>c. cache_inv h flight c \<and> Mapping.size (slots c) \<le> l"])
     (use assms size_pop in \<open>auto intro: cache_inv_pop order_trans\<close>)

lemma evict_bytes_inv [invariant_intros]:
  assumes "cache_inv h flight c" "Mapping.size (slots c) \<le> l"
  shows "cache_inv h flight (evict_bytes h m c) \<and> Mapping.size (slots (evict_bytes h m c)) \<le> l"
  by (rule byte_eviction.loop_invariant
      [where I = "\<lambda>c. cache_inv h flight c \<and> Mapping.size (slots c) \<le> l"])
     (use assms size_pop in \<open>auto intro: cache_inv_pop order_trans\<close>)

lemma evict_seen:
  "seen h (fst (evict_requests h m c)) = seen h c" "seen h (evict_bytes h m c) = seen h c"
  by (rule request_eviction.loop_drop_measure, rule seen_pop)
     (rule byte_eviction.loop_drop_measure, rule seen_pop)

lemma evict_bytes_within:
  assumes "cache_inv h flight c" "Mapping.size (slots c) \<le> l"
  shows "response_bytes (evict_bytes h m c) \<le> m"
  using byte_eviction.loop_done [of h m c] evict_bytes_inv [OF assms, of m] cache_invD(3)
  by (fastforce simp: bytes_full_def)

lemma pop_bytes_le: "response_bytes (pop_response h c) \<le> response_bytes c"
  by (auto simp: pop_response_def remove_cached_response_def Let_def split: list.splits option.splits)

lemma evict_requests_bytes: "response_bytes (fst (evict_requests h m c)) \<le> response_bytes c"
  by (rule request_eviction.loop_invariant [where I = "\<lambda>d. response_bytes d \<le> response_bytes c"])
     (auto intro: order_trans [OF pop_bytes_le])

section \<open>The heap of slots\<close>

lemma seen_append:
  assumes "cache_inv h flight c"
  shows "seen (h @ hs) c = seen h c"
  using cache_inv_lookup(1) [OF assms]
  by (intro ext) (auto simp: seen_def nth_append split: option.splits)

lemma cache_inv_elect [invariant_intros]:
  assumes "cache_inv h flight c" "Mapping.lookup (slots c) request_id = None"
  shows "cache_inv (h @ [slot]) (insert (request_id, length h) flight)
    (c\<lparr>slots := Mapping.update request_id (length h) (slots c)\<rparr>)"
proof -
  let ?c = "c\<lparr>slots := Mapping.update request_id (length h) (slots c)\<rparr>"
  have new: "request_id \<notin> Mapping.keys (slots c)"
    using assms(2) by (simp add: keys_dom_lookup domIff)
  note inv = assms(1) [unfolded cache_inv_def]
  have "completed (h @ [slot]) ?c entry" if "entry \<in> set (order c)" for entry
  proof -
    have "fst entry \<noteq> request_id" using new inv that by auto
    with cache_inv_completed [OF assms(1) that] cache_inv_lookup(1) [OF assms(1)] show ?thesis
      by (auto simp: completed_def lookup_update' nth_append)
  qed
  moreover have "Mapping.lookup (slots ?c) i = Some s" if "(i, s) \<in> flight" for i s
    using cache_inv_flight [OF assms(1) that] assms(2) by (auto simp: lookup_update')
  ultimately show ?thesis
    unfolding cache_inv_def
    using inv new slots_wf_insert [of "length h" "slots c" request_id]
    by (intro conjI) (auto simp: lookup_update)
qed

lemma seen_elect:
  assumes "cache_inv h flight c"
  shows "seen (h @ [slot]) (c\<lparr>slots := Mapping.update request_id (length h) (slots c)\<rparr>) =
    (seen h c)(request_id \<mapsto> slot_fingerprint slot)"
  using cache_inv_lookup(1) [OF assms]
  by (intro ext) (auto simp: seen_def lookup_update' nth_append split: option.splits)

lemma publish_fingerprint:
  "slot_fingerprint (h[sid := (h ! sid)\<lparr>slot_response := r\<rparr>] ! k) = slot_fingerprint (h ! k)"
  by (cases "sid < length h") (simp_all add: nth_list_update list_update_beyond)

lemma seen_publish:
  "seen (h[sid := (h ! sid)\<lparr>slot_response := r\<rparr>]) c = seen h c"
  by (rule ext) (simp add: seen_def publish_fingerprint split: option.splits)

text \<open>Publishing touches a slot in flight, so no completed response changes.\<close>

lemma cache_inv_publish [invariant_intros]:
  assumes "cache_inv h flight c" "(request_id, sid) \<in> flight"
  shows "cache_inv (h[sid := slot]) flight c"
proof -
  note inv = assms(1) [unfolded cache_inv_def]
  have "completed (h[sid := slot]) c entry" if e: "entry \<in> set (order c)" for entry
  proof -
    obtain sid' r where c: "Mapping.lookup (slots c) (fst entry) = Some sid'"
      "slot_response (h ! sid') = Some r" "length r = snd entry"
      using cache_inv_completed [OF assms(1) e] by (auto simp: completed_def)
    have "fst entry \<in> fst ` set (order c)" "request_id \<in> fst ` flight" using e assms(2) by force+
    then have "fst entry \<noteq> request_id" using cache_invD(5) [OF assms(1)] by auto
    then have "sid' \<noteq> sid"
      using cache_inv_lookup(2) [OF assms(1) c(1)] cache_inv_flight [OF assms] by auto
    with c show ?thesis by (simp add: completed_def)
  qed
  with inv show ?thesis unfolding cache_inv_def length_list_update by blast
qed

text \<open>Accounting moves an identifier from the flight to the queue.\<close>

lemma cache_inv_account [invariant_intros]:
  assumes "cache_inv h (insert (request_id, sid) flight) c" "request_id \<notin> fst ` flight"
    and "slot_response (h ! sid) = Some response"
  shows "cache_inv h flight
    (c\<lparr>response_bytes := response_bytes c + length response,
       order := order c @ [(request_id, length response)]\<rparr>)"
  using assms unfolding cache_inv_def by (intro conjI) (auto simp: completed_def)

section \<open>What one dispatch does\<close>

text \<open>A dispatch leaves the cache alone, evicts and rejects, or elects one execution.\<close>

definition elected_dispatcher ::
  "dispatcher \<Rightarrow> authority_registry \<Rightarrow> fingerprint \<Rightarrow> uuid \<Rightarrow> dispatcher" where
  "elected_dispatcher d r fp request_id =
     (let c = fst (evict_requests (slot_heap d) (cached_requests_limit d) (cache d)) in
      d\<lparr>authorities := r,
        slot_heap := slot_heap d @ [\<lparr>slot_fingerprint = fp, slot_response = None\<rparr>],
        cache := c\<lparr>slots := Mapping.update request_id (length (slot_heap d)) (slots c)\<rparr>\<rparr>)"

lemma dispatch_cases:
  assumes "dispatch_connected cx t d request = (d', reply, ex)"
  obtains (same) r where "d' = d\<lparr>authorities := r\<rparr>" "ex = None"
      "\<And>sid. reply = AwaitSlot sid \<Longrightarrow>
         Mapping.lookup (slots (cache d)) (req_request_id request) = Some sid \<and>
         slot_fingerprint (slot_heap d ! sid) = envelope_fingerprint cx request"
  | (full) r where
      "d' = d\<lparr>authorities := r,
         cache := fst (evict_requests (slot_heap d) (cached_requests_limit d) (cache d))\<rparr>"
      "ex = None" "reply = Reply (cache_capacity_response cx (req_request_id request))"
      "seen (slot_heap d) (cache d) (req_request_id request) = None"
  | (elect) r g where
      "d' = elected_dispatcher d r (envelope_fingerprint cx request) (req_request_id request)"
      "ex = Some (spawn_execution request g (length (slot_heap d)))"
      "reply = AwaitSlot (length (slot_heap d))"
      "seen (slot_heap d) (cache d) (req_request_id request) = None"
      "snd (evict_requests (slot_heap d) (cached_requests_limit d) (cache d))"
proof (cases "\<exists>lease r g. req_protocol_version request = PROTOCOL_VERSION \<and>
    req_authority request = Some lease \<and> grant (authorities d) t lease = Inr (r, g)")
  case False
  then have "d' = d\<lparr>authorities := authorities d\<rparr> \<and> ex = None \<and> (\<exists>str. reply = Reply str)"
    using assms by (auto simp: dispatch_connected_def split: if_splits option.splits sum.splits)
  then show ?thesis using same by fastforce
next
  case True
  then obtain r g where dwa:
    "dispatch_with_authority cx (d\<lparr>authorities := r\<rparr>) request g = (d', reply, ex)"
    using assms by (auto simp: dispatch_connected_def)
  obtain c room where ev:
    "evict_requests (slot_heap d) (cached_requests_limit d) (cache d) = (c, room)" by fastforce
  let ?i = "req_request_id request"
  show ?thesis
  proof (cases "Mapping.lookup (slots (cache d)) ?i")
    case (Some sid)
    with dwa show ?thesis
      by (intro same [of r]) (auto simp: dispatch_with_authority_def join_slot_def split: if_splits)
  next
    case None
    show ?thesis
    proof (cases "Mapping.lookup (expired (cache d)) ?i")
      case (Some f)
      with None dwa show ?thesis
        by (intro same [of r]) (auto simp: dispatch_with_authority_def Let_def)
    next
      case none: None
      with None have "seen (slot_heap d) (cache d) ?i = None" by (simp add: seen_def)
      with None none dwa ev show ?thesis
        by (cases room)
           (auto simp: dispatch_with_authority_def join_slot_def Let_def elected_dispatcher_def
             intro: full [of r] elect [of r g])
    qed
  qed
qed

lemma dispatch_step_induct [consumes 1, case_names step_clock step_renew step_arrive step_publish step_notify step_account step_wait step_disconnect]:
  assumes "dispatch_step cx w v"
    and "\<And>w t. wclock w \<le> t \<Longrightarrow> P w (w\<lparr>wclock := t\<rparr>)"
    and "\<And>w lease d. renew_authority (wclock w) (disp w) lease = Inr d \<Longrightarrow>
    P w (w\<lparr>disp := d\<rparr>)"
    and "\<And>w request v reply. arrive cx w request = (v, reply) \<Longrightarrow> P w v"
    and "\<And>i w ex response result. i < length (executions w) \<Longrightarrow> ex = executions w ! i \<Longrightarrow> task_response ex = None \<Longrightarrow>
    response = execution_response cx (max_error_bytes (disp w)) (task_request_id ex) result \<Longrightarrow>
    P w (w\<lparr>disp := publish_response (disp w) (task_slot ex) response,
      executions := (executions w)[i := ex\<lparr>task_response := Some response\<rparr>]\<rparr>)"
    and "\<And>i w ex response. i < length (executions w) \<Longrightarrow> ex = executions w ! i \<Longrightarrow> task_response ex = Some response \<Longrightarrow>
    \<not> task_notified ex \<Longrightarrow>
    P w (w\<lparr>waiters := notify_slot (task_slot ex) (waiters w),
      executions := (executions w)[i := ex\<lparr>task_notified := True\<rparr>]\<rparr>)"
    and "\<And>w xs ex ys response. executions w = xs @ ex # ys \<Longrightarrow> task_response ex = Some response \<Longrightarrow> task_notified ex \<Longrightarrow>
    P w (w\<lparr>disp := account_response (disp w) (task_request_id ex) (task_slot ex) response,
      executions := xs @ ys\<rparr>)"
    and "\<And>i w v. i < length (waiters w) \<Longrightarrow> v = waiters w ! i \<Longrightarrow>
    P w (w\<lparr>waiters := (waiters w)[i :=
      v\<lparr>waiter_phase := wait_for_response (slot_heap (disp w) ! waiter_slot v) (waiter_phase v)\<rparr>]\<rparr>)"
    and "\<And>i w. i < length (waiters w) \<Longrightarrow>
    P w (w\<lparr>waiters := (waiters w)[i := (waiters w ! i)\<lparr>waiter_phase := WaitDropped\<rparr>]\<rparr>)"
  shows "P w v"
  using assms(1)
proof (induction rule: dispatch_step.induct)
  case (step_task w v)
  then show ?case by (induction rule: task_step.induct) (fact assms)+
qed (fact assms)+

section \<open>The invariant of the system\<close>

definition flight :: "dispatch_world \<Rightarrow> (uuid \<times> nat) set" where
  "flight w = (\<lambda>ex. (task_request_id ex, task_slot ex)) ` set (executions w)"

text \<open>The slots whose waiters are still to be notified.\<close>

definition unnotified :: "dispatch_world \<Rightarrow> nat set" where
  "unnotified w = task_slot ` {ex \<in> set (executions w). \<not> task_notified ex}"

lemma unnotified_updates [simp]:
  "unnotified (w\<lparr>disp := d\<rparr>) = unnotified w" "unnotified (w\<lparr>waiters := vs\<rparr>) = unnotified w"
  "unnotified (w\<lparr>elections := es\<rparr>) = unnotified w" "unnotified (w\<lparr>wclock := t\<rparr>) = unnotified w"
  "unnotified (w\<lparr>executions := xs\<rparr>) = task_slot ` {ex \<in> set xs. \<not> task_notified ex}"
  by (simp_all add: unnotified_def)

definition waiter_ok :: "slot_heap \<Rightarrow> nat set \<Rightarrow> slot_waiter \<Rightarrow> bool" where
  "waiter_ok h open_slots v \<longleftrightarrow> waiter_slot v < length h \<and>
     (case waiter_phase v of
        WaitReturned r \<Rightarrow> slot_response (h ! waiter_slot v) = Some r
      | WaitParked n \<Rightarrow> n \<or> slot_response (h ! waiter_slot v) = None \<or> waiter_slot v \<in> open_slots
      | _ \<Rightarrow> True)"

definition cache_part :: "dispatch_world \<Rightarrow> bool" where
  "cache_part w \<longleftrightarrow>
     cache_inv (slot_heap (disp w)) (flight w) (cache (disp w)) \<and>
     Mapping.size (slots (cache (disp w))) \<le> cached_requests_limit (disp w) \<and>
     response_bytes (cache (disp w)) \<le> cached_bytes_limit (disp w)"

definition execution_part :: "dispatch_world \<Rightarrow> bool" where
  "execution_part w \<longleftrightarrow>
     distinct (map task_request_id (executions w)) \<and>
     (\<forall>ex \<in> set (executions w). slot_response (slot_heap (disp w) ! task_slot ex) = task_response ex \<and>
        (task_notified ex \<longrightarrow> task_response ex \<noteq> None)) \<and>
     distinct (map fst (elections w)) \<and>
     map_of (elections w) = seen (slot_heap (disp w)) (cache (disp w))"

definition waiter_part :: "dispatch_world \<Rightarrow> bool" where
  "waiter_part w \<longleftrightarrow> (\<forall>v \<in> set (waiters w). waiter_ok (slot_heap (disp w)) (unnotified w) v)"

definition world_inv :: "dispatch_world \<Rightarrow> bool" where
  "world_inv w \<longleftrightarrow> cache_part w \<and> execution_part w \<and> waiter_part w"

lemma flight_slot:
  assumes "cache_part w" "ex \<in> set (executions w)"
  shows "Mapping.lookup (slots (cache (disp w))) (task_request_id ex) = Some (task_slot ex)"
    "task_slot ex < length (slot_heap (disp w))"
proof -
  have inv: "cache_inv (slot_heap (disp w)) (flight w) (cache (disp w))"
    using assms(1) by (simp add: cache_part_def)
  show l: "Mapping.lookup (slots (cache (disp w))) (task_request_id ex) = Some (task_slot ex)"
    by (rule cache_inv_flight [OF inv]) (use assms(2) in \<open>force simp: flight_def\<close>)
  show "task_slot ex < length (slot_heap (disp w))"
    by (rule cache_inv_lookup(1) [OF inv l])
qed

lemma waiter_ok_append: "waiter_ok h N v \<Longrightarrow> N \<subseteq> N' \<Longrightarrow> waiter_ok (h @ hs) N' v"
  by (auto simp: waiter_ok_def nth_append split: wait_phase.splits)

lemma elect_waiters:
  assumes "waiter_part w" "slot_heap (disp v) = slot_heap (disp w) @ [slot]" "unnotified w \<subseteq> unnotified v"
    and "waiters v = waiters w @ [\<lparr>waiter_slot = length (slot_heap (disp w)), waiter_phase = WaitStart\<rparr>]"
  shows "waiter_part v"
proof -
  have "waiter_ok (slot_heap (disp v)) (unnotified v) u" if "u \<in> set (waiters w)" for u
    unfolding assms(2) using assms(1,3) that by (auto simp: waiter_part_def intro: waiter_ok_append)
  then show ?thesis by (simp add: waiter_part_def assms(2,4)) (simp add: waiter_ok_def)
qed

lemma elect_inv:
  assumes inv: "world_inv w"
    and new: "seen (slot_heap (disp w)) (cache (disp w)) request_id = None"
    and room: "snd (evict_requests (slot_heap (disp w)) (cached_requests_limit (disp w)) (cache (disp w)))"
    and ex: "task_request_id ex = request_id" "task_slot ex = length (slot_heap (disp w))"
      "task_response ex = None" "\<not> task_notified ex"
  shows "world_inv (w\<lparr>disp := elected_dispatcher (disp w) r fp request_id,
    executions := executions w @ [ex],
    waiters := waiters w @ [\<lparr>waiter_slot = length (slot_heap (disp w)), waiter_phase = WaitStart\<rparr>],
    elections := elections w @ [(request_id, fp)]\<rparr>)" (is "world_inv ?v")
proof -
  let ?h = "slot_heap (disp w)" and ?cc = "cache (disp w)" and ?l = "cached_requests_limit (disp w)"
  let ?c = "fst (evict_requests ?h ?l ?cc)"
  have cp: "cache_part w" and ep: "execution_part w" and wp: "waiter_part w"
    using inv by (simp_all add: world_inv_def)
  have c: "cache_inv ?h (flight w) ?c"
    using evict_requests_inv [of ?h "flight w" ?cc ?l ?l] cp by (simp add: cache_part_def)
  have seen: "seen ?h ?c = seen ?h ?cc" by (rule evict_seen)
  then have none: "Mapping.lookup (slots ?c) request_id = None"
    using new by (metis seen_None)
  have size: "Mapping.size (slots ?c) < ?l"
    using room evict_requests_room [of ?h ?l ?cc] by (simp add: requests_full_def)
  have "flight ?v = insert (request_id, length ?h) (flight w)"
    using ex by (auto simp: flight_def)
  moreover have "response_bytes ?c \<le> cached_bytes_limit (disp w)"
    using evict_requests_bytes [of ?h ?l ?cc] cp by (simp add: cache_part_def)
  moreover have "finite (Mapping.keys (slots ?c))" by (rule cache_invD(1) [OF c])
  ultimately have cache: "cache_part ?v"
    using cache_inv_elect [OF c none] size none
    by (simp add: cache_part_def elected_dispatcher_def Let_def size_update)
  have old: "task_slot x < length ?h" if "x \<in> set (executions w)" for x
    using flight_slot(2) [OF cp that] .
  have id: "request_id \<notin> task_request_id ` set (executions w)"
    using flight_slot(1) [OF cp] seen_None [OF new] by force
  have fresh: "request_id \<notin> fst ` set (elections w)"
    using ep new unfolding execution_part_def by (metis map_of_eq_None_iff)
  have "seen (slot_heap (disp ?v)) (cache (disp ?v)) = (seen ?h ?cc)(request_id \<mapsto> fp)"
    using seen_elect [OF c] seen by (simp add: elected_dispatcher_def Let_def)
  then have "map_of (elections ?v) = seen (slot_heap (disp ?v)) (cache (disp ?v))"
    using ep fresh by (simp add: execution_part_def map_of_snoc del: map_of_append)
  then have "execution_part ?v"
    using ep ex old fresh id
    by (auto simp: execution_part_def elected_dispatcher_def Let_def nth_append)
  moreover have "waiter_part ?v"
    by (rule elect_waiters [OF wp]) (auto simp: unnotified_def elected_dispatcher_def Let_def)
  ultimately show ?thesis using cache by (simp add: world_inv_def)
qed

lemma full_inv:
  assumes inv: "world_inv w"
  shows "world_inv (w\<lparr>disp := (disp w)\<lparr>authorities := r,
    cache := fst (evict_requests (slot_heap (disp w)) (cached_requests_limit (disp w)) (cache (disp w)))\<rparr>\<rparr>)"
    (is "world_inv ?v")
proof -
  let ?h = "slot_heap (disp w)" and ?cc = "cache (disp w)" and ?l = "cached_requests_limit (disp w)"
  have cp: "cache_part w" and ep: "execution_part w" and wp: "waiter_part w"
    using inv by (simp_all add: world_inv_def)
  have "flight ?v = flight w" by (simp add: flight_def)
  then have "cache_part ?v"
    using evict_requests_inv [of ?h "flight w" ?cc ?l ?l] evict_requests_bytes [of ?h ?l ?cc] cp
    by (simp add: cache_part_def)
  moreover have "execution_part ?v"
    using ep by (simp add: execution_part_def evict_seen)
  moreover have "waiter_part ?v" using wp by (simp add: waiter_part_def)
  ultimately show ?thesis by (simp add: world_inv_def)
qed

lemma arrive_inv:
  assumes inv: "world_inv w" and arr: "arrive cx w request = (v, reply)"
  shows "world_inv v"
proof -
  obtain d ex where d: "dispatch_connected cx (wclock w) (disp w) request = (d, reply, ex)"
    using arr by (cases "dispatch_connected cx (wclock w) (disp w) request") (auto simp: arrive_def)
  have cp: "cache_inv (slot_heap (disp w)) (flight w) (cache (disp w))"
    using inv by (simp add: world_inv_def cache_part_def)
  note v = arr [unfolded arrive_def d, simplified, symmetric]
  from d show ?thesis
  proof (cases rule: dispatch_cases)
    case (same r)
    have "waiter_ok (slot_heap (disp w)) (unnotified w) \<lparr>waiter_slot = sid, waiter_phase = WaitStart\<rparr>"
      if "reply = AwaitSlot sid" for sid
      using same(3) [OF that] cache_inv_lookup(1) [OF cp] by (auto simp: waiter_ok_def)
    then show ?thesis
      using inv same(1,2) v
      by (auto simp: world_inv_def cache_part_def execution_part_def waiter_part_def flight_def
          split: dispatch_reply.splits)
  next
    case (full r)
    with v full_inv [OF inv, of r] show ?thesis by simp
  next
    case (elect r g)
    with v show ?thesis
      using elect_inv [OF inv elect(4,5), of "spawn_execution request g (length (slot_heap (disp w)))"]
      by (simp add: spawn_execution_def)
  qed
qed

lemma publish_ok:
  assumes "waiter_ok h N v" "slot_response (h ! sid) = None" "sid \<in> N"
  shows "waiter_ok (h[sid := (h ! sid)\<lparr>slot_response := Some r\<rparr>]) N v"
  using assms by (cases "waiter_phase v"; cases "waiter_slot v = sid") (auto simp: waiter_ok_def)

lemma notify_ok:
  assumes "\<forall>v \<in> set vs. waiter_ok h N v" "N \<subseteq> insert sid N'" "v \<in> set (notify_slot sid vs)"
  shows "waiter_ok h N' v"
proof -
  obtain u where u: "u \<in> set vs"
    "v = (if waiter_slot u = sid then u\<lparr>waiter_phase := notify_phase (waiter_phase u)\<rparr> else u)"
    using assms(3) by (auto simp: notify_slot_def)
  with assms(1) have "waiter_ok h N u" by blast
  then show ?thesis
    using u(2) assms(2) by (cases "waiter_phase u") (auto simp: waiter_ok_def)
qed

lemma unnotified_project:
  "unnotified w = {sid. (sid, False) \<in> set (map (\<lambda>ex. (task_slot ex, task_notified ex)) (executions w))}"
  by (force simp: unnotified_def)

lemma publish_inv:
  assumes inv: "world_inv w" and i: "i < length (executions w)" "ex = executions w ! i"
    "task_response ex = None"
  shows "world_inv (w\<lparr>disp := publish_response (disp w) (task_slot ex) response,
      executions := (executions w)[i := ex\<lparr>task_response := Some response\<rparr>]\<rparr>)" (is "world_inv ?v")
proof -
  let ?h = "slot_heap (disp w)" and ?sid = "task_slot ex"
  have cp: "cache_part w" and ep: "execution_part w" and wp: "waiter_part w"
    using inv by (simp_all add: world_inv_def)
  have mem: "ex \<in> set (executions w)" using i by simp
  note slot = flight_slot [OF cp mem]
  have ids: "map task_request_id (executions ?v) = map task_request_id (executions w)"
    "map task_slot (executions ?v) = map task_slot (executions w)"
    by (simp_all add: map_project_update [OF i(1)] i(2))
  have "map (\<lambda>ex. (task_request_id ex, task_slot ex)) (executions ?v) =
      map (\<lambda>ex. (task_request_id ex, task_slot ex)) (executions w)"
    by (simp add: map_project_update [OF i(1)] i(2))
  then have "flight ?v = flight w" by (simp only: flight_def set_map [symmetric])
  moreover have fl: "(task_request_id ex, ?sid) \<in> flight w" using mem by (force simp: flight_def)
  ultimately have "cache_part ?v"
    using cp cache_inv_publish [OF _ fl] by (simp add: cache_part_def publish_response_def)
  moreover have "execution_part ?v"
  proof -
    have none: "slot_response (?h ! ?sid) = None"
      using ep mem i(3) by (auto simp: execution_part_def)
    have other: "?sid \<noteq> task_slot x" if "x \<in> set (executions w)" "x \<noteq> ex" for x
    proof
      assume eq: "?sid = task_slot x"
      have "task_request_id x = task_request_id ex"
        using cache_inv_lookup(2) [of ?h "flight w" "cache (disp w)" "task_request_id ex" ?sid "task_request_id x"]
          flight_slot(1) [OF cp that(1)] slot(1) cp eq by (simp add: cache_part_def)
      with ep that mem show False by (auto simp: execution_part_def distinct_map inj_on_def)
    qed
    have "distinct (executions w)" using ep by (simp add: execution_part_def distinct_map)
    then have "slot_response (slot_heap (disp ?v) ! task_slot x) = task_response x \<and>
        (task_notified x \<longrightarrow> task_response x \<noteq> None)"
      if "x \<in> set (executions ?v)" for x
      using that i slot(2) ep other
      by (auto simp: set_update_distinct publish_response_def execution_part_def)
    then show ?thesis
      using ep ids by (simp add: execution_part_def publish_response_def seen_publish)
  qed
  moreover have "waiter_part ?v"
  proof -
    have pending: "slot_response (?h ! ?sid) = None" "?sid \<in> unnotified w"
      using ep mem i(3) by (auto simp: execution_part_def unnotified_def)
    have "map (\<lambda>ex. (task_slot ex, task_notified ex)) (executions ?v) =
        map (\<lambda>ex. (task_slot ex, task_notified ex)) (executions w)"
      by (simp add: map_project_update [OF i(1)] i(2))
    then have "unnotified ?v = unnotified w" by (simp only: unnotified_project)
    then show ?thesis
      using wp pending by (auto simp: waiter_part_def publish_response_def intro: publish_ok)
  qed
  ultimately show ?thesis by (simp add: world_inv_def)
qed

lemma notify_inv:
  assumes inv: "world_inv w" and i: "i < length (executions w)" "ex = executions w ! i"
    "task_response ex = Some response"
  shows "world_inv (w\<lparr>waiters := notify_slot (task_slot ex) (waiters w),
      executions := (executions w)[i := ex\<lparr>task_notified := True\<rparr>]\<rparr>)" (is "world_inv ?v")
proof -
  have cp: "cache_part w" and ep: "execution_part w" and wp: "waiter_part w"
    using inv by (simp_all add: world_inv_def)
  have sub: "set (executions ?v) \<subseteq> insert (ex\<lparr>task_notified := True\<rparr>) (set (executions w))"
    using set_update_subset_insert by simp
  have "map (\<lambda>ex. (task_request_id ex, task_slot ex)) (executions ?v) =
      map (\<lambda>ex. (task_request_id ex, task_slot ex)) (executions w)"
    by (simp add: map_project_update [OF i(1)] i(2))
  then have "flight ?v = flight w" by (simp only: flight_def set_map [symmetric])
  then have "cache_part ?v" using cp by (simp add: cache_part_def)
  moreover have "execution_part ?v"
  proof -
    have "ex \<in> set (executions w)" "map task_request_id (executions ?v) = map task_request_id (executions w)"
      using i by (simp_all add: map_project_update [OF i(1)])
    with ep sub i(3) show ?thesis unfolding execution_part_def by auto
  qed
  moreover have "waiter_part ?v"
  proof -
    have "unnotified w \<subseteq> insert (task_slot ex) (unnotified ?v)"
    proof
      fix sid assume "sid \<in> unnotified w"
      then obtain k where k: "k < length (executions w)" "\<not> task_notified (executions w ! k)"
        "sid = task_slot (executions w ! k)" by (auto simp: unnotified_def in_set_conv_nth)
      show "sid \<in> insert (task_slot ex) (unnotified ?v)"
      proof (cases "k = i")
        case False
        with k have "executions w ! k \<in> set (executions ?v)"
          by (auto simp: in_set_conv_nth intro!: exI [of _ k])
        with k show ?thesis by (auto simp: unnotified_def)
      qed (use k i in simp)
    qed
    with wp show ?thesis by (auto simp: waiter_part_def intro: notify_ok)
  qed
  ultimately show ?thesis by (simp add: world_inv_def)
qed

lemma account_inv:
  assumes inv: "world_inv w" and ex: "executions w = xs @ ex # ys" "task_response ex = Some response"
    "task_notified ex"
  shows "world_inv (w\<lparr>disp := account_response (disp w) (task_request_id ex) (task_slot ex) response,
      executions := xs @ ys\<rparr>)" (is "world_inv ?v")
proof -
  let ?h = "slot_heap (disp w)" and ?c = "cache (disp w)"
  let ?new = "?c\<lparr>response_bytes := response_bytes ?c + length response,
    order := order ?c @ [(task_request_id ex, length response)]\<rparr>"
  have cp: "cache_part w" and ep: "execution_part w" and wp: "waiter_part w"
    using inv by (simp_all add: world_inv_def)
  have mem: "ex \<in> set (executions w)" using ex by simp
  have fl: "flight w = insert (task_request_id ex, task_slot ex) (flight ?v)"
    "task_request_id ex \<notin> fst ` flight ?v"
    using ep ex(1) by (auto simp: flight_def execution_part_def)
  have resp: "slot_response (?h ! task_slot ex) = Some response"
    using ep mem ex(2) by (simp add: execution_part_def)
  have new: "cache_inv ?h (flight ?v) ?new"
    by (rule cache_inv_account) (use cp fl resp in \<open>simp_all add: cache_part_def\<close>)
  have size: "Mapping.size (slots ?new) \<le> cached_requests_limit (disp w)"
    using cp by (simp add: cache_part_def)
  have d: "disp ?v = (disp w)\<lparr>cache := evict_bytes ?h (cached_bytes_limit (disp w)) ?new\<rparr>"
    using flight_slot(1) [OF cp mem] by (simp add: account_response_def)
  have "cache_part ?v"
    using evict_bytes_inv [OF new size] evict_bytes_within [OF new size] unfolding cache_part_def d by simp
  moreover have "execution_part ?v"
  proof -
    have "seen ?h ?new = seen ?h ?c" by (rule seen_account)
    then show ?thesis using ep ex(1) unfolding execution_part_def d by (auto simp: evict_seen)
  qed
  moreover have "waiter_part ?v"
  proof -
    have "unnotified ?v = unnotified w" using ex by (auto simp: unnotified_def)
    then show ?thesis using wp unfolding waiter_part_def d by simp
  qed
  ultimately show ?thesis by (simp add: world_inv_def)
qed

lemma waiter_update_inv:
  assumes "world_inv w" "waiter_ok (slot_heap (disp w)) (unnotified w) v"
  shows "world_inv (w\<lparr>waiters := (waiters w)[i := v]\<rparr>)"
  using assms set_update_subset_insert [of "waiters w" i v]
  by (auto simp: world_inv_def cache_part_def execution_part_def waiter_part_def flight_def unnotified_def)

lemma wait_ok:
  "waiter_ok h N v \<Longrightarrow>
   waiter_ok h N (v\<lparr>waiter_phase := wait_for_response (h ! waiter_slot v) (waiter_phase v)\<rparr>)"
  by (cases "waiter_phase v") (auto simp: waiter_ok_def split: option.splits)

lemma world_inv_step [invariant_intros]: "dispatch_step cx w v \<Longrightarrow> world_inv w \<Longrightarrow> world_inv v"
proof (induction rule: dispatch_step_induct)
  case (step_clock w t)
  then show ?case
    by (simp add: world_inv_def cache_part_def execution_part_def waiter_part_def flight_def unnotified_def)
next
  case (step_renew w lease d)
  then show ?case
    by (auto simp: renew_authority_def world_inv_def cache_part_def execution_part_def
        waiter_part_def flight_def unnotified_def split: sum.splits)
next
  case (step_arrive w request v reply)
  then show ?case using arrive_inv by blast
next
  case (step_publish i w ex response result)
  then show ?case using publish_inv by blast
next
  case (step_notify i w ex response)
  then show ?case using notify_inv by blast
next
  case (step_account w xs ex ys response)
  then show ?case using account_inv by blast
next
  case (step_wait i w v)
  then show ?case
    by (intro waiter_update_inv wait_ok) (auto simp: world_inv_def waiter_part_def)
next
  case (step_disconnect i w)
  then have "waiter_ok (slot_heap (disp w)) (unnotified w) (waiters w ! i)"
    by (simp add: world_inv_def waiter_part_def)
  then have "waiter_ok (slot_heap (disp w)) (unnotified w) ((waiters w ! i)\<lparr>waiter_phase := WaitDropped\<rparr>)"
    by (simp add: waiter_ok_def)
  with step_disconnect show ?case by (simp add: waiter_update_inv)
qed

lemma initial_world_inv: "world_inv (initial_world limits)"
  by (auto simp: world_inv_def cache_part_def execution_part_def waiter_part_def flight_def
      initial_world_def new_dispatcher_def response_cache_default_def cache_inv_def slots_wf_def
      seen_def keys_dom_lookup Mapping.lookup_empty)

lemma world_inv_run: "dispatch_run cx w v \<Longrightarrow> world_inv w \<Longrightarrow> world_inv v"
  by (induction rule: dispatch_run.induct) (auto intro: world_inv_step)

section \<open>Slots without a response have an execution\<close>

definition pending_part :: "dispatch_world \<Rightarrow> bool" where
  "pending_part w \<longleftrightarrow>
     (\<forall>sid < length (slot_heap (disp w)). slot_response (slot_heap (disp w) ! sid) = None \<longrightarrow>
        (\<exists>ex \<in> set (executions w). task_slot ex = sid \<and> task_response ex = None))"

lemma arrive_pending:
  assumes "pending_part w" "arrive cx w request = (v, reply)"
  shows "pending_part v"
proof -
  obtain d ex where d: "dispatch_connected cx (wclock w) (disp w) request = (d, reply, ex)"
    using assms(2) by (cases "dispatch_connected cx (wclock w) (disp w) request") (auto simp: arrive_def)
  note v = assms(2) [unfolded arrive_def d, simplified, symmetric]
  from d show ?thesis
    by (cases rule: dispatch_cases)
       (use assms(1) v in \<open>auto simp: pending_part_def elected_dispatcher_def Let_def spawn_execution_def
          nth_append less_Suc_eq\<close>)
qed

lemma pending_step: "dispatch_step cx w v \<Longrightarrow> pending_part w \<Longrightarrow> pending_part v"
proof (induction rule: dispatch_step_induct)
  case (step_renew w lease d)
  then show ?case by (auto simp: renew_authority_def pending_part_def split: sum.splits)
next
  case (step_arrive w request v reply)
  then show ?case using arrive_pending by blast
next
  case (step_publish i w ex response result)
  show ?case
    unfolding pending_part_def
  proof (intro allI impI)
    fix sid
    let ?v = "w\<lparr>disp := publish_response (disp w) (task_slot ex) response,
      executions := (executions w)[i := ex\<lparr>task_response := Some response\<rparr>]\<rparr>"
    assume a: "sid < length (slot_heap (disp ?v))" "slot_response (slot_heap (disp ?v) ! sid) = None"
    then have "task_slot ex \<noteq> sid" by (auto simp: publish_response_def)
    with a step_publish.prems obtain x where
      x: "x \<in> set (executions w)" "task_slot x = sid" "task_response x = None"
      by (auto simp: pending_part_def publish_response_def)
    then obtain k where k: "k < length (executions w)" "executions w ! k = x" by (meson in_set_conv_nth)
    with x \<open>task_slot ex \<noteq> sid\<close> step_publish(2) have "k \<noteq> i" by auto
    with k have "x \<in> set (executions ?v)" by (auto simp: in_set_conv_nth intro!: exI [of _ k])
    with x show "\<exists>x \<in> set (executions ?v). task_slot x = sid \<and> task_response x = None" by blast
  qed
next
  case (step_notify i w ex response)
  let ?f = "\<lambda>ex. (task_slot ex, task_response ex)"
  have "set (map ?f ((executions w)[i := ex\<lparr>task_notified := True\<rparr>])) = set (map ?f (executions w))"
    using step_notify by (simp add: map_project_update)
  moreover have "pending_part u \<longleftrightarrow> (\<forall>sid < length (slot_heap (disp u)).
      slot_response (slot_heap (disp u) ! sid) = None \<longrightarrow> (sid, None) \<in> set (map ?f (executions u)))" for u
    by (force simp: pending_part_def)
  ultimately show ?case using step_notify.prems by simp
next
  case (step_account w xs ex ys response)
  then show ?case by (auto simp: pending_part_def account_response_def)
qed (auto simp: pending_part_def)

lemma pending_run: "dispatch_run cx w v \<Longrightarrow> pending_part w \<Longrightarrow> pending_part v"
  by (induction rule: dispatch_run.induct) (auto intro: pending_step)

section \<open>A slot belongs to one election\<close>

text \<open>The slots are numbered like the elections: slot \<open>sid\<close> was allocated for the request with the
  identifier and the fingerprint of election \<open>sid\<close>, and the cache lists it under no other identifier.\<close>

definition election_part :: "dispatch_world \<Rightarrow> bool" where
  "election_part w \<longleftrightarrow>
     map snd (elections w) = map slot_fingerprint (slot_heap (disp w)) \<and>
     (\<forall>request_id sid. Mapping.lookup (slots (cache (disp w))) request_id = Some sid \<longrightarrow>
        sid < length (elections w) \<and> fst (elections w ! sid) = request_id)"

definition listed_within :: "response_cache \<Rightarrow> response_cache \<Rightarrow> bool" where
  "listed_within c c' \<longleftrightarrow>
     (\<forall>request_id sid. Mapping.lookup (slots c) request_id = Some sid \<longrightarrow>
        Mapping.lookup (slots c') request_id = Some sid)"

lemma listed_pop: "listed_within c c' \<Longrightarrow> listed_within (pop_response h c) c'"
  by (auto simp: listed_within_def pop_response_def remove_cached_response_def Let_def lookup_delete'
      split: list.splits option.splits if_splits)

lemma listed_evict_requests: "listed_within (fst (evict_requests h m c)) c"
  by (rule request_eviction.loop_invariant [where I = "\<lambda>d. listed_within d c"])
     (rule listed_pop, assumption, simp add: listed_within_def)

lemma listed_evict_bytes: "slots c = slots c' \<Longrightarrow> listed_within (evict_bytes h m c) c'"
  by (rule byte_eviction.loop_invariant [where I = "\<lambda>d. listed_within d c'"])
     (rule listed_pop, assumption, simp add: listed_within_def)

lemma election_part_elect:
  assumes "election_part w" "elections v = elections w @ [(request_id, slot_fingerprint slot)]"
    "slot_heap (disp v) = slot_heap (disp w) @ [slot]" "listed_within c (cache (disp w))"
    "slots (cache (disp v)) = Mapping.update request_id (length (slot_heap (disp w))) (slots c)"
  shows "election_part v"
proof -
  have len: "length (slot_heap (disp w)) = length (elections w)"
    using assms(1) unfolding election_part_def by (metis length_map)
  have "sid < length (elections v) \<and> fst (elections v ! sid) = i"
    if "Mapping.lookup (slots (cache (disp v))) i = Some sid" for i sid
  proof (cases "i = request_id")
    case True
    with that show ?thesis by (auto simp: assms(2,5) len lookup_update')
  next
    case False
    with that assms(4) have "Mapping.lookup (slots (cache (disp w))) i = Some sid"
      by (simp add: assms(5) lookup_update' listed_within_def)
    with assms(1) have "sid < length (elections w) \<and> fst (elections w ! sid) = i"
      by (simp add: election_part_def)
    then show ?thesis by (simp add: assms(2) nth_append)
  qed
  moreover have "map snd (elections v) = map slot_fingerprint (slot_heap (disp v))"
    using assms(1) by (simp add: assms(2,3) election_part_def)
  ultimately show ?thesis by (simp add: election_part_def)
qed

lemma election_part_listed:
  assumes "election_part w" "elections v = elections w"
    "map slot_fingerprint (slot_heap (disp v)) = map slot_fingerprint (slot_heap (disp w))"
    "listed_within (cache (disp v)) (cache (disp w))"
  shows "election_part v"
  using assms unfolding election_part_def listed_within_def by metis

lemma arrive_election:
  assumes "election_part w" "arrive cx w request = (v, reply)"
  shows "election_part v"
proof -
  obtain d ex where d: "dispatch_connected cx (wclock w) (disp w) request = (d, reply, ex)"
    using assms(2) by (cases "dispatch_connected cx (wclock w) (disp w) request") (auto simp: arrive_def)
  note v = assms(2) [unfolded arrive_def d, simplified, symmetric]
  from d show ?thesis
  proof (cases rule: dispatch_cases)
    case (elect r g)
    show ?thesis
      by (rule election_part_elect [OF assms(1) _ _ listed_evict_requests])
         (use v elect in \<open>simp_all add: elected_dispatcher_def Let_def spawn_execution_def\<close>)
  next
    case (full r)
    show ?thesis
      by (rule election_part_listed [OF assms(1)]) (use v full in \<open>simp_all add: listed_evict_requests\<close>)
  next
    case (same r)
    show ?thesis
      by (rule election_part_listed [OF assms(1)]) (use v same(1,2) in \<open>simp_all add: listed_within_def\<close>)
  qed
qed

lemma election_step: "dispatch_step cx w v \<Longrightarrow> election_part w \<Longrightarrow> election_part v"
proof (induction rule: dispatch_step_induct)
  case (step_renew w lease d)
  then show ?case by (auto simp: renew_authority_def election_part_def split: sum.splits)
next
  case (step_arrive w request v reply)
  then show ?case using arrive_election by blast
next
  case (step_publish i w ex response result)
  then show ?case
    by (intro election_part_listed [OF step_publish.prems])
       (simp_all add: publish_response_def listed_within_def list_eq_iff_nth_eq publish_fingerprint)
next
  case (step_account w xs ex ys response)
  then show ?case
    by (intro election_part_listed [OF step_account.prems])
       (simp_all add: account_response_def listed_evict_bytes, simp add: listed_within_def)
qed (simp_all add: election_part_def)

lemma election_run: "dispatch_run cx w v \<Longrightarrow> election_part w \<Longrightarrow> election_part v"
  by (induction rule: dispatch_run.induct) (auto intro: election_step)

lemma initial_election: "election_part (initial_world limits)"
  by (simp add: election_part_def initial_world_def new_dispatcher_def response_cache_default_def Mapping.lookup_empty)

lemma elections_prefix_step: "dispatch_step cx w v \<Longrightarrow> prefix (elections w) (elections v)"
  by (induction rule: dispatch_step_induct) (auto simp: arrive_def split_beta)

lemma elections_prefix: "dispatch_run cx w v \<Longrightarrow> prefix (elections w) (elections v)"
  by (induction rule: dispatch_run.induct) (auto intro: elections_prefix_step prefix_order.trans)

section \<open>Published responses never change\<close>

definition heap_grows :: "slot_heap \<Rightarrow> slot_heap \<Rightarrow> bool" where
  "heap_grows h h' \<longleftrightarrow> length h \<le> length h' \<and>
     (\<forall>k < length h. slot_fingerprint (h' ! k) = slot_fingerprint (h ! k) \<and>
        (\<forall>r. slot_response (h ! k) = Some r \<longrightarrow> slot_response (h' ! k) = Some r))"

lemma heap_grows_refl [simp]: "heap_grows h h" by (simp add: heap_grows_def)

lemma heap_grows_trans: "heap_grows h h' \<Longrightarrow> heap_grows h' h'' \<Longrightarrow> heap_grows h h''"
  by (auto simp: heap_grows_def)

lemma arrive_grows:
  assumes "arrive cx w request = (v, reply)"
  shows "heap_grows (slot_heap (disp w)) (slot_heap (disp v))"
proof -
  obtain d ex where d: "dispatch_connected cx (wclock w) (disp w) request = (d, reply, ex)"
    using assms by (cases "dispatch_connected cx (wclock w) (disp w) request") (auto simp: arrive_def)
  note v = assms [unfolded arrive_def d, simplified, symmetric]
  from d show ?thesis
    by (cases rule: dispatch_cases)
       (use v in \<open>auto simp: heap_grows_def elected_dispatcher_def Let_def nth_append\<close>)
qed

lemma heap_grows_publish:
  "slot_response (h ! sid) = None \<Longrightarrow> heap_grows h (h[sid := (h ! sid)\<lparr>slot_response := Some r\<rparr>])"
  by (cases "sid < length h") (auto simp: heap_grows_def nth_list_update list_update_beyond)

lemma heap_grows_step:
  "dispatch_step cx w v \<Longrightarrow> world_inv w \<Longrightarrow> heap_grows (slot_heap (disp w)) (slot_heap (disp v))"
proof (induction rule: dispatch_step_induct)
  case (step_renew w lease d)
  then show ?case by (auto simp: renew_authority_def split: sum.splits)
next
  case (step_arrive w request v reply)
  then show ?case using arrive_grows by blast
next
  case (step_publish i w ex response result)
  then have "slot_response (slot_heap (disp w) ! task_slot ex) = None"
    by (auto simp: world_inv_def execution_part_def)
  then show ?case by (simp add: publish_response_def heap_grows_publish)
next
  case (step_account w xs ex ys response)
  then show ?case by (simp add: account_response_def)
qed simp_all

lemma heap_grows_run:
  "dispatch_run cx w v \<Longrightarrow> world_inv w \<Longrightarrow> heap_grows (slot_heap (disp w)) (slot_heap (disp v))"
  by (induction rule: dispatch_run.induct)
     (auto intro: heap_grows_trans heap_grows_step world_inv_run)

section \<open>Waiters make progress\<close>

lemma dispatch_run_trans: "dispatch_run cx v u \<Longrightarrow> dispatch_run cx w v \<Longrightarrow> dispatch_run cx w u"
  by (induction rule: dispatch_run.induct) (auto intro: dispatch_next)

lemma dispatch_run_single: "dispatch_step cx w v \<Longrightarrow> dispatch_run cx w v"
  by (rule dispatch_next [OF dispatch_refl])

definition gets_response :: "wire_codec \<Rightarrow> dispatch_world \<Rightarrow> nat \<Rightarrow> string \<Rightarrow> bool" where
  "gets_response cx w i r \<longleftrightarrow>
     (\<exists>u. task_run cx w u \<and> i < length (waiters u) \<and> waiter_phase (waiters u ! i) = WaitReturned r)"

lemma task_run_trans: "task_run cx v u \<Longrightarrow> task_run cx w v \<Longrightarrow> task_run cx w u"
  by (induction rule: task_run.induct) (auto intro: task_next)

lemma task_run_single: "task_step cx w v \<Longrightarrow> task_run cx w v"
  by (rule task_next [OF task_refl])

lemma gets_response_step: "task_step cx w v \<Longrightarrow> gets_response cx v i r \<Longrightarrow> gets_response cx w i r"
  unfolding gets_response_def using task_run_trans task_run_single by blast

text \<open>Once the response is there, the waiter finds it by steps that leave the slots alone: a
  notification that is still due, and its own polls.\<close>

definition quiet_task_step :: "wire_codec \<Rightarrow> dispatch_world \<Rightarrow> dispatch_world \<Rightarrow> bool" where
  "quiet_task_step cx w v \<longleftrightarrow> task_step cx w v \<and> slot_heap (disp v) = slot_heap (disp w)"

definition finds_response :: "wire_codec \<Rightarrow> dispatch_world \<Rightarrow> nat \<Rightarrow> string \<Rightarrow> bool" where
  "finds_response cx w i r \<longleftrightarrow>
     (\<exists>u. (quiet_task_step cx)\<^sup>*\<^sup>* w u \<and> i < length (waiters u) \<and> waiter_phase (waiters u ! i) = WaitReturned r)"

lemma quiet_tasks_run: "(quiet_task_step cx)\<^sup>*\<^sup>* w u \<Longrightarrow> task_run cx w u \<and> slot_heap (disp u) = slot_heap (disp w)"
  by (induction rule: rtranclp_induct) (auto simp: quiet_task_step_def intro: task_refl task_next)

lemma finds_gets: "finds_response cx w i r \<Longrightarrow> gets_response cx w i r"
  unfolding finds_response_def gets_response_def using quiet_tasks_run by blast

lemma finds_response_step:
  "task_step cx w v \<Longrightarrow> slot_heap (disp v) = slot_heap (disp w) \<Longrightarrow> finds_response cx v i r \<Longrightarrow> finds_response cx w i r"
  using converse_rtranclp_into_rtranclp [of "quiet_task_step cx" w v]
  unfolding finds_response_def by (auto simp: quiet_task_step_def)

lemma finds_returned:
  "i < length (waiters w) \<Longrightarrow> waiter_phase (waiters w ! i) = WaitReturned r \<Longrightarrow> finds_response cx w i r"
  unfolding finds_response_def by blast

lemma registered_finds:
  assumes "i < length (waiters w)" "waiter_phase (waiters w ! i) = WaitRegistered n"
    "slot_response (slot_heap (disp w) ! waiter_slot (waiters w ! i)) = Some r"
  shows "finds_response cx w i r"
  by (rule finds_response_step [OF task_wait [OF assms(1) HOL.refl]], simp, rule finds_returned)
     (use assms in simp_all)

lemma start_finds:
  assumes "i < length (waiters w)" "waiter_phase (waiters w ! i) = WaitStart"
    "slot_response (slot_heap (disp w) ! waiter_slot (waiters w ! i)) = Some r"
  shows "finds_response cx w i r"
  by (rule finds_response_step [OF task_wait [OF assms(1) HOL.refl]], simp, rule registered_finds [where n = False])
     (use assms in simp_all)

lemma parked_finds:
  assumes "i < length (waiters w)" "waiter_phase (waiters w ! i) = WaitParked True"
    "slot_response (slot_heap (disp w) ! waiter_slot (waiters w ! i)) = Some r"
  shows "finds_response cx w i r"
  by (rule finds_response_step [OF task_wait [OF assms(1) HOL.refl]], simp, rule start_finds)
     (use assms in simp_all)

lemma published_finds:
  assumes "world_inv w" "i < length (waiters w)" "waiter_phase (waiters w ! i) \<noteq> WaitDropped"
    "slot_response (slot_heap (disp w) ! waiter_slot (waiters w ! i)) = Some r"
  shows "finds_response cx w i r"
proof -
  let ?sid = "waiter_slot (waiters w ! i)"
  have ok: "waiter_ok (slot_heap (disp w)) (unnotified w) (waiters w ! i)"
    using assms(1,2) by (simp add: world_inv_def waiter_part_def)
  show ?thesis
  proof (cases "waiter_phase (waiters w ! i)")
    case WaitStart
    with assms show ?thesis by (intro start_finds)
  next
    case (WaitRegistered n)
    with assms show ?thesis by (intro registered_finds)
  next
    case (WaitParked n)
    with ok assms(4) consider "n" | "\<not> n" "?sid \<in> unnotified w" by (auto simp: waiter_ok_def)
    then show ?thesis
    proof cases
      case 1
      with assms WaitParked show ?thesis by (intro parked_finds) simp_all
    next
      case 2
      then obtain k where k: "k < length (executions w)" "task_slot (executions w ! k) = ?sid"
        "\<not> task_notified (executions w ! k)" by (auto simp: unnotified_def in_set_conv_nth)
      then have "task_response (executions w ! k) = Some r"
        using assms(1,4) by (auto simp: world_inv_def execution_part_def dest!: bspec [OF _ nth_mem [OF k(1)]])
      note step = task_notify [OF k(1) HOL.refl this k(3)]
      show ?thesis
        by (rule finds_response_step [OF step], simp, rule parked_finds)
           (use assms WaitParked k(2) in \<open>simp_all add: notify_slot_def\<close>)
    qed
  next
    case (WaitReturned r')
    with ok assms(2,4) show ?thesis by (auto simp: waiter_ok_def intro: finds_returned)
  qed (use assms(3) in simp)
qed

lemmas published_gets = published_finds [THEN finds_gets]

lemma waiter_served:
  assumes inv: "world_inv w" "pending_part w" and "i < length (waiters w)"
    and "waiter_phase (waiters w ! i) \<noteq> WaitDropped"
  shows "\<exists>r. gets_response cx w i r \<and>
    (\<forall>s. slot_response (slot_heap (disp w) ! waiter_slot (waiters w ! i)) = Some s \<longrightarrow> r = s)"
proof (cases "slot_response (slot_heap (disp w) ! waiter_slot (waiters w ! i))")
  case (Some r)
  with published_gets [OF inv(1) assms(3,4)] show ?thesis by auto
next
  case None
  let ?sid = "waiter_slot (waiters w ! i)"
  have sid: "?sid < length (slot_heap (disp w))"
    using inv(1) assms(3) by (simp add: world_inv_def waiter_part_def waiter_ok_def)
  with None inv(2) obtain k where k: "k < length (executions w)"
    "task_slot (executions w ! k) = ?sid" "task_response (executions w ! k) = None"
    unfolding pending_part_def by (metis in_set_conv_nth)
  let ?r = "execution_response cx (max_error_bytes (disp w)) (task_request_id (executions w ! k)) (Inl [])"
  let ?v = "w\<lparr>disp := publish_response (disp w) (task_slot (executions w ! k)) ?r,
      executions := (executions w)[k := (executions w ! k)\<lparr>task_response := Some ?r\<rparr>]\<rparr>"
  have step: "task_step cx w ?v"
    by (rule task_publish [OF k(1) HOL.refl k(3) HOL.refl])
  have "gets_response cx ?v i ?r"
    using assms(3,4) sid k(2)
    by (intro published_gets world_inv_step [OF step_task [OF step] inv(1)]) (simp_all add: publish_response_def)
  with None show ?thesis using gets_response_step [OF step] by auto
qed

section \<open>Where an execution comes from\<close>

lemma elections_grow: "dispatch_run cx w v \<Longrightarrow> set (elections w) \<subseteq> set (elections v)"
  by (drule elections_prefix) (auto simp: prefix_def)

lemma dispatch_spawns:
  assumes "dispatch_connected cx t d request = (d', reply, Some ex)"
  shows "req_protocol_version request = PROTOCOL_VERSION \<and>
    (\<exists>lease. req_authority request = Some lease \<and>
       grant (authorities d) t lease = Inr (authorities d', task_authority ex) \<and>
       task_request ex = req_request request)"
proof -
  obtain lease r g where g: "req_protocol_version request = PROTOCOL_VERSION"
    "req_authority request = Some lease" "grant (authorities d) t lease = Inr (r, g)"
    "dispatch_with_authority cx (d\<lparr>authorities := r\<rparr>) request g = (d', reply, Some ex)"
    using assms by (auto simp: dispatch_connected_def split: if_splits option.splits sum.splits prod.splits)
  from g(4) have "authorities d' = r" "task_authority ex = g" "task_request ex = req_request request"
    by (auto simp: dispatch_with_authority_def join_slot_def Let_def spawn_execution_def
        split: option.splits prod.splits bool.splits if_splits)
  with g show ?thesis by simp
qed

section \<open>Properties\<close>

definition dispatch_reachable :: "wire_codec \<Rightarrow> execution_limits \<Rightarrow> dispatch_world \<Rightarrow> bool" where
  "dispatch_reachable cx limits w \<longleftrightarrow> dispatch_run cx (initial_world limits) w"

lemma reachable_world_inv:
  assumes "dispatch_reachable cx limits w"
  shows "world_inv w" "pending_part w"
  using assms initial_world_inv world_inv_run pending_run
  by (auto simp: dispatch_reachable_def pending_part_def initial_world_def new_dispatcher_def)

text \<open>What every reachable dispatcher satisfies.\<close>

definition dispatch_inv :: "dispatch_world \<Rightarrow> bool" where
  "dispatch_inv w \<longleftrightarrow> world_inv w \<and> pending_part w \<and> election_part w"

lemma dispatch_inv_run: "dispatch_run cx w v \<Longrightarrow> dispatch_inv w \<Longrightarrow> dispatch_inv v"
  unfolding dispatch_inv_def using world_inv_run pending_run election_run by blast

lemma reachable_dispatch_inv: "dispatch_reachable cx limits w \<Longrightarrow> dispatch_inv w"
  using reachable_world_inv election_run [OF _ initial_election]
  by (auto simp: dispatch_inv_def dispatch_reachable_def)

text \<open>Slot \<open>sid\<close> was allocated for this very request: same identifier and same fingerprint.\<close>

definition slot_of :: "wire_codec \<Rightarrow> dispatch_world \<Rightarrow> request_envelope \<Rightarrow> nat \<Rightarrow> bool" where
  "slot_of cx w request sid \<longleftrightarrow>
     sid < length (slot_heap (disp w)) \<and> sid < length (elections w) \<and>
     elections w ! sid = (req_request_id request, envelope_fingerprint cx request)"

lemma slot_of_grows:
  "slot_of cx w request sid \<Longrightarrow> heap_grows (slot_heap (disp w)) (slot_heap (disp v)) \<Longrightarrow>
   prefix (elections w) (elections v) \<Longrightarrow> slot_of cx v request sid"
  by (auto simp: slot_of_def heap_grows_def prefix_def nth_append)

lemma election_part_slot:
  assumes "election_part w" "Mapping.lookup (slots (cache (disp w))) (req_request_id request) = Some sid"
    "slot_fingerprint (slot_heap (disp w) ! sid) = envelope_fingerprint cx request"
  shows "slot_of cx w request sid"
proof -
  have len: "length (elections w) = length (slot_heap (disp w))"
    using assms(1) unfolding election_part_def by (metis length_map)
  have sid: "sid < length (elections w)" "fst (elections w ! sid) = req_request_id request"
    using assms(1,2) by (simp_all add: election_part_def)
  moreover have "snd (elections w ! sid) = slot_fingerprint (slot_heap (disp w) ! sid)"
    using assms(1) sid(1) len unfolding election_part_def by (metis nth_map)
  ultimately show ?thesis using assms(3) len by (simp add: slot_of_def prod_eq_iff)
qed

text \<open>A request that has to wait waits for a slot that was allocated for it.\<close>

lemma arrive_slot:
  assumes "election_part w" "arrive cx w request = (v, AwaitSlot sid)"
  shows "slot_of cx v request sid"
proof -
  obtain d ex where d: "dispatch_connected cx (wclock w) (disp w) request = (d, AwaitSlot sid, ex)"
    using assms(2) by (cases "dispatch_connected cx (wclock w) (disp w) request") (auto simp: arrive_def)
  note v = assms(2) [unfolded arrive_def d, simplified, symmetric]
  note ev = arrive_election [OF assms]
  have lookup: "Mapping.lookup (slots (cache d)) (req_request_id request) = Some sid \<and>
      slot_fingerprint (slot_heap d ! sid) = envelope_fingerprint cx request"
    using d by (cases rule: dispatch_cases) (auto simp: elected_dispatcher_def Let_def lookup_update')
  show ?thesis by (rule election_part_slot [OF ev]) (use lookup v in simp_all)
qed

lemma step_limits: "dispatch_step cx w v \<Longrightarrow>
    cached_requests_limit (disp v) = cached_requests_limit (disp w) \<and>
    cached_bytes_limit (disp v) = cached_bytes_limit (disp w) \<and>
    max_error_bytes (disp v) = max_error_bytes (disp w)"
proof (induction rule: dispatch_step_induct)
  case (step_arrive w request v reply)
  obtain d ex where d: "dispatch_connected cx (wclock w) (disp w) request = (d, reply, ex)"
    using step_arrive by (cases "dispatch_connected cx (wclock w) (disp w) request") (auto simp: arrive_def)
  note v = step_arrive [unfolded arrive_def d, simplified, symmetric]
  from d show ?case
    by (cases rule: dispatch_cases) (use v in \<open>auto simp: elected_dispatcher_def Let_def\<close>)
qed (auto simp: renew_authority_def publish_response_def account_response_def split: sum.splits)

lemma run_limits: "dispatch_run cx w v \<Longrightarrow>
    cached_requests_limit (disp v) = cached_requests_limit (disp w) \<and>
    cached_bytes_limit (disp v) = cached_bytes_limit (disp w) \<and>
    max_error_bytes (disp v) = max_error_bytes (disp w)"
  by (induction rule: dispatch_run.induct) (auto dest: step_limits)

text \<open>A codec that tells \<open>GitStatus\<close> from other requests, and one request.\<close>

definition demo_codec :: wire_codec where
  "demo_codec =
     \<lparr>sha256_digest = (\<lambda>b. of_nat (length b)),
      request_to_vec = (\<lambda>(s, r). if r = GitStatus then [] else ''x''),
      response_to_string = (\<lambda>r. case r of Success _ _ _ \<Rightarrow> ''ok'' | Error _ _ e \<Rightarrow> e)\<rparr>"

definition demo_request :: "tool_request \<Rightarrow> request_envelope" where
  "demo_request r = \<lparr>req_protocol_version = PROTOCOL_VERSION, req_request_id = 9,
     req_authority = Some (demo_lease 1), req_request = r\<rparr>"

definition demo_cache :: response_cache where
  "demo_cache = response_cache_default\<lparr>slots := Mapping.update 9 0 Mapping.empty\<rparr>"

definition demo_elected :: dispatch_world where
  "demo_elected =
     \<lparr>disp = (new_dispatcher standalone)\<lparr>cache := demo_cache,
        slot_heap := [\<lparr>slot_fingerprint = 0, slot_response = None\<rparr>], authorities := demo_registry\<rparr>,
      executions = [\<lparr>task_request_id = 9, task_request = GitStatus, task_authority = demo_guard,
        task_slot = 0, task_response = None, task_notified = False\<rparr>],
      waiters = [\<lparr>waiter_slot = 0, waiter_phase = WaitStart\<rparr>],
      elections = [(9, 0)], wclock = 0\<rparr>"

lemma demo_arrive:
  "arrive demo_codec (initial_world standalone) (demo_request GitStatus) = (demo_elected, AwaitSlot 0)"
  by (simp add: arrive_def dispatch_connected_def initial_world_def demo_request_def demo_grant
      new_dispatcher_def dispatch_with_authority_def demo_elected_def demo_cache_def
      response_cache_default_def evict_requests.simps requests_full_def standalone_def
      join_slot_def envelope_fingerprint_def request_fingerprint_def demo_codec_def spawn_execution_def
      Mapping.lookup_empty)

lemma demo_regrant: "grant demo_registry 0 (demo_lease 1) = Inr (demo_registry, demo_guard)"
  by (simp add: grant_def demo_registry_def demo_lease_def demo_guard_def duration_from_millis_def
      MAX_AUTHORITY_LEASE_MS_def)

lemma demo_elected_reachable: "dispatch_reachable demo_codec standalone demo_elected"
  unfolding dispatch_reachable_def
  by (rule dispatch_run_single [OF step_arrive [OF demo_arrive]])

text \<open>C1.  At most one execution per request identifier: whatever requests, retries,
  disconnects, completions and evictions happen, in any order, no identifier is ever elected
  for execution twice in the lifetime of a dispatcher.\<close>

theorem at_most_one_execution:
  assumes "dispatch_reachable cx limits w"
  shows "distinct (map fst (elections w)) \<and>
    task_request_id ` set (executions w) \<subseteq> fst ` set (elections w)"
proof -
  note inv = reachable_world_inv(1) [OF assms]
  have "task_request_id ex \<in> fst ` set (elections w)" if "ex \<in> set (executions w)" for ex
  proof -
    have "seen (slot_heap (disp w)) (cache (disp w)) (task_request_id ex) \<noteq> None"
      using flight_slot(1) [OF _ that] inv by (simp add: world_inv_def seen_def)
    then show ?thesis
      using inv by (metis world_inv_def execution_part_def map_of_eq_None_iff)
  qed
  then show ?thesis using inv by (auto simp: world_inv_def execution_part_def)
qed

theorem at_most_one_execution_witness:
  "distinct (map fst (elections demo_elected)) \<and> elections demo_elected \<noteq> []"
  using at_most_one_execution [OF demo_elected_reachable] by (simp add: demo_elected_def)

text \<open>The specification of idempotent dispatch: a map from the identifiers used so far to
  the fingerprint each was first used with.\<close>

definition once_dispatch ::
  "(uuid \<rightharpoonup> fingerprint) \<Rightarrow> uuid \<Rightarrow> fingerprint \<Rightarrow> (uuid \<rightharpoonup> fingerprint) \<times> bool" where
  "once_dispatch m request_id fp =
     (case m request_id of None \<Rightarrow> (m(request_id \<mapsto> fp), True) | Some _ \<Rightarrow> (m, False))"

definition used :: "dispatch_world \<Rightarrow> uuid \<rightharpoonup> fingerprint" where
  "used w = seen (slot_heap (disp w)) (cache (disp w))"

text \<open>C2.  The cache implements idempotent dispatch: seen through \<open>used\<close>, a request that
  waits for a response is one step of the specification, and the code spawns an execution
  exactly when the specification says the identifier is new; a request that is answered at
  once spawns nothing and changes nothing of the map, although it may have evicted
  responses from the cache.\<close>

theorem dispatch_refines_once:
  assumes "dispatch_reachable cx limits w" "arrive cx w request = (v, reply)"
  shows "case reply of
      AwaitSlot sid \<Rightarrow>
        once_dispatch (used w) (req_request_id request) (envelope_fingerprint cx request) =
          (used v, length (executions v) = Suc (length (executions w))) \<and>
        used v (req_request_id request) = Some (envelope_fingerprint cx request)
    | Reply _ \<Rightarrow> used v = used w \<and> executions v = executions w"
proof -
  note inv = reachable_world_inv(1) [OF assms(1)]
  obtain d ex where d: "dispatch_connected cx (wclock w) (disp w) request = (d, reply, ex)"
    using assms(2) by (cases "dispatch_connected cx (wclock w) (disp w) request") (auto simp: arrive_def)
  note v = assms(2) [unfolded arrive_def d, simplified, symmetric]
  have cp: "cache_inv (slot_heap (disp w)) (flight w) (cache (disp w))"
    using inv by (simp add: world_inv_def cache_part_def)
  from d show ?thesis
  proof (cases rule: dispatch_cases)
    case (same r)
    with v show ?thesis
      by (auto simp: once_dispatch_def used_def seen_def split: dispatch_reply.splits option.splits)
  next
    case (full r)
    with v show ?thesis by (simp add: used_def evict_seen)
  next
    case (elect r g)
    have "cache_inv (slot_heap (disp w)) (flight w)
        (fst (evict_requests (slot_heap (disp w)) (cached_requests_limit (disp w)) (cache (disp w))))"
      using evict_requests_inv [OF cp] by blast
    with elect v have "used v = (used w)(req_request_id request \<mapsto> envelope_fingerprint cx request)"
      by (simp add: used_def elected_dispatcher_def Let_def seen_elect evict_seen)
    with elect v show ?thesis by (simp add: once_dispatch_def used_def)
  qed
qed

theorem dispatch_refines_once_witness:
  "once_dispatch (used (initial_world standalone)) 9 0 = (used demo_elected, True)"
proof -
  have "dispatch_reachable demo_codec standalone (initial_world standalone)"
    unfolding dispatch_reachable_def by (rule dispatch_refl)
  from dispatch_refines_once [OF this demo_arrive] show ?thesis
    by (simp add: demo_request_def envelope_fingerprint_def request_fingerprint_def demo_codec_def
        demo_elected_def initial_world_def)
qed

text \<open>A stale retry never executes: once an identifier has been elected, any later
  request that carries it, before or after its response was evicted, spawns no execution;
  it joins the slot with the same fingerprint or is answered at once.\<close>

theorem elected_never_reexecuted:
  assumes "dispatch_reachable cx limits w" "request_id \<in> fst ` set (elections w)"
    and "dispatch_run cx w v" "req_request_id request = request_id"
    and "arrive cx v request = (u, reply)"
  shows "executions u = executions v \<and> elections u = elections v \<and>
    (\<forall>sid. reply = AwaitSlot sid \<longrightarrow>
       slot_fingerprint (slot_heap (disp v) ! sid) = envelope_fingerprint cx request)"
proof -
  have "dispatch_reachable cx limits v"
    using assms(1,3) dispatch_run_trans unfolding dispatch_reachable_def by blast
  then have seen: "map_of (elections v) = seen (slot_heap (disp v)) (cache (disp v))"
    using reachable_world_inv(1) by (simp add: world_inv_def execution_part_def)
  have "request_id \<in> fst ` set (elections v)"
    using image_mono [OF elections_grow [OF assms(3)], of fst] assms(2) by blast
  then have old: "seen (slot_heap (disp v)) (cache (disp v)) request_id \<noteq> None"
    unfolding seen [symmetric] by (simp add: map_of_eq_None_iff)
  obtain d ex where d: "dispatch_connected cx (wclock v) (disp v) request = (d, reply, ex)"
    using assms(5) by (cases "dispatch_connected cx (wclock v) (disp v) request") (auto simp: arrive_def)
  note u = assms(5) [unfolded arrive_def d, simplified, symmetric]
  from d show ?thesis
    by (cases rule: dispatch_cases) (use u old assms(4) in \<open>auto split: dispatch_reply.splits\<close>)
qed

theorem elected_never_reexecuted_witness:
  "elections (fst (arrive demo_codec demo_elected (demo_request (ListFiles [])))) = [(9, 0)]"
proof -
  obtain u reply where u: "arrive demo_codec demo_elected (demo_request (ListFiles [])) = (u, reply)"
    by fastforce
  have "9 \<in> fst ` set (elections demo_elected)" by (simp add: demo_elected_def)
  from elected_never_reexecuted [OF demo_elected_reachable this dispatch_refl _ u]
  have "elections u = elections demo_elected" by (simp add: demo_request_def)
  then show ?thesis unfolding u by (simp add: demo_elected_def)
qed

text \<open>Reusing an identifier for another request is rejected: when an identifier was
  first used with another fingerprint, a request that carries it with a valid lease gets the
  mismatch error, whether the first response is in flight, cached or evicted.\<close>

theorem fingerprint_mismatch_rejected:
  assumes "used w (req_request_id request) = Some f" "f \<noteq> envelope_fingerprint cx request"
    and "req_protocol_version request = PROTOCOL_VERSION" "req_authority request = Some lease"
    and "grant (authorities (disp w)) (wclock w) lease = Inr (r, g)"
  shows "snd (arrive cx w request) = Reply (mismatch_response cx (req_request_id request))"
  using assms
  by (auto simp: arrive_def dispatch_connected_def dispatch_with_authority_def join_slot_def
      used_def seen_def Let_def expired_request_response_def mismatch_response_def split_beta
      split: option.splits)

theorem fingerprint_mismatch_rejected_witness:
  "snd (arrive demo_codec demo_elected (demo_request (ListFiles []))) = Reply mismatch_message"
proof -
  note g = demo_regrant
  have "used demo_elected 9 = Some 0"
    by (simp add: used_def seen_def demo_elected_def demo_cache_def lookup_update)
  moreover have "envelope_fingerprint demo_codec (demo_request (ListFiles [])) = 1"
    by (simp add: envelope_fingerprint_def request_fingerprint_def demo_codec_def demo_request_def)
  ultimately show ?thesis
    using fingerprint_mismatch_rejected [of demo_elected "demo_request (ListFiles [])" 0 demo_codec
        "demo_lease 1" demo_registry demo_guard] g
    by (simp add: demo_request_def demo_elected_def mismatch_response_def serialize_response_def
        demo_codec_def)
qed

text \<open>C23.  Replays are identical: two waiters on one slot, whenever they return, return the
  same response, also when the slot has left the cache in between.\<close>

theorem replay_same_response:
  assumes "dispatch_reachable cx limits w" "dispatch_run cx w u"
    and "a \<in> set (waiters w)" "b \<in> set (waiters u)" "waiter_slot a = waiter_slot b"
    and "waiter_phase a = WaitReturned r" "waiter_phase b = WaitReturned s"
  shows "r = s"
proof -
  note inv = reachable_world_inv(1) [OF assms(1)]
  have "waiter_ok (slot_heap (disp w)) (unnotified w) a" "waiter_ok (slot_heap (disp u)) (unnotified u) b"
    using inv world_inv_run [OF assms(2) inv] assms(3,4) by (simp_all add: world_inv_def waiter_part_def)
  then show ?thesis
    using heap_grows_run [OF assms(2) inv] assms(5-7) by (auto simp: waiter_ok_def heap_grows_def)
qed

text \<open>The answered request arrives a second time: \<open>once_answered\<close> is the dispatcher after its
  first waiter has returned, \<open>twice_answered\<close> with the second waiter at a given point.\<close>

definition once_answered :: "string \<Rightarrow> wait_phase \<Rightarrow> dispatch_world" where
  "once_answered r phase = demo_elected\<lparr>
     disp := (disp demo_elected)\<lparr>slot_heap := [\<lparr>slot_fingerprint = 0, slot_response = Some r\<rparr>]\<rparr>,
     executions := map (\<lambda>ex. ex\<lparr>task_response := Some r\<rparr>) (executions demo_elected),
     waiters := [\<lparr>waiter_slot = 0, waiter_phase = phase\<rparr>]\<rparr>"

definition twice_answered :: "string \<Rightarrow> wait_phase \<Rightarrow> dispatch_world" where
  "twice_answered r phase = (once_answered r (WaitReturned r))\<lparr>
     waiters := [\<lparr>waiter_slot = 0, waiter_phase = WaitReturned r\<rparr>,
                 \<lparr>waiter_slot = 0, waiter_phase = phase\<rparr>]\<rparr>"

lemma once_answered_run:
  assumes "r = execution_response demo_codec (max_error_bytes (disp demo_elected)) 9 result"
  shows "dispatch_run demo_codec demo_elected (once_answered r (WaitReturned r))"
proof -
  have "dispatch_step demo_codec demo_elected (once_answered r WaitStart)"
    using task_publish [of 0 demo_elected _ r demo_codec result] assms
    by (intro step_task) (simp add: demo_elected_def once_answered_def publish_response_def)
  moreover have "dispatch_step demo_codec (once_answered r WaitStart) (once_answered r (WaitRegistered False))"
    using task_wait [of 0 "once_answered r WaitStart" _ demo_codec]
    by (intro step_task) (simp add: once_answered_def)
  moreover have "dispatch_step demo_codec (once_answered r (WaitRegistered False)) (once_answered r (WaitReturned r))"
    using task_wait [of 0 "once_answered r (WaitRegistered False)" _ demo_codec]
    by (intro step_task) (simp add: once_answered_def)
  ultimately show ?thesis by (meson dispatch_refl dispatch_next)
qed

lemma twice_answered_run:
  "dispatch_run demo_codec (once_answered r (WaitReturned r)) (twice_answered r (WaitReturned r))"
proof -
  have "arrive demo_codec (once_answered r (WaitReturned r)) (demo_request GitStatus) =
      (twice_answered r WaitStart, AwaitSlot 0)"
    by (simp add: arrive_def dispatch_connected_def once_answered_def twice_answered_def demo_elected_def
        demo_request_def demo_regrant dispatch_with_authority_def demo_cache_def lookup_update join_slot_def
        envelope_fingerprint_def request_fingerprint_def demo_codec_def)
  then have "dispatch_step demo_codec (once_answered r (WaitReturned r)) (twice_answered r WaitStart)"
    by (rule step_arrive)
  moreover have "dispatch_step demo_codec (twice_answered r WaitStart) (twice_answered r (WaitRegistered False))"
    using task_wait [of 1 "twice_answered r WaitStart" _ demo_codec]
    by (intro step_task) (simp add: twice_answered_def once_answered_def)
  moreover have "dispatch_step demo_codec (twice_answered r (WaitRegistered False)) (twice_answered r (WaitReturned r))"
    using task_wait [of 1 "twice_answered r (WaitRegistered False)" _ demo_codec]
    by (intro step_task) (simp add: twice_answered_def once_answered_def)
  ultimately show ?thesis by (meson dispatch_refl dispatch_next)
qed

theorem replay_same_response_witness:
  "\<exists>w u r. dispatch_reachable demo_codec standalone w \<and> dispatch_run demo_codec w u \<and>
     waiters w = [\<lparr>waiter_slot = 0, waiter_phase = WaitReturned r\<rparr>] \<and> length (waiters u) = 2 \<and>
     waiter_slot (waiters u ! 1) = 0 \<and> waiter_phase (waiters u ! 1) = WaitReturned r"
proof -
  obtain r where r: "r = execution_response demo_codec (max_error_bytes (disp demo_elected)) 9 (Inr (Output ''x'' False))"
    by blast
  let ?w = "once_answered r (WaitReturned r)"
  have w: "dispatch_reachable demo_codec standalone ?w"
    using demo_elected_reachable once_answered_run [OF r] dispatch_run_trans
    unfolding dispatch_reachable_def by blast
  obtain s where u: "dispatch_run demo_codec ?w (twice_answered r (WaitReturned s))"
    using twice_answered_run by blast
  have "r = s"
    by (rule replay_same_response [OF w u, of "waiters ?w ! 0" "waiters (twice_answered r (WaitReturned s)) ! 1"])
       (simp_all add: once_answered_def twice_answered_def)
  with w u show ?thesis
    by (intro exI [of _ ?w] exI [of _ "twice_answered r (WaitReturned s)"] exI [of _ r])
       (simp add: once_answered_def twice_answered_def)
qed

text \<open>No lost wake-up: in every reachable state, every waiter that has not disconnected
  can return a response by steps of its own and of the execution it waits for, with no
  new request, lease or passage of time; the response is the published one if there is one.\<close>

theorem waiter_always_served:
  assumes "dispatch_reachable cx limits w" "i < length (waiters w)"
    and "waiter_phase (waiters w ! i) \<noteq> WaitDropped"
  shows "\<exists>r. gets_response cx w i r \<and>
    (\<forall>s. slot_response (slot_heap (disp w) ! waiter_slot (waiters w ! i)) = Some s \<longrightarrow> r = s)"
  using waiter_served [OF reachable_world_inv [OF assms(1)] assms(2,3)] .

theorem waiter_always_served_witness: "\<exists>r. gets_response demo_codec demo_elected 0 r"
  using waiter_always_served [OF demo_elected_reachable, of 0] by (auto simp: demo_elected_def)

text \<open>C24.  The cache is bounded and its books are exact: it never holds more slots than
  \<open>max_cached_requests\<close> nor more completed bytes than \<open>max_cached_response_bytes\<close>, the byte
  count is the sum of the queued responses, and each queued length is that of a published
  response.\<close>

theorem cache_bounded:
  assumes "dispatch_reachable cx limits w"
  shows "Mapping.size (slots (cache (disp w))) \<le> max_cached_requests limits \<and>
    response_bytes (cache (disp w)) \<le> max_cached_response_bytes limits \<and>
    response_bytes (cache (disp w)) = sum_list (map snd (order (cache (disp w)))) \<and>
    (\<forall>(request_id, n) \<in> set (order (cache (disp w))).
       \<exists>sid r. Mapping.lookup (slots (cache (disp w))) request_id = Some sid \<and>
         slot_response (slot_heap (disp w) ! sid) = Some r \<and> length r = n)"
proof -
  have l: "cached_requests_limit (disp w) = max_cached_requests limits"
    "cached_bytes_limit (disp w) = max_cached_response_bytes limits"
    using run_limits assms by (auto simp: dispatch_reachable_def initial_world_def new_dispatcher_def)
  have cp: "cache_part w" using reachable_world_inv(1) [OF assms] by (simp add: world_inv_def)
  then have inv: "cache_inv (slot_heap (disp w)) (flight w) (cache (disp w))"
    by (simp add: cache_part_def)
  have "\<exists>sid r. Mapping.lookup (slots (cache (disp w))) request_id = Some sid \<and>
      slot_response (slot_heap (disp w) ! sid) = Some r \<and> length r = n"
    if "(request_id, n) \<in> set (order (cache (disp w)))" for request_id n
    using cache_inv_completed [OF inv that] by (simp add: completed_def)
  then show ?thesis using cp l cache_invD(3) [OF inv] by (auto simp: cache_part_def)
qed

theorem cache_bounded_witness:
  "Mapping.size (slots (cache (disp demo_elected))) \<le> 1024"
  using cache_bounded [OF demo_elected_reachable] by (simp add: standalone_def)

text \<open>A request in flight is never evicted: its slot is in the cache until its response
  is published and accounted for, so every retry joins it, and the identity test before
  the accounting always succeeds.\<close>

theorem in_flight_never_evicted:
  assumes "dispatch_reachable cx limits w" "ex \<in> set (executions w)"
  shows "Mapping.lookup (slots (cache (disp w))) (task_request_id ex) = Some (task_slot ex) \<and>
    task_request_id ex \<notin> fst ` set (order (cache (disp w)))"
proof -
  have cp: "cache_part w" using reachable_world_inv(1) [OF assms(1)] by (simp add: world_inv_def)
  then have "fst ` set (order (cache (disp w))) \<inter> fst ` flight w = {}"
    using cache_invD(5) unfolding cache_part_def by blast
  moreover have "task_request_id ex \<in> fst ` flight w" using assms(2) by (force simp: flight_def)
  ultimately show ?thesis using flight_slot(1) [OF cp assms(2)] by auto
qed

theorem in_flight_never_evicted_witness:
  "Mapping.lookup (slots (cache (disp demo_elected))) 9 = Some 0"
  using in_flight_never_evicted [OF demo_elected_reachable, of "hd (executions demo_elected)"]
  by (simp add: demo_elected_def)

text \<open>Nothing executes without a lease: a connected request spawns an execution only
  when it speaks this protocol version and carries a lease that the registry accepts, and
  the execution runs under the guard of that lease, which is valid at that moment.\<close>

theorem execution_has_valid_lease:
  assumes "dispatch_connected cx t d request = (d', reply, Some ex)"
  shows "req_protocol_version request = PROTOCOL_VERSION \<and>
    (\<exists>lease. req_authority request = Some lease \<and>
       grant (authorities d) t lease = Inr (authorities d', task_authority ex) \<and>
       ensure_valid (authorities d') t (task_authority ex) = Inr ())"
  using dispatch_spawns [OF assms] leases.issue_valid by (fastforce simp: guard_valid_def)

theorem execution_has_valid_lease_witness: "ensure_valid demo_registry 0 demo_guard = Inr ()"
proof -
  obtain d ex where "dispatch_connected demo_codec 0 (new_dispatcher standalone)
      (demo_request GitStatus) = (d, AwaitSlot 0, Some ex)" "authorities d = demo_registry"
      "task_authority ex = demo_guard"
    using demo_arrive
    by (auto simp: arrive_def initial_world_def demo_elected_def split: prod.splits option.splits)
  with execution_has_valid_lease [of demo_codec 0 "new_dispatcher standalone" "demo_request GitStatus"]
  show ?thesis by auto
qed

text \<open>Errors obey the output budget: the error text of a failed execution is cut to
  the longest prefix of whole characters within \<open>max_error_bytes\<close>, so it stays valid UTF-8,
  loses at most three bytes to the boundary, and is kept whole if it fits.\<close>

theorem error_response_bounded:
  assumes "valid_utf8 error"
  shows "\<exists>str. execution_response cx n request_id (Inl error) =
      response_to_string cx (Error PROTOCOL_VERSION (Some request_id) str) \<and>
    prefix str error \<and> valid_utf8 str \<and> length str \<le> n \<and>
    (length error \<le> n \<longrightarrow> str = error) \<and> (n < length error \<longrightarrow> n \<le> length str + 3)"
  by (intro exI [of _ "truncate_error_utf8 error n"])
     (use error_truncation.trunc_prefix error_truncation.trunc_valid [OF assms]
        error_truncation.trunc_length error_truncation.trunc_fits
        error_truncation.trunc_loses_at_most_3 [OF assms]
      in \<open>auto simp: execution_response_def serialize_response_def\<close>)

theorem error_response_bounded_witness:
  "execution_response demo_codec 2 9 (Inl ''abc'') = ''ab''"
proof -
  have "valid_utf8 ''abc''" by code_simp
  from error_response_bounded [OF this, of demo_codec 2 9] show ?thesis
    by (auto simp: demo_codec_def truncate_error_utf8_def execution_response_def
        serialize_response_def) (code_simp)+
qed

end
