(* ===== verification/Rust_Str.thy ===== *)
theory Rust_Str
  imports Kodo_Prelude Rust_Utf8 "HOL-Library.List_Lexorder" "HOL-Library.Char_ord"
begin

text \<open>
  The operations of Rust's \<open>str\<close> and slices that the tools use, on UTF-8 bytes: \<open>lines\<close>,
  \<open>trim\<close>, \<open>split\<close>, \<open>splitn\<close>, \<open>strip_prefix\<close>, \<open>contains\<close>, \<open>match_indices\<close> and \<open>replacen\<close>.
  Strings are ordered by their bytes.
\<close>

section \<open>Splitting\<close>

fun split_on :: "char \<Rightarrow> string \<Rightarrow> string list" where
  "split_on c [] = [[]]"
| "split_on c (x # xs) =
     (if x = c then [] # split_on c xs
      else case split_on c xs of s # ss \<Rightarrow> (x # s) # ss | [] \<Rightarrow> [[x]])"

text \<open>\<open>splitn n c\<close>: at most \<open>n\<close> pieces, the last one unsplit.\<close>

fun splitn :: "nat \<Rightarrow> char \<Rightarrow> string \<Rightarrow> string list" where
  "splitn 0 c xs = []"
| "splitn (Suc 0) c xs = [xs]"
| "splitn (Suc (Suc n)) c xs =
     (if c \<in> set xs then
        takeWhile (\<lambda>x. x \<noteq> c) xs # splitn (Suc n) c (tl (dropWhile (\<lambda>x. x \<noteq> c) xs))
      else [xs])"

text \<open>\<open>lines\<close>: each piece loses its line feed and one carriage return before it; the last
  piece, when it has no line feed, is kept as it is.\<close>

definition NL :: char where "NL = CHR 0x0A"
definition CR :: char where "CR = CHR 0x0D"
definition TAB :: char where "TAB = CHR 0x09"
definition NUL :: char where "NUL = CHR 0x00"

definition strip_cr :: "string \<Rightarrow> string" where
  "strip_cr s = (if s \<noteq> [] \<and> last s = CR then butlast s else s)"

fun lines_of :: "string list \<Rightarrow> string list" where
  "lines_of [] = []"
| "lines_of [s] = (if s = [] then [] else [s])"
| "lines_of (s # t # ss) = strip_cr s # lines_of (t # ss)"

definition str_lines :: "string \<Rightarrow> string list" where
  "str_lines s = lines_of (split_on NL s)"

fun str_join :: "string \<Rightarrow> string list \<Rightarrow> string" where
  "str_join sep [] = []"
| "str_join sep [s] = s"
| "str_join sep (s # t # ss) = s @ sep @ str_join sep (t # ss)"

section \<open>Searching\<close>

fun starts_with :: "string \<Rightarrow> string \<Rightarrow> bool" where
  "starts_with [] xs = True"
| "starts_with (p # ps) [] = False"
| "starts_with (p # ps) (x # xs) = (p = x \<and> starts_with ps xs)"

definition strip_prefix :: "string \<Rightarrow> string \<Rightarrow> string option" where
  "strip_prefix p xs = (if starts_with p xs then Some (drop (length p) xs) else None)"

fun str_find :: "string \<Rightarrow> string \<Rightarrow> nat option" where
  "str_find p [] = (if p = [] then Some 0 else None)"
| "str_find p (x # xs) =
     (if starts_with p (x # xs) then Some 0 else map_option Suc (str_find p xs))"

definition str_contains :: "string \<Rightarrow> string \<Rightarrow> bool" where
  "str_contains p xs = (str_find p xs \<noteq> None)"

text \<open>
  \<open>match_indices(p).take(2).count()\<close>: disjoint occurrences, from the left, at most two.  An
  empty pattern matches at every character boundary.
\<close>

definition match_count_2 :: "string \<Rightarrow> string \<Rightarrow> nat" where
  "match_count_2 p xs =
     (if p = [] then (if xs = [] then 1 else 2)
      else case str_find p xs of
        None \<Rightarrow> 0
      | Some i \<Rightarrow> if str_contains p (drop (i + length p) xs) then 2 else 1)"

text \<open>\<open>replacen(p, r, 1)\<close>.\<close>

definition replace_first :: "string \<Rightarrow> string \<Rightarrow> string \<Rightarrow> string" where
  "replace_first p r xs =
     (case str_find p xs of
        None \<Rightarrow> xs
      | Some i \<Rightarrow> take i xs @ r @ drop (i + length p) xs)"

text \<open>
  \<open>replace(p, r)\<close>: every disjoint occurrence, from the left.  An empty pattern matches at every
  character boundary, the end included.
\<close>

function replace_matches :: "string \<Rightarrow> string \<Rightarrow> string \<Rightarrow> string" where
  "replace_matches p r xs =
     (if p = [] then xs
      else case str_find p xs of
        None \<Rightarrow> xs
      | Some i \<Rightarrow> take i xs @ r @ replace_matches p r (drop (i + length p) xs))"
  by pat_completeness auto

lemma str_find_nonempty: "str_find p xs = Some i \<Longrightarrow> p \<noteq> [] \<Longrightarrow> xs \<noteq> []"
  by (cases xs) auto

termination replace_matches
  by (relation "measure (\<lambda>(p, r, xs). length xs)") (auto dest: str_find_nonempty)

declare replace_matches.simps [simp del]

definition str_replace :: "string \<Rightarrow> string \<Rightarrow> string \<Rightarrow> string" where
  "str_replace p r xs =
     (if p = [] then concat (map (\<lambda>b. if is_cont b then [b] else r @ [b]) xs) @ r
      else replace_matches p r xs)"

text \<open>\<open>ends_with\<close> and \<open>trim_end_matches\<close> for one character, and \<open>to_ascii_lowercase\<close>.\<close>

definition ends_with_char :: "string \<Rightarrow> char \<Rightarrow> bool" where
  "ends_with_char xs c \<longleftrightarrow> xs \<noteq> [] \<and> last xs = c"

definition trim_end_matches :: "string \<Rightarrow> char \<Rightarrow> string" where
  "trim_end_matches xs c = rev (dropWhile (\<lambda>x. x = c) (rev xs))"

definition to_ascii_lowercase :: "string \<Rightarrow> string" where
  "to_ascii_lowercase =
     map (\<lambda>b. if 65 \<le> byte_val b \<and> byte_val b \<le> 90 then char_of (byte_val b + 32) else b)"

section \<open>Trimming\<close>

text \<open>The UTF-8 encodings of the code points with the property \<open>White_Space\<close>.\<close>

definition whitespace :: "string list" where
  "whitespace =
     [[CHR 0x09], [CHR 0x0A], [CHR 0x0B], [CHR 0x0C], [CHR 0x0D], [CHR 0x20],
      [CHR 0xC2, CHR 0x85], [CHR 0xC2, CHR 0xA0], [CHR 0xE1, CHR 0x9A, CHR 0x80],
      [CHR 0xE2, CHR 0x80, CHR 0x80], [CHR 0xE2, CHR 0x80, CHR 0x81], [CHR 0xE2, CHR 0x80, CHR 0x82],
      [CHR 0xE2, CHR 0x80, CHR 0x83], [CHR 0xE2, CHR 0x80, CHR 0x84], [CHR 0xE2, CHR 0x80, CHR 0x85],
      [CHR 0xE2, CHR 0x80, CHR 0x86], [CHR 0xE2, CHR 0x80, CHR 0x87], [CHR 0xE2, CHR 0x80, CHR 0x88],
      [CHR 0xE2, CHR 0x80, CHR 0x89], [CHR 0xE2, CHR 0x80, CHR 0x8A], [CHR 0xE2, CHR 0x80, CHR 0xA8],
      [CHR 0xE2, CHR 0x80, CHR 0xA9], [CHR 0xE2, CHR 0x80, CHR 0xAF], [CHR 0xE2, CHR 0x81, CHR 0x9F],
      [CHR 0xE3, CHR 0x80, CHR 0x80]]"

definition leading_space :: "string list \<Rightarrow> string \<Rightarrow> nat" where
  "leading_space ws xs =
     (case List.find (\<lambda>w. starts_with w xs) ws of None \<Rightarrow> 0 | Some w \<Rightarrow> length w)"

function trim_with :: "string list \<Rightarrow> string \<Rightarrow> string" where
  "trim_with ws xs =
     (if leading_space ws xs = 0 \<or> xs = [] then xs else trim_with ws (drop (leading_space ws xs) xs))"
  by pat_completeness auto
termination by (relation "measure (\<lambda>(ws, xs). length xs)") auto

declare trim_with.simps [simp del]

definition trim :: "string \<Rightarrow> string" where
  "trim xs = rev (trim_with (map rev whitespace) (rev (trim_with whitespace xs)))"

section \<open>Facts\<close>

lemma starts_with_prefix: "starts_with p xs \<longleftrightarrow> prefix p xs"
  by (induction p xs rule: starts_with.induct) auto

lemma str_find_Some:
  "str_find p xs = Some i \<Longrightarrow> i + length p \<le> length xs \<and> xs = take i xs @ p @ drop (i + length p) xs"
proof (induction p xs arbitrary: i rule: str_find.induct)
  case (2 p x xs)
  show ?case
  proof (cases "starts_with p (x # xs)")
    case True
    with 2(2) have i: "i = 0" by simp
    from True obtain ys where "x # xs = p @ ys" by (auto simp: starts_with_prefix prefix_def)
    then show ?thesis unfolding i by simp
  next
    case False
    with 2(2) obtain j where "str_find p xs = Some j" "i = Suc j" by auto
    with 2(1) [OF False, of j] show ?thesis by simp
  qed
qed (auto split: if_splits)

lemma str_find_None: "str_find p xs = None \<longleftrightarrow> (\<forall>ys zs. xs \<noteq> ys @ p @ zs)"
proof (induction p xs rule: str_find.induct)
  case (2 p x xs)
  show ?case
  proof (cases "starts_with p (x # xs)")
    case True
    then obtain zs where "x # xs = [] @ p @ zs" by (auto simp: starts_with_prefix prefix_def)
    with True show ?thesis by (metis option.distinct(1) str_find.simps(2))
  next
    case False
    have "(\<exists>ys zs. x # xs = ys @ p @ zs) \<longleftrightarrow> (\<exists>ys zs. xs = ys @ p @ zs)"
    proof
      assume "\<exists>ys zs. x # xs = ys @ p @ zs"
      then obtain ys zs where e: "x # xs = ys @ p @ zs" by blast
      with False have "ys \<noteq> []" by (auto simp: starts_with_prefix prefix_def)
      with e obtain ys' where "xs = ys' @ p @ zs" by (cases ys) auto
      then show "\<exists>ys zs. xs = ys @ p @ zs" by blast
    next
      assume "\<exists>ys zs. xs = ys @ p @ zs"
      then obtain ys zs where "x # xs = (x # ys) @ p @ zs" by auto
      then show "\<exists>ys zs. x # xs = ys @ p @ zs" by blast
    qed
    with False "2"(1) [OF False] show ?thesis by auto
  qed
qed auto

lemma str_contains_sublist: "str_contains p xs \<longleftrightarrow> (\<exists>ys zs. xs = ys @ p @ zs)"
  by (auto simp: str_contains_def str_find_None)

text \<open>The first occurrence is the leftmost one: what comes before it has no occurrence.\<close>

lemma str_find_first:
  "str_find p xs = Some i \<Longrightarrow> p \<noteq> [] \<Longrightarrow> \<not> str_contains p (take i xs)"
proof (induction p xs arbitrary: i rule: str_find.induct)
  case (2 p x xs)
  show ?case
  proof (cases "starts_with p (x # xs)")
    case True
    with 2(2,3) show ?thesis by (cases p) (auto simp: str_contains_sublist)
  next
    case False
    with 2(2) obtain j where j: "str_find p xs = Some j" "i = Suc j" by auto
    show ?thesis
    proof
      assume "str_contains p (take i (x # xs))"
      then obtain ys zs where e: "x # take j xs = ys @ p @ zs" using j(2) by (auto simp: str_contains_sublist)
      show False
      proof (cases ys)
        case Nil
        with e have "x # xs = p @ zs @ drop j xs" by (metis append.assoc append_Cons append_Nil append_take_drop_id)
        with False show False by (auto simp: starts_with_prefix prefix_def)
      next
        case (Cons y ys')
        with e have "str_contains p (take j xs)" by (auto simp: str_contains_sublist)
        with 2(1) [OF False j(1) 2(3)] show False by simp
      qed
    qed
  qed
qed auto

text \<open>
  Replacing a pattern removes it.  The replacement \<open>r\<close> is delimited by characters that do not
  occur in the pattern, so an occurrence in the result lies inside a piece that was kept
  or inside \<open>r\<close>.
\<close>

lemma occurrence_split:
  assumes "str_contains p (xs @ c # ys)" "c \<notin> set p" "p \<noteq> []"
  shows "str_contains p xs \<or> str_contains p ys"
proof -
  obtain us vs where e: "xs @ c # ys = us @ (p @ vs)" using assms(1) by (auto simp: str_contains_sublist)
  from e consider (left) ts where "xs = us @ ts" "ts @ c # ys = p @ vs" | (right) ts where "us = xs @ ts" "c # ys = ts @ p @ vs"
    by (auto simp: append_eq_append_conv2)
  then show ?thesis
  proof cases
    case left
    from left(2) obtain ws where "ts = p @ ws \<or> p = ts @ ws \<and> c # ys = ws @ vs"
      by (auto simp: append_eq_append_conv2)
    then have "\<exists>zs. ts = p @ zs" using assms(2) by (cases ws) auto
    with left(1) show ?thesis by (auto simp: str_contains_sublist)
  next
    case right
    with assms(2,3) show ?thesis by (cases ts; cases p) (auto simp: str_contains_sublist)
  qed
qed

lemma replace_matches_removes:
  assumes "p \<noteq> []" "a \<notin> set p" "b \<notin> set p" "\<not> str_contains p r"
  shows "\<not> str_contains p (replace_matches p (a # r @ [b]) xs)"
proof (induction "length xs" arbitrary: xs rule: less_induct)
  case less
  show ?case
  proof (cases "str_find p xs")
    case None
    then show ?thesis using assms(1) by (simp add: replace_matches.simps str_contains_def)
  next
    case (Some i)
    let ?rest = "replace_matches p (a # r @ [b]) (drop (i + length p) xs)"
    have "\<not> str_contains p ?rest"
      by (rule less) (use str_find_nonempty [OF Some] assms(1) in simp)
    then have "\<not> str_contains p (r @ b # ?rest)"
      using occurrence_split [of p r b] assms by blast
    then have "\<not> str_contains p (take i xs @ a # r @ b # ?rest)"
      using occurrence_split [of p "take i xs" a] str_find_first [OF Some assms(1)] assms(1,2) by blast
    then show ?thesis using assms(1) Some by (subst replace_matches.simps) simp
  qed
qed

text \<open>Replacing the first occurrence changes nothing else.\<close>

lemma replace_first_found:
  assumes "str_find p xs = Some i"
  shows "xs = take i xs @ p @ drop (i + length p) xs"
    "replace_first p r xs = take i xs @ r @ drop (i + length p) xs"
  using str_find_Some [OF assms] assms by (simp_all add: replace_first_def)

lemma split_on_not_Nil [simp]: "split_on c xs \<noteq> []"
  by (induction xs) (auto split: list.splits)

lemma split_on_no_sep: "s \<in> set (split_on c xs) \<Longrightarrow> c \<notin> set s"
  by (induction xs arbitrary: s) (auto split: list.splits if_splits)

lemma split_on_length: "sum_list (map length (split_on c xs)) \<le> length xs"
  by (induction xs) (auto split: list.splits)

lemma strip_cr_length: "length (strip_cr s) \<le> length s"
  by (simp add: strip_cr_def)

lemma strip_cr_subset: "set (strip_cr s) \<subseteq> set s"
  by (auto simp: strip_cr_def dest: in_set_butlastD)

lemma lines_of_no_nl:
  "\<forall>s \<in> set ss. NL \<notin> set s \<Longrightarrow> l \<in> set (lines_of ss) \<Longrightarrow> NL \<notin> set l"
  by (induction ss rule: lines_of.induct) (use strip_cr_subset in \<open>auto split: if_splits\<close>)

lemma str_lines_no_nl: "l \<in> set (str_lines s) \<Longrightarrow> NL \<notin> set l"
  unfolding str_lines_def by (rule lines_of_no_nl) (auto dest: split_on_no_sep)

end
