(* ===== verification/Rust_Path.thy ===== *)
theory Rust_Path
  imports Kodo_Prelude
begin

text \<open>
  The part of \<open>std::path\<close> and \<open>std::fs\<close> that the workspace boundary rests on, for Unix: a
  path is its bytes, \<open>components\<close>, \<open>join\<close>, \<open>parent\<close>, \<open>file_name\<close> and \<open>starts_with\<close> read it,
  and \<open>canonicalize\<close> and \<open>exists\<close> walk a file system of directories, files and symbolic
  links the way the kernel resolves a path, with the limit of 40 links of Linux.
  Permissions are not part of the model.
\<close>

section \<open>Segments\<close>

definition SLASH :: char where
  "SLASH = CHR 0x2F"

fun split_slash :: "string \<Rightarrow> string list" where
  "split_slash [] = [[]]"
| "split_slash (c # cs) =
     (if c = SLASH then [] # split_slash cs
      else case split_slash cs of s # ss \<Rightarrow> (c # s) # ss | [] \<Rightarrow> [[c]])"

fun join_slash :: "string list \<Rightarrow> string" where
  "join_slash [] = []"
| "join_slash [s] = s"
| "join_slash (s # t # ss) = s @ SLASH # join_slash (t # ss)"

lemma split_slash_not_Nil [simp]: "split_slash p \<noteq> []"
  by (induction p) (auto split: list.splits)

lemma join_split [simp]: "join_slash (split_slash p) = p"
proof (induction p)
  case (Cons c cs)
  then show ?case
    by (cases "split_slash cs" rule: join_slash.cases) auto
qed simp

lemma split_no_slash: "s \<in> set (split_slash p) \<Longrightarrow> SLASH \<notin> set s"
  by (induction p arbitrary: s) (auto split: list.splits if_splits)

lemma split_append_slash: "split_slash (p @ SLASH # q) = split_slash p @ split_slash q"
  by (induction p) (auto split: list.splits)

lemma split_single: "SLASH \<notin> set s \<Longrightarrow> split_slash s = [s]"
  by (induction s) auto

lemma split_join: "ss \<noteq> [] \<Longrightarrow> \<forall>s \<in> set ss. SLASH \<notin> set s \<Longrightarrow> split_slash (join_slash ss) = ss"
  by (induction ss rule: join_slash.induct) (simp_all add: split_single split_append_slash)

lemma split_hd_Nil: "hd (split_slash p) = [] \<longleftrightarrow> p = [] \<or> hd p = SLASH"
  by (cases p) (auto split: list.splits)

section \<open>Components\<close>

datatype path_component = RootDir | CurDir | ParentDir | Normal string

definition has_root :: "string \<Rightarrow> bool" where
  "has_root p \<longleftrightarrow> p \<noteq> [] \<and> hd p = SLASH"

abbreviation is_absolute :: "string \<Rightarrow> bool" where
  "is_absolute p \<equiv> has_root p"

text \<open>
  Empty segments and \<open>.\<close> segments carry no component, except a \<open>.\<close> that opens a relative
  path.
\<close>

definition skipped :: "string \<Rightarrow> bool" where
  "skipped s \<longleftrightarrow> s = [] \<or> s = ''.''"

definition seg_component :: "string \<Rightarrow> path_component" where
  "seg_component s = (if s = ''..'' then ParentDir else Normal s)"

definition seg_components :: "string list \<Rightarrow> path_component list" where
  "seg_components ss = map seg_component (filter (\<lambda>s. \<not> skipped s) ss)"

definition components :: "string \<Rightarrow> path_component list" where
  "components p =
     (case split_slash p of
        [] \<Rightarrow> []
      | s # ss \<Rightarrow>
          (if has_root p then [RootDir] else if s = ''.'' then [CurDir] else []) @
          seg_components (s # ss))"

lemma skipped_simps [simp]: "skipped []" "skipped ''.''" "\<not> skipped ''..''"
  by (simp_all add: skipped_def)

lemma seg_components_append [simp]:
  "seg_components (xs @ ys) = seg_components xs @ seg_components ys"
  by (simp add: seg_components_def)

lemma seg_components_Nil [simp]: "seg_components [] = []"
  by (simp add: seg_components_def)

lemma seg_components_skipped: "skipped s \<Longrightarrow> seg_components (s # ss) = seg_components ss"
  by (simp add: seg_components_def)

section \<open>Operations on paths\<close>

text \<open>\<open>PathBuf::join\<close>: an absolute argument replaces the path.\<close>

definition path_join :: "string \<Rightarrow> string \<Rightarrow> string" where
  "path_join a b =
     (if is_absolute b then b
      else if a \<noteq> [] \<and> last a \<noteq> SLASH then a @ SLASH # b
      else a @ b)"

definition path_starts_with :: "string \<Rightarrow> string \<Rightarrow> bool" where
  "path_starts_with p base \<longleftrightarrow> prefix (components base) (components p)"

definition file_name :: "string \<Rightarrow> string option" where
  "file_name p =
     (case rev (components p) of
        Normal s # _ \<Rightarrow> Some s
      | _ \<Rightarrow> None)"

text \<open>The positions of the segments that carry a component other than the root.\<close>

definition component_positions :: "string list \<Rightarrow> nat list" where
  "component_positions ss =
     filter (\<lambda>i. \<not> skipped (ss ! i) \<or> i = 0 \<and> ss ! i = ''.'') [0..<length ss]"

text \<open>\<open>Path::parent\<close> cuts the last component and the separators before it.\<close>

definition path_parent :: "string \<Rightarrow> string option" where
  "path_parent p =
     (let ss = split_slash p in
      case rev (component_positions ss) of
        [] \<Rightarrow> None
      | [_] \<Rightarrow> Some (if has_root p then [SLASH] else [])
      | _ # i # _ \<Rightarrow> Some (join_slash (take (Suc i) ss)))"

section \<open>The file system\<close>

datatype fs_node = DirNode | FileNode bytes | LinkNode string

text \<open>A file system maps the segments of each canonical path to its node.\<close>

type_synonym file_system = "string list \<Rightarrow> fs_node option"

definition MAX_SYMLINKS :: nat where
  "MAX_SYMLINKS = 40"

definition ENOENT :: io_error where
  "ENOENT = IoError NotFound ''No such file or directory (os error 2)''"

definition ENOTDIR :: io_error where
  "ENOTDIR = IoError OtherKind ''Not a directory (os error 20)''"

definition ELOOP :: io_error where
  "ELOOP = IoError OtherKind ''Too many levels of symbolic links (os error 40)''"

text \<open>Resolving segments from the canonical directory \<open>cur\<close>, with \<open>n\<close> links left.\<close>

function walk :: "file_system \<Rightarrow> nat \<Rightarrow> string list \<Rightarrow> string list \<Rightarrow> io_error + string list" where
  "walk fs n cur [] = Inr cur"
| "walk fs n cur (s # ss) =
     (if cur \<noteq> [] \<and> fs cur \<noteq> Some DirNode then Inl ENOTDIR
      else if skipped s then walk fs n cur ss
      else if s = ''..'' then walk fs n (butlast cur) ss
      else case fs (cur @ [s]) of
        None \<Rightarrow> Inl ENOENT
      | Some (LinkNode target) \<Rightarrow>
          (case n of
             0 \<Rightarrow> Inl ELOOP
           | Suc m \<Rightarrow>
               if target = [] then Inl ENOENT
               else walk fs m (if is_absolute target then [] else cur) (split_slash target @ ss))
      | Some _ \<Rightarrow> walk fs n (cur @ [s]) ss)"
  by pat_completeness auto
termination
  by (relation "measures [\<lambda>(fs, n, cur, ss). n, \<lambda>(fs, n, cur, ss). length ss]") auto

definition abs_path :: "string list \<Rightarrow> string" where
  "abs_path cs = SLASH # join_slash cs"

text \<open>Relative paths start at the working directory \<open>cwd\<close> of the process.\<close>

definition resolve_path :: "file_system \<Rightarrow> string list \<Rightarrow> string \<Rightarrow> io_error + string list" where
  "resolve_path fs cwd p =
     (if p = [] then Inl ENOENT
      else walk fs MAX_SYMLINKS (if is_absolute p then [] else cwd) (split_slash p))"

definition fs_canonicalize :: "file_system \<Rightarrow> string list \<Rightarrow> string \<Rightarrow> io_error + string" where
  "fs_canonicalize fs cwd p =
     (case resolve_path fs cwd p of Inl e \<Rightarrow> Inl e | Inr cs \<Rightarrow> Inr (abs_path cs))"

definition fs_exists :: "file_system \<Rightarrow> string list \<Rightarrow> string \<Rightarrow> bool" where
  "fs_exists fs cwd p = (case resolve_path fs cwd p of Inl _ \<Rightarrow> False | Inr _ \<Rightarrow> True)"

section \<open>Facts on components\<close>

text \<open>A segment of a canonical path.\<close>

definition proper :: "string \<Rightarrow> bool" where
  "proper s \<longleftrightarrow> s \<noteq> [] \<and> s \<noteq> ''.'' \<and> s \<noteq> ''..'' \<and> SLASH \<notin> set s"

lemma proper_not_skipped [simp]: "proper s \<Longrightarrow> \<not> skipped s"
  by (simp add: proper_def skipped_def)

lemma seg_components_proper:
  "\<forall>s \<in> set ss. proper s \<Longrightarrow> seg_components ss = map Normal ss"
  by (induction ss) (auto simp: seg_components_def seg_component_def proper_def skipped_def)

lemma split_abs_path:
  "cs \<noteq> [] \<Longrightarrow> \<forall>s \<in> set cs. proper s \<Longrightarrow> split_slash (abs_path cs) = [] # cs"
  by (simp add: abs_path_def split_join proper_def)

lemma components_abs_path:
  assumes "\<forall>s \<in> set cs. proper s"
  shows "components (abs_path cs) = RootDir # map Normal cs"
proof (cases "cs = []")
  case True
  then show ?thesis by (simp add: components_def abs_path_def has_root_def seg_components_skipped)
next
  case False
  then show ?thesis
    using assms
    by (simp add: components_def split_abs_path seg_components_skipped seg_components_proper)
       (simp add: has_root_def abs_path_def)
qed

lemma inj_Normal: "inj Normal"
  by (simp add: inj_def)

lemma starts_with_abs_path:
  assumes "\<forall>s \<in> set cs. proper s" "\<forall>s \<in> set bs. proper s"
  shows "path_starts_with (abs_path cs) (abs_path bs) \<longleftrightarrow> prefix bs cs"
  using assms by (simp add: path_starts_with_def components_abs_path prefix_map_inj [OF inj_Normal])

lemma walk_proper:
  "walk fs n cur ss = Inr cs \<Longrightarrow> \<forall>s \<in> set cur. proper s \<Longrightarrow> \<forall>s \<in> set ss. SLASH \<notin> set s \<Longrightarrow>
   \<forall>s \<in> set cs. proper s"
proof (induction fs n cur ss rule: walk.induct)
  case (2 fs n cur s ss)
  let ?P = "\<lambda>cs. \<forall>s \<in> set cs. proper s"
  have dir: "\<not> (cur \<noteq> [] \<and> fs cur \<noteq> Some DirNode)" using "2.prems"(1) by (auto split: if_splits)
  note step = "2.prems"(1) [unfolded walk.simps(2) if_not_P [OF dir]]
  have ss: "\<forall>s \<in> set ss. SLASH \<notin> set s" "SLASH \<notin> set s" using "2.prems"(3) by auto
  consider (skip) "skipped s" | (up) "\<not> skipped s" "s = ''..''"
    | (node) "\<not> skipped s" "s \<noteq> ''..''" by blast
  then show ?case
  proof cases
    case skip
    with step "2.IH"(1) [OF dir skip] "2.prems"(2) ss show ?thesis by simp
  next
    case up
    moreover have "?P (butlast cur)" using "2.prems"(2) by (auto dest: in_set_butlastD)
    ultimately show ?thesis using step "2.IH"(2) [OF dir up] ss by simp
  next
    case node
    then have s: "proper s" using ss(2) by (simp add: skipped_def proper_def)
    obtain nd where nd: "fs (cur @ [s]) = Some nd"
      using step node by (auto split: option.splits)
    show ?thesis
    proof (cases nd)
      case (LinkNode target)
      with step node nd obtain m where m: "n = Suc m" "target \<noteq> []"
        by (auto split: nat.splits if_splits)
      have "?P (if is_absolute target then [] else cur)" using "2.prems"(2) by simp
      moreover have "\<forall>s \<in> set (split_slash target @ ss). SLASH \<notin> set s"
        using ss(1) split_no_slash by auto
      ultimately show ?thesis
        using step node nd LinkNode m "2.IH"(5) [OF dir node nd LinkNode m] by simp
    next
      case DirNode
      then show ?thesis
        using step node nd "2.IH"(3) [OF dir node nd DirNode] s "2.prems"(2) ss(1) by simp
    next
      case (FileNode b)
      then show ?thesis
        using step node nd "2.IH"(4) [OF dir node nd FileNode] s "2.prems"(2) ss(1) by simp
    qed
  qed
qed simp

section \<open>Canonical paths\<close>

text \<open>A path all of whose segments exist, none of them a symbolic link.\<close>

definition real_path :: "file_system \<Rightarrow> string list \<Rightarrow> bool" where
  "real_path fs cs \<longleftrightarrow>
     (\<forall>k. 0 < k \<longrightarrow> k < length cs \<longrightarrow> fs (take k cs) = Some DirNode) \<and>
     (cs \<noteq> [] \<longrightarrow> (\<exists>nd. fs cs = Some nd \<and> (\<forall>target. nd \<noteq> LinkNode target)))"

lemma real_path_Nil [simp]: "real_path fs []"
  by (simp add: real_path_def)

lemma real_path_snoc:
  assumes "real_path fs cur" "cur = [] \<or> fs cur = Some DirNode"
    "fs (cur @ [s]) = Some nd" "\<forall>target. nd \<noteq> LinkNode target"
  shows "real_path fs (cur @ [s])"
  using assms by (auto simp: real_path_def less_Suc_eq)

lemma real_path_take:
  assumes "real_path fs cs"
  shows "real_path fs (take k cs)"
proof (cases "k < length cs \<and> 0 < k")
  case True
  then have "fs (take k cs) = Some DirNode" using assms by (simp add: real_path_def)
  with assms show ?thesis by (auto simp: real_path_def min_def)
next
  case False
  with assms show ?thesis by (cases "k = 0") simp_all
qed

lemma walk_real:
  "walk fs n cur ss = Inr cs \<Longrightarrow> real_path fs cur \<Longrightarrow> real_path fs cs"
proof (induction fs n cur ss rule: walk.induct)
  case (2 fs n cur s ss)
  have dir: "\<not> (cur \<noteq> [] \<and> fs cur \<noteq> Some DirNode)" using "2.prems"(1) by (auto split: if_splits)
  note step = "2.prems"(1) [unfolded walk.simps(2) if_not_P [OF dir]]
  consider (skip) "skipped s" | (up) "\<not> skipped s" "s = ''..''"
    | (node) "\<not> skipped s" "s \<noteq> ''..''" by blast
  then show ?case
  proof cases
    case skip
    with step "2.IH"(1) [OF dir skip] "2.prems"(2) show ?thesis by simp
  next
    case up
    with step "2.IH"(2) [OF dir up] real_path_take [OF "2.prems"(2)] show ?thesis
      by (simp add: butlast_conv_take)
  next
    case node
    obtain nd where nd: "fs (cur @ [s]) = Some nd"
      using step node by (auto split: option.splits)
    have cur: "cur = [] \<or> fs cur = Some DirNode" using dir by auto
    show ?thesis
    proof (cases nd)
      case (LinkNode target)
      with step node nd obtain m where m: "n = Suc m" "target \<noteq> []"
        by (auto split: nat.splits if_splits)
      then show ?thesis
        using step node nd LinkNode "2.IH"(5) [OF dir node nd LinkNode m] "2.prems"(2) by simp
    next
      case DirNode
      then show ?thesis
        using step node nd "2.IH"(3) [OF dir node nd DirNode] real_path_snoc [OF "2.prems"(2) cur nd]
        by simp
    next
      case (FileNode b)
      then show ?thesis
        using step node nd "2.IH"(4) [OF dir node nd FileNode] real_path_snoc [OF "2.prems"(2) cur nd]
        by simp
    qed
  qed
qed simp

text \<open>Walking a canonical path follows it segment by segment.\<close>

lemma walk_real_append:
  assumes "real_path fs (cur @ cs)" "\<forall>s \<in> set cs. proper s"
  shows "walk fs n cur (cs @ ss) = walk fs n (cur @ cs) ss"
  using assms
proof (induction cs arbitrary: cur)
  case (Cons s cs)
  have s: "\<not> skipped s" "s \<noteq> ''..''" using Cons.prems(2) by (auto simp: proper_def)
  have "real_path fs (cur @ [s])"
    using real_path_take [OF Cons.prems(1), of "Suc (length cur)"] by simp
  then obtain nd where nd: "fs (cur @ [s]) = Some nd" "\<forall>target. nd \<noteq> LinkNode target"
    by (auto simp: real_path_def)
  have "cur = [] \<or> fs cur = Some DirNode"
    using Cons.prems(1) by (auto simp: real_path_def dest: spec [of _ "length cur"])
  then have "walk fs n cur ((s # cs) @ ss) = walk fs n (cur @ [s]) (cs @ ss)"
    using s nd by (auto split: fs_node.splits)
  with Cons show ?case by simp
qed simp

lemma walk_real_self:
  "real_path fs cs \<Longrightarrow> \<forall>s \<in> set cs. proper s \<Longrightarrow> walk fs n [] cs = Inr cs"
  using walk_real_append [of fs "[]" cs n "[]"] by simp

lemma resolve_path_real:
  assumes "resolve_path fs cwd p = Inr cs" "real_path fs cwd" "\<forall>s \<in> set cwd. proper s"
  shows "real_path fs cs" "\<forall>s \<in> set cs. proper s"
  using assms walk_real [of fs MAX_SYMLINKS _ "split_slash p" cs]
    walk_proper [of fs MAX_SYMLINKS _ "split_slash p" cs] split_no_slash
  by (auto simp: resolve_path_def split: if_splits)

lemma has_root_abs_path [simp]: "has_root (abs_path cs)" "abs_path cs \<noteq> []"
  by (simp_all add: has_root_def abs_path_def)

lemma resolve_abs_path:
  assumes "real_path fs cs" "\<forall>s \<in> set cs. proper s"
  shows "resolve_path fs cwd (abs_path cs) = Inr cs"
proof (cases "cs = []")
  case True
  then show ?thesis by (simp add: resolve_path_def abs_path_def has_root_def)
next
  case False
  with assms show ?thesis
    by (simp add: resolve_path_def split_abs_path walk_real_self)
qed

text \<open>\<open>canonicalize\<close> is idempotent: its result names the same canonical path.\<close>

lemma canonicalize_idem:
  assumes "fs_canonicalize fs cwd p = Inr q" "real_path fs cwd" "\<forall>s \<in> set cwd. proper s"
  shows "fs_canonicalize fs cwd' q = Inr q"
proof -
  obtain cs where cs: "resolve_path fs cwd p = Inr cs" "q = abs_path cs"
    using assms(1) by (auto simp: fs_canonicalize_def split: sum.splits)
  show ?thesis
    using resolve_abs_path [OF resolve_path_real [OF cs(1) assms(2,3)]] cs(2)
    by (simp add: fs_canonicalize_def)
qed

section \<open>Parents are shorter\<close>

lemma length_join_take:
  "Suc i < length ss \<Longrightarrow> length (join_slash (take (Suc i) ss)) < length (join_slash ss)"
proof (induction ss arbitrary: i rule: join_slash.induct)
  case (3 s t ss)
  then show ?case by (cases i) auto
qed simp_all

lemma component_positions_less: "i \<in> set (component_positions ss) \<Longrightarrow> i < length ss"
  by (simp add: component_positions_def)

lemma component_positions_sorted: "sorted_wrt (<) (component_positions ss)"
  by (simp add: component_positions_def sorted_wrt_filter)

lemma path_parent_shorter:
  assumes "path_parent p = Some q"
  shows "length q < length p"
proof -
  let ?ss = "split_slash p"
  note sorted = component_positions_sorted [of ?ss]
  consider (one) i where "rev (component_positions ?ss) = [i]" "q = (if has_root p then [SLASH] else [])"
    | (more) j i r where "rev (component_positions ?ss) = j # i # r" "q = join_slash (take (Suc i) ?ss)"
    using assms by (auto simp: path_parent_def Let_def split: list.splits)
  then show ?thesis
  proof cases
    case one
    then have "component_positions ?ss = [i]" by (metis rev_rev_ident rev_singleton_conv)
    then have "i \<in> set (component_positions ?ss)" by simp
    then have i: "i < length ?ss" "\<not> skipped (?ss ! i) \<or> i = 0 \<and> ?ss ! i = ''.''"
      by (auto simp: component_positions_def)
    have "?ss \<noteq> [[]]" "?ss \<noteq> [[], []]" using i by (auto simp: less_Suc_eq)
    then have "p \<noteq> []" "p \<noteq> [SLASH]" by auto
    with one(2) show ?thesis by (cases p) (auto simp: has_root_def)
  next
    case more
    then have "component_positions ?ss = rev r @ [i, j]" by (metis append_Cons append_Nil append_assoc rev.simps(2) rev_rev_ident)
    with sorted have "i < j" "j < length ?ss"
      using component_positions_less [of j ?ss] by (auto simp: sorted_wrt_append)
    then have "Suc i < length ?ss" by simp
    from length_join_take [OF this] more(2) show ?thesis by simp
  qed
qed

section \<open>Joining a relative path to a canonical root\<close>

lemma last_join_slash: "ss \<noteq> [] \<Longrightarrow> \<forall>s \<in> set ss. proper s \<Longrightarrow> last (join_slash ss) \<noteq> SLASH"
proof (induction ss rule: join_slash.induct)
  case (2 s)
  then show ?case by (metis join_slash.simps(2) last_in_set list.set_intros(1) proper_def)
next
  case (3 s t ss)
  then have "join_slash (t # ss) \<noteq> []" by (cases ss) (auto simp: proper_def)
  with 3 show ?case by simp
qed simp

lemma split_path_join:
  assumes "\<forall>s \<in> set rs. proper s" "\<not> has_root p"
  shows "split_slash (path_join (abs_path rs) p) = [] # rs @ split_slash p"
    "has_root (path_join (abs_path rs) p)"
proof -
  have "split_slash (path_join (abs_path rs) p) = [] # rs @ split_slash p \<and>
      has_root (path_join (abs_path rs) p)"
  proof (cases "rs = []")
    case True
    with assms(2) show ?thesis by (simp add: path_join_def abs_path_def has_root_def)
  next
    case False
    then have "join_slash rs \<noteq> []"
      using assms(1) by (cases rs rule: join_slash.cases) (auto simp: proper_def)
    then have "last (abs_path rs) \<noteq> SLASH"
      using last_join_slash [OF False assms(1)] by (simp add: abs_path_def)
    then have "path_join (abs_path rs) p = abs_path rs @ SLASH # p"
      using assms(2) by (simp add: path_join_def)
    then show ?thesis
      using split_append_slash [of "abs_path rs" p] split_abs_path [OF False assms(1)]
      by (simp add: has_root_def abs_path_def)
  qed
  then show "split_slash (path_join (abs_path rs) p) = [] # rs @ split_slash p"
    "has_root (path_join (abs_path rs) p)" by blast+
qed

lemma resolve_path_join:
  assumes "\<forall>s \<in> set rs. proper s" "\<not> has_root p" "real_path fs rs"
  shows "resolve_path fs cwd (path_join (abs_path rs) p) = walk fs MAX_SYMLINKS rs (split_slash p)"
  using split_path_join [OF assms(1,2)] walk_real_append [of fs "[]" rs] assms(1,3)
  by (auto simp: resolve_path_def has_root_def)

section \<open>Ancestors\<close>

inductive path_ancestor :: "string \<Rightarrow> string \<Rightarrow> bool" where
  ancestor_refl: "path_ancestor p p"
| ancestor_parent: "path_parent p = Some q \<Longrightarrow> path_ancestor a q \<Longrightarrow> path_ancestor a p"

lemma in_component_positions:
  "i \<in> set (component_positions ss) \<longleftrightarrow>
     i < length ss \<and> (\<not> skipped (ss ! i) \<or> i = 0 \<and> ss ! i = ''.'')"
  by (auto simp: component_positions_def)

lemma component_positions_last:
  assumes "pre \<noteq> []" "\<not> skipped s" "\<forall>v \<in> set vs. skipped v"
  shows "component_positions (pre @ s # vs) = component_positions pre @ [length pre]"
proof -
  let ?Q = "\<lambda>i. \<not> skipped ((pre @ s # vs) ! i) \<or> i = 0 \<and> (pre @ s # vs) ! i = ''.''"
  have upt: "[0..<length (pre @ s # vs)] =
      [0..<length pre] @ [length pre] @ [Suc (length pre)..<length pre + Suc (length vs)]"
    using upt_add_eq_append [of 0 "length pre" "Suc (length vs)"]
      upt_conv_Cons [of "length pre" "length pre + Suc (length vs)"] by simp
  have rest: "filter ?Q [Suc (length pre)..<length pre + Suc (length vs)] = []"
    unfolding filter_empty_conv
  proof
    fix i assume "i \<in> set [Suc (length pre)..<length pre + Suc (length vs)]"
    then obtain j where j: "i = length pre + Suc j" "j < length vs"
      by (auto simp: less_eq_Suc_le dest!: le_Suc_ex)
    then have "(pre @ s # vs) ! i = vs ! j" by (simp add: nth_append)
    then show "\<not> ?Q i" using assms(3) j by simp
  qed
  have "filter ?Q [0..<length pre] = component_positions pre"
    unfolding component_positions_def by (rule filter_cong) (auto simp: nth_append)
  moreover have "filter ?Q [length pre] = [length pre]" using assms(2) by simp
  ultimately show ?thesis
    unfolding component_positions_def [of "pre @ s # vs"] upt filter_append rest by simp
qed

text \<open>The parent of a path below a canonical root is still at or below that root.\<close>

lemma parent_below_root:
  assumes rs: "\<forall>s \<in> set rs. proper s" and us: "\<forall>s \<in> set (us @ s # vs). SLASH \<notin> set s"
    and s: "\<not> skipped s" "\<forall>v \<in> set vs. skipped v"
  shows "path_parent (join_slash ([] # rs @ us @ s # vs)) = Some (abs_path rs) \<or>
    (\<exists>k. rs @ take k us \<noteq> [] \<and>
       path_parent (join_slash ([] # rs @ us @ s # vs)) = Some (join_slash ([] # rs @ take k us)))"
proof -
  let ?pre = "[] # rs @ us" and ?p = "join_slash ([] # rs @ us @ s # vs)"
  have "\<forall>s \<in> set rs. SLASH \<notin> set s" using rs by (simp add: proper_def)
  with us have split: "split_slash ?p = ?pre @ s # vs"
    using split_join [of "?pre @ s # vs"] by auto
  have root: "has_root ?p" by (cases "rs @ us @ s # vs") (simp_all add: has_root_def)
  have pos: "component_positions (split_slash ?p) = component_positions ?pre @ [length ?pre]"
    unfolding split by (rule component_positions_last) (use s in simp_all)
  have rs_pos: "k \<in> set (component_positions ?pre)" if k: "0 < k" "k \<le> length rs" for k
  proof -
    obtain j where j: "k = Suc j" "j < length rs" using k by (cases k) auto
    then have "?pre ! k = rs ! j" by (simp add: nth_append)
    moreover have "proper (rs ! j)" using rs j(2) by simp
    ultimately show ?thesis using j by (simp add: in_component_positions)
  qed
  have pos0: "0 \<notin> set (component_positions ?pre)" by (simp add: in_component_positions)
  show ?thesis
  proof (cases "rev (component_positions ?pre)")
    case Nil
    then have "rs = []" using rs_pos [of 1] by (cases rs) auto
    with Nil pos root show ?thesis by (simp add: path_parent_def Let_def abs_path_def)
  next
    case (Cons i js)
    then have i: "i \<in> set (component_positions ?pre)" "component_positions ?pre = rev js @ [i]"
      by (metis list.set_intros(1) set_rev, metis rev.simps(2) rev_rev_ident)
    have "sorted_wrt (<) (rev js @ [i])"
      using component_positions_sorted [of ?pre] unfolding i(2) .
    then have "length rs \<le> i"
      using rs_pos [of "length rs"] i(2) by (cases "rs = []") (auto simp: sorted_wrt_append)
    moreover have "i < Suc (length rs + length us)"
      using component_positions_less [OF i(1)] by simp
    ultimately have "take (Suc i) (split_slash ?p) = [] # rs @ take (i - length rs) us"
      unfolding split by simp
    moreover have "rs @ take (i - length rs) us \<noteq> []"
    proof (cases "rs = []")
      case True
      have "i \<noteq> 0" using i(1) pos0 by metis
      with True \<open>i < Suc (length rs + length us)\<close> show ?thesis by auto
    qed simp
    ultimately show ?thesis using Cons pos
      by (intro disjI2 exI [of _ "i - length rs"]) (simp add: path_parent_def Let_def)
  qed
qed

lemma root_is_ancestor:
  assumes rs: "\<forall>s \<in> set rs. proper s" and "\<forall>s \<in> set ps. SLASH \<notin> set s" "rs @ ps \<noteq> []"
  shows "path_ancestor (abs_path rs) (join_slash ([] # rs @ ps)) \<or>
    (\<exists>vs. rs @ vs \<noteq> [] \<and> (\<forall>v \<in> set vs. skipped v) \<and> (\<forall>s \<in> set vs. SLASH \<notin> set s) \<and>
       path_ancestor (join_slash ([] # rs @ vs)) (join_slash ([] # rs @ ps)))"
  using assms(2,3)
proof (induction "length ps" arbitrary: ps rule: less_induct)
  case less
  show ?case
  proof (cases "\<forall>v \<in> set ps. skipped v")
    case True
    with less.prems show ?thesis using ancestor_refl by blast
  next
    case False
    then obtain us s vs where ps: "ps = us @ s # vs" "\<not> skipped s" "\<forall>v \<in> set vs. skipped v"
      using split_list_last_prop [of ps "\<lambda>s. \<not> skipped s"] by auto
    consider "path_parent (join_slash ([] # rs @ ps)) = Some (abs_path rs)"
      | k where "rs @ take k us \<noteq> []"
        "path_parent (join_slash ([] # rs @ ps)) = Some (join_slash ([] # rs @ take k us))"
      using parent_below_root [OF rs less.prems(1) [unfolded ps(1)] ps(2,3)] unfolding ps(1) by blast
    then show ?thesis
    proof cases
      case 1
      then show ?thesis using ancestor_parent ancestor_refl by blast
    next
      case (2 k)
      have "length (take k us) < length ps" "\<forall>s \<in> set (take k us). SLASH \<notin> set s"
        using ps(1) less.prems by (auto dest: in_set_takeD)
      from less.hyps [OF this 2(1)] show ?thesis using ancestor_parent [OF 2(2)] by blast
    qed
  qed
qed

lemma walk_skipped:
  assumes "cur = [] \<or> fs cur = Some DirNode" "\<forall>v \<in> set vs. skipped v"
  shows "walk fs n cur vs = Inr cur"
  using assms(2)
proof (induction vs)
  case (Cons v vs)
  then show ?case using assms(1) by auto
qed simp

text \<open>Below a root that is a directory, some ancestor always exists.\<close>

lemma existing_ancestor:
  assumes "\<forall>s \<in> set rs. proper s" "\<not> has_root p" "real_path fs rs" "rs = [] \<or> fs rs = Some DirNode"
  shows "\<exists>a. path_ancestor a (path_join (abs_path rs) p) \<and> fs_exists fs cwd a"
proof -
  have join: "path_join (abs_path rs) p = join_slash ([] # rs @ split_slash p)"
    using split_path_join(1) [OF assms(1,2)] join_split by metis
  have here: "fs_exists fs cwd (abs_path rs)"
    by (simp add: fs_exists_def resolve_abs_path [OF assms(3,1)])
  have below: "fs_exists fs cwd (join_slash ([] # rs @ vs))"
    if vs: "\<forall>v \<in> set vs. skipped v" "\<forall>s \<in> set vs. SLASH \<notin> set s" and ne: "rs @ vs \<noteq> []" for vs
  proof -
    have "\<forall>s \<in> set ([] # rs @ vs). SLASH \<notin> set s" using vs(2) assms(1) by (auto simp: proper_def)
    then have "split_slash (join_slash ([] # rs @ vs)) = [] # rs @ vs" by (intro split_join) auto
    moreover have "has_root (join_slash ([] # rs @ vs))" "join_slash ([] # rs @ vs) \<noteq> []"
      using ne by (cases "rs @ vs"; simp add: has_root_def)+
    ultimately show ?thesis
      using walk_real_append [of fs "[]" rs MAX_SYMLINKS vs] walk_skipped [of rs fs vs MAX_SYMLINKS] assms vs(1)
      by (simp add: fs_exists_def resolve_path_def)
  qed
  have "path_ancestor (abs_path rs) (path_join (abs_path rs) p) \<or>
    (\<exists>vs. rs @ vs \<noteq> [] \<and> (\<forall>v \<in> set vs. skipped v) \<and> (\<forall>s \<in> set vs. SLASH \<notin> set s) \<and>
       path_ancestor (join_slash ([] # rs @ vs)) (path_join (abs_path rs) p))"
    unfolding join by (rule root_is_ancestor [OF assms(1)]) (auto dest: split_no_slash)
  then show ?thesis using here below by blast
qed

section \<open>Symbolic links to nothing\<close>

lemma walk_more_links: "walk fs n cur ss = Inr cs \<Longrightarrow> walk fs (Suc n) cur ss = Inr cs"
proof (induction fs n cur ss rule: walk.induct)
  case (2 fs n cur s ss)
  have dir: "\<not> (cur \<noteq> [] \<and> fs cur \<noteq> Some DirNode)" using "2.prems" by (auto split: if_splits)
  note step = "2.prems" [unfolded walk.simps(2) if_not_P [OF dir]]
  show ?case
  proof (cases "skipped s \<or> s = ''..''")
    case True
    then show ?thesis using step "2.IH"(1,2) [OF dir] dir by (auto split: if_splits)
  next
    case False
    then have s: "\<not> skipped s" "s \<noteq> ''..''" by simp_all
    obtain nd where nd: "fs (cur @ [s]) = Some nd" using step s by (auto split: option.splits)
    show ?thesis
    proof (cases nd)
      case (LinkNode target)
      with step s nd obtain m where m: "n = Suc m" "target \<noteq> []" by (auto split: nat.splits if_splits)
      with step s nd LinkNode "2.IH"(5) [OF dir s nd LinkNode m] show ?thesis
        unfolding walk.simps(2) if_not_P [OF dir] by simp
    next
      case DirNode
      with step s nd "2.IH"(3) [OF dir s nd DirNode] show ?thesis
        unfolding walk.simps(2) if_not_P [OF dir] by simp
    next
      case (FileNode b)
      with step s nd "2.IH"(4) [OF dir s nd FileNode] show ?thesis
        unfolding walk.simps(2) if_not_P [OF dir] by simp
    qed
  qed
qed simp

lemma parent_abs_path:
  assumes "\<forall>s \<in> set (cs @ [s]). proper s"
  shows "path_parent (abs_path (cs @ [s])) = Some (abs_path cs)"
proof -
  have split: "split_slash (abs_path (cs @ [s])) = ([] # cs) @ [s]"
    using split_abs_path [of "cs @ [s]"] assms by simp
  have pos: "component_positions (([] # cs) @ [s]) = component_positions ([] # cs) @ [Suc (length cs)]"
    using component_positions_last [of "[] # cs" s "[]"] assms by simp
  show ?thesis
  proof (cases cs rule: rev_cases)
    case Nil
    then have "component_positions ([] # cs) = []" by (simp add: component_positions_def)
    with Nil split pos show ?thesis by (simp add: path_parent_def abs_path_def has_root_def)
  next
    case (snoc cs' s')
    then have "component_positions ([] # cs) = component_positions ([] # cs') @ [length cs]"
      using component_positions_last [of "[] # cs'" s' "[]"] assms by simp
    moreover have "join_slash ([] # cs) = abs_path cs" by (cases cs) (use snoc in \<open>simp_all add: abs_path_def\<close>)
    ultimately show ?thesis using split pos by (simp add: path_parent_def)
  qed
qed

lemma path_join_abs:
  assumes "\<forall>s \<in> set rs. proper s" "\<forall>s \<in> set ps. proper s" "ps \<noteq> []"
  shows "\<not> has_root (join_slash ps)" "split_slash (join_slash ps) = ps"
    "path_join (abs_path rs) (join_slash ps) = abs_path (rs @ ps)"
proof -
  show split: "split_slash (join_slash ps) = ps"
    using split_join [of ps] assms(2,3) by (simp add: proper_def)
  then have "hd (split_slash (join_slash ps)) \<noteq> []" using assms(2,3) by (simp add: proper_def)
  then show root: "\<not> has_root (join_slash ps)" by (simp add: split_hd_Nil has_root_def)
  have "path_join (abs_path rs) (join_slash ps) = join_slash ([] # rs @ ps)"
    using split_path_join(1) [OF assms(1) root] split join_split by metis
  then show "path_join (abs_path rs) (join_slash ps) = abs_path (rs @ ps)"
    using assms(3) by (cases "rs @ ps") (simp_all add: abs_path_def)
qed

text \<open>A link whose target, read from the directory of the link, does not exist, does not exist either.\<close>

lemma dangling_link_missing:
  assumes "\<forall>s \<in> set (cs @ [s]). proper s" "real_path fs cs" "cs = [] \<or> fs cs = Some DirNode"
    and "fs (cs @ [s]) = Some (LinkNode target)" "\<not> fs_exists fs cs target"
  shows "\<not> fs_exists fs cwd (abs_path (cs @ [s]))"
proof -
  have s: "\<not> skipped s" "s \<noteq> ''..''" using assms(1) by (auto simp: proper_def skipped_def)
  have here: "walk fs MAX_SYMLINKS [] (cs @ [s]) =
      (if target = [] then Inl ENOENT
       else walk fs 39 (if is_absolute target then [] else cs) (split_slash target))"
    using walk_real_append [of fs "[]" cs MAX_SYMLINKS "[s]"] assms(1-4) s
    by (auto simp: MAX_SYMLINKS_def numeral_eq_Suc)
  have "walk fs 39 (if is_absolute target then [] else cs) (split_slash target) \<noteq> Inr x"
    if "target \<noteq> []" for x
    using walk_more_links [of fs 39 "if is_absolute target then [] else cs" "split_slash target" x] assms(5) that
    by (auto simp: fs_exists_def resolve_path_def MAX_SYMLINKS_def)
  then have "walk fs MAX_SYMLINKS [] (cs @ [s]) \<noteq> Inr x" for x unfolding here by simp
  then show ?thesis
    using split_abs_path [of "cs @ [s]"] assms(1)
    by (auto simp: fs_exists_def resolve_path_def split: sum.splits)
qed

end
