(* ===== verification/Workspace.thy ===== *)
theory Workspace
  imports Rust_Path Rust_Str Rust_Utf8
begin

text \<open>
  The file-system boundary of the tools, \<^verbatim>\<open>src/crates/kodo/src/workspace.rs\<close>: validation of
  model-supplied paths, resolution of existing and of new paths, bounded reads and the
  replacement of a unique piece of text.  Paths are resolved on the file system of
  \<^verbatim>\<open>Rust_Path\<close>.  The directory capability is library code: its operations are a record of
  functions on a state \<open>'d\<close>, a parameter of the operations that use them, as are the Git
  command of \<open>discover\<close> and the file lock of \<open>lock_runner\<close>.
\<close>

section \<open>State\<close>

datatype workspace_error =
    NotARepository string
  | AbsolutePath string
  | ParentTraversal string
  | OutsideWorkspace string
  | NoExistingAncestor string
  | FileTooLarge string usize
  | RunnerAlreadyActive string
  | WorkspaceIo string io_error
  | WorkspacePanic string

text \<open>\<open>Display\<close> of the errors: a path is shown by \<open>Path::display\<close>, which replaces what is not UTF-8.\<close>

fun workspace_error_to_string :: "workspace_error \<Rightarrow> string" where
  "workspace_error_to_string (NotARepository p) = from_utf8_lossy p @ '' is not inside a Git repository''"
| "workspace_error_to_string (AbsolutePath p) = ''workspace path must be relative: '' @ from_utf8_lossy p"
| "workspace_error_to_string (ParentTraversal p) =
     ''workspace path cannot contain parent-directory components: '' @ from_utf8_lossy p"
| "workspace_error_to_string (OutsideWorkspace p) = ''path escapes the workspace: '' @ from_utf8_lossy p"
| "workspace_error_to_string (NoExistingAncestor p) = ''path has no existing ancestor: '' @ from_utf8_lossy p"
| "workspace_error_to_string (FileTooLarge p limit) =
     ''file exceeds '' @ show_nat limit @ '' byte input limit: '' @ from_utf8_lossy p"
| "workspace_error_to_string (RunnerAlreadyActive p) =
     ''another Kodo runner is already active for workspace: '' @ from_utf8_lossy p"
| "workspace_error_to_string (WorkspaceIo p e) = ''failed to access '' @ from_utf8_lossy p @ '': '' @ io_message e"
| "workspace_error_to_string (WorkspacePanic m) = m"

text \<open>What the code asks of a directory capability.\<close>

record 'd dir_ops =
  cap_open_dir :: "string \<Rightarrow> io_error + 'd"
  cap_read_to_string :: "'d \<Rightarrow> string \<Rightarrow> io_error + string"
  cap_read_take :: "'d \<Rightarrow> string \<Rightarrow> nat \<Rightarrow> io_error + bytes"
  cap_is_file :: "'d \<Rightarrow> string \<Rightarrow> io_error + bool"
  cap_permissions :: "'d \<Rightarrow> string \<Rightarrow> io_error + nat"
  cap_create_new :: "'d \<Rightarrow> string \<Rightarrow> 'd \<times> (io_error + unit)"
  cap_set_permissions :: "'d \<Rightarrow> string \<Rightarrow> nat \<Rightarrow> 'd \<times> (io_error + unit)"
  cap_write_all :: "'d \<Rightarrow> string \<Rightarrow> bytes \<Rightarrow> 'd \<times> (io_error + unit)"
  cap_sync_all :: "'d \<Rightarrow> string \<Rightarrow> 'd \<times> (io_error + unit)"
  cap_rename :: "'d \<Rightarrow> string \<Rightarrow> string \<Rightarrow> 'd \<times> (io_error + unit)"
  cap_remove_file :: "'d \<Rightarrow> string \<Rightarrow> 'd \<times> (io_error + unit)"

record 'd workspace =
  ws_root :: string
  ws_root_dir :: 'd

section \<open>Paths\<close>

definition validate_relative :: "string \<Rightarrow> workspace_error + string" where
  "validate_relative path =
     (if is_absolute path then Inl (AbsolutePath path)
      else if list_ex (\<lambda>c. c = ParentDir \<or> c = RootDir) (components path) then
        Inl (ParentTraversal path)
      else Inr path)"

definition canonicalize :: "file_system \<Rightarrow> string list \<Rightarrow> string \<Rightarrow> workspace_error + string" where
  "canonicalize fs cwd path =
     (case fs_canonicalize fs cwd path of
        Inl e \<Rightarrow> Inl (WorkspaceIo path e)
      | Inr p \<Rightarrow> Inr p)"

definition ensure_confined :: "string \<Rightarrow> string \<Rightarrow> workspace_error + string" where
  "ensure_confined root path =
     (if path_starts_with path root then Inr path else Inl (OutsideWorkspace path))"

definition resolve ::
  "file_system \<Rightarrow> string list \<Rightarrow> 'd workspace \<Rightarrow> string \<Rightarrow> workspace_error + string" where
  "resolve fs cwd ws path =
     (case validate_relative path of
        Inl e \<Rightarrow> Inl e
      | Inr path \<Rightarrow>
          (case canonicalize fs cwd (path_join (ws_root ws) path) of
             Inl e \<Rightarrow> Inl e
           | Inr resolved \<Rightarrow> ensure_confined (ws_root ws) resolved))"

text \<open>The loop of \<open>resolve_new\<close>: the nearest ancestor that exists.\<close>

function nearest_existing :: "(string \<Rightarrow> bool) \<Rightarrow> string \<Rightarrow> string option" where
  "nearest_existing ex p =
     (if ex p then Some p
      else case path_parent p of None \<Rightarrow> None | Some q \<Rightarrow> nearest_existing ex q)"
  by pat_completeness auto
termination by (relation "measure (\<lambda>(ex, p). length p)") (auto simp: path_parent_shorter)

declare nearest_existing.simps [simp del]

definition resolve_new ::
  "file_system \<Rightarrow> string list \<Rightarrow> 'd workspace \<Rightarrow> string \<Rightarrow> workspace_error + string" where
  "resolve_new fs cwd ws path =
     (case validate_relative path of
        Inl e \<Rightarrow> Inl e
      | Inr path \<Rightarrow>
          (let candidate = path_join (ws_root ws) path in
           case nearest_existing (fs_exists fs cwd) candidate of
             None \<Rightarrow> Inl (NoExistingAncestor candidate)
           | Some ancestor \<Rightarrow>
               (case canonicalize fs cwd ancestor of
                  Inl e \<Rightarrow> Inl e
                | Inr canonical_ancestor \<Rightarrow>
                    (case ensure_confined (ws_root ws) canonical_ancestor of
                       Inl e \<Rightarrow> Inl e
                     | Inr _ \<Rightarrow> Inr candidate))))"

section \<open>Construction\<close>

definition from_root ::
  "file_system \<Rightarrow> string list \<Rightarrow> 'd dir_ops \<Rightarrow> string \<Rightarrow> workspace_error + 'd workspace" where
  "from_root fs cwd ops root =
     (case canonicalize fs cwd root of
        Inl e \<Rightarrow> Inl e
      | Inr root \<Rightarrow>
          (case cap_open_dir ops root of
             Inl e \<Rightarrow> Inl (WorkspaceIo root e)
           | Inr dir \<Rightarrow> Inr \<lparr>ws_root = root, ws_root_dir = dir\<rparr>))"

text \<open>\<open>git_toplevel\<close> runs \<^verbatim>\<open>git rev-parse --show-toplevel\<close> in a directory: the error of the
  spawn, or whether it succeeded and what it printed.\<close>

definition discover ::
  "file_system \<Rightarrow> string list \<Rightarrow> 'd dir_ops \<Rightarrow> (string \<Rightarrow> io_error + bool \<times> bytes) \<Rightarrow> string \<Rightarrow>
   workspace_error + 'd workspace" where
  "discover fs cwd ops git_toplevel start =
     (case canonicalize fs cwd start of
        Inl e \<Rightarrow> Inl e
      | Inr start \<Rightarrow>
          (case git_toplevel start of
             Inl e \<Rightarrow> Inl (WorkspaceIo start e)
           | Inr (success, stdout) \<Rightarrow>
               if \<not> success then Inl (NotARepository start)
               else from_root fs cwd ops (trim (from_utf8_lossy stdout))))"

text \<open>
  \<open>lock_runner\<close>: \<open>temp_dir\<close> is the system's directory for temporary files and \<open>lock_name\<close>
  the hexadecimal digest of the root; making the directory, opening the file and locking it
  are functions of the paths.
\<close>

definition lock_runner ::
  "string \<Rightarrow> (string \<Rightarrow> string) \<Rightarrow> (string \<Rightarrow> io_error + unit) \<Rightarrow> (string \<Rightarrow> io_error + unit) \<Rightarrow>
   (string \<Rightarrow> io_error + unit) \<Rightarrow> 'd workspace \<Rightarrow> workspace_error + string" where
  "lock_runner temp_dir hex_digest create_dir_all open_lock try_lock ws =
     (let lock_dir = path_join temp_dir ''kodo-workspace-locks'' in
      case create_dir_all lock_dir of
        Inl e \<Rightarrow> Inl (WorkspaceIo lock_dir e)
      | Inr _ \<Rightarrow>
          (let lock_path = path_join lock_dir (hex_digest (ws_root ws) @ ''.lock'') in
           case open_lock lock_path of
             Inl e \<Rightarrow> Inl (WorkspaceIo lock_path e)
           | Inr _ \<Rightarrow>
               (case try_lock lock_path of
                  Inl e \<Rightarrow>
                    if io_kind_of e = WouldBlock then Inl (RunnerAlreadyActive (ws_root ws))
                    else Inl (WorkspaceIo lock_path e)
                | Inr _ \<Rightarrow> Inr lock_path)))"

section \<open>Reading\<close>

definition read_to_string :: "'d dir_ops \<Rightarrow> 'd workspace \<Rightarrow> string \<Rightarrow> workspace_error + string" where
  "read_to_string ops ws path =
     (case validate_relative path of
        Inl e \<Rightarrow> Inl e
      | Inr path \<Rightarrow>
          (case cap_read_to_string ops (ws_root_dir ws) path of
             Inl e \<Rightarrow> Inl (WorkspaceIo (path_join (ws_root ws) path) e)
           | Inr str \<Rightarrow> Inr str))"

text \<open>\<open>Display\<close> of a \<open>FromUtf8Error\<close>.\<close>

fun invalid_utf8 :: "nat \<times> nat option \<Rightarrow> io_error" where
  "invalid_utf8 (valid_up_to, Some error_len) =
     IoError InvalidData (''invalid utf-8 sequence of '' @ show_nat error_len @
       '' bytes from index '' @ show_nat valid_up_to)"
| "invalid_utf8 (valid_up_to, None) =
     IoError InvalidData (''incomplete utf-8 byte sequence from index '' @ show_nat valid_up_to)"

text \<open>The read both bounded operations share: at most one byte past the limit is read.\<close>

definition read_checked ::
  "'d dir_ops \<Rightarrow> 'd \<Rightarrow> string \<Rightarrow> string \<Rightarrow> usize \<Rightarrow> workspace_error + string" where
  "read_checked ops d path display_path limit =
     (case cap_read_take ops d path (saturating_add limit 1) of
        Inl e \<Rightarrow> Inl (WorkspaceIo display_path e)
      | Inr bs \<Rightarrow>
          if length bs > limit then Inl (FileTooLarge display_path limit)
          else case from_utf8 bs of
            Inl e \<Rightarrow> Inl (WorkspaceIo display_path (invalid_utf8 e))
          | Inr _ \<Rightarrow> Inr bs)"

definition read_to_string_bounded ::
  "'d dir_ops \<Rightarrow> 'd workspace \<Rightarrow> string \<Rightarrow> usize \<Rightarrow> workspace_error + string" where
  "read_to_string_bounded ops ws path limit =
     (case validate_relative path of
        Inl e \<Rightarrow> Inl e
      | Inr path \<Rightarrow>
          read_checked ops (ws_root_dir ws) path (path_join (ws_root ws) path) limit)"

definition is_file :: "'d dir_ops \<Rightarrow> 'd workspace \<Rightarrow> string \<Rightarrow> workspace_error + bool" where
  "is_file ops ws path =
     (case validate_relative path of
        Inl e \<Rightarrow> Inl e
      | Inr path \<Rightarrow>
          (case cap_is_file ops (ws_root_dir ws) path of
             Inl e \<Rightarrow> Inl (WorkspaceIo (path_join (ws_root ws) path) e)
           | Inr b \<Rightarrow> Inr b))"

section \<open>Replacing text\<close>

definition temporary_path :: "string \<Rightarrow> string \<Rightarrow> string \<Rightarrow> string" where
  "temporary_path path name token =
     path_join (case path_parent path of None \<Rightarrow> [] | Some p \<Rightarrow> p)
       (''.'' @ from_utf8_lossy name @ ''.kodo-'' @ token @ ''.tmp'')"

text \<open>The closure that writes the temporary file and renames it: each \<open>?\<close> of the code ends it.\<close>

definition write_and_rename ::
  "'d dir_ops \<Rightarrow> 'd \<Rightarrow> string \<Rightarrow> string \<Rightarrow> nat \<Rightarrow> string \<Rightarrow> 'd \<times> (io_error + unit)" where
  "write_and_rename ops d temp path permissions str =
     (case cap_create_new ops d temp of
        (d, Inl e) \<Rightarrow> (d, Inl e)
      | (d, Inr _) \<Rightarrow>
          (case cap_set_permissions ops d temp permissions of
             (d, Inl e) \<Rightarrow> (d, Inl e)
           | (d, Inr _) \<Rightarrow>
               (case cap_write_all ops d temp str of
                  (d, Inl e) \<Rightarrow> (d, Inl e)
                | (d, Inr _) \<Rightarrow>
                    (case cap_sync_all ops d temp of
                       (d, Inl e) \<Rightarrow> (d, Inl e)
                     | (d, Inr _) \<Rightarrow> cap_rename ops d temp path))))"

text \<open>\<open>token\<close> is the fresh identifier in the temporary name.  The directory state is threaded
  through, so the result says what became of it on every path.\<close>

definition replace_text_if_unique ::
  "'d dir_ops \<Rightarrow> 'd workspace \<Rightarrow> string \<Rightarrow> string \<Rightarrow> string \<Rightarrow> string \<Rightarrow> usize \<Rightarrow>
   'd \<times> (workspace_error + bool)" where
  "replace_text_if_unique ops ws token path old_text new_text limit =
     (let d = ws_root_dir ws in
      case validate_relative path of
        Inl e \<Rightarrow> (d, Inl e)
      | Inr path \<Rightarrow>
          (let display_path = path_join (ws_root ws) path in
           case read_checked ops d path display_path limit of
             Inl e \<Rightarrow> (d, Inl e)
           | Inr str \<Rightarrow>
               if match_count_2 old_text str \<noteq> 1 then (d, Inr False)
               else
                 (let replaced = replace_first old_text new_text str in
                  if length replaced > limit then (d, Inl (FileTooLarge display_path limit))
                  else
                    (case cap_permissions ops d path of
                       Inl e \<Rightarrow> (d, Inl (WorkspaceIo display_path e))
                     | Inr permissions \<Rightarrow>
                         (case file_name path of
                            None \<Rightarrow> (d, Inl (WorkspacePanic ''validated file path has a file name''))
                          | Some name \<Rightarrow>
                              (let temp = temporary_path path name token in
                               case write_and_rename ops d temp path permissions replaced of
                                 (d, Inl e) \<Rightarrow>
                                   (fst (cap_remove_file ops d temp), Inl (WorkspaceIo display_path e))
                               | (d, Inr _) \<Rightarrow> (d, Inr True)))))))"

section \<open>Facts on validation and resolution\<close>

lemma seg_components_parent: "ParentDir \<in> set (seg_components ss) \<longleftrightarrow> ''..'' \<in> set ss"
  by (auto simp: seg_components_def seg_component_def image_iff split: if_splits)

lemma seg_components_no_root: "RootDir \<notin> set (seg_components ss)"
  by (auto simp: seg_components_def seg_component_def split: if_splits)

text \<open>Exactly the relative paths without a parent segment are accepted, and unchanged.\<close>

lemma validate_relative_Inr:
  "validate_relative path = Inr q \<longleftrightarrow> q = path \<and> \<not> has_root path \<and> ''..'' \<notin> set (split_slash path)"
proof (cases "has_root path")
  case False
  obtain s ss where ss: "split_slash path = s # ss" by (cases "split_slash path") simp_all
  have "list_ex (\<lambda>c. c = ParentDir \<or> c = RootDir) (components path) \<longleftrightarrow> ''..'' \<in> set (split_slash path)"
    using False seg_components_parent [of "s # ss"] seg_components_no_root [of "s # ss"]
    unfolding components_def ss by (auto simp: list_ex_iff)
  with False show ?thesis by (auto simp: validate_relative_def)
qed (simp add: validate_relative_def)

lemma resolve_InrE:
  assumes "resolve fs cwd ws path = Inr q" "ws_root ws = abs_path rs" "\<forall>s \<in> set rs. proper s"
  obtains cs where "q = abs_path cs" "prefix rs cs" "real_path fs cs" "\<forall>s \<in> set cs. proper s"
    "resolve_path fs cwd (path_join (ws_root ws) path) = Inr cs" "validate_relative path = Inr path"
proof -
  have v: "validate_relative path = Inr path"
    and c: "fs_canonicalize fs cwd (path_join (ws_root ws) path) = Inr q"
    and p: "path_starts_with q (ws_root ws)"
    using assms(1)
    by (auto simp: resolve_def canonicalize_def ensure_confined_def validate_relative_Inr
        split: sum.splits if_splits)
  obtain cs where cs: "resolve_path fs cwd (path_join (ws_root ws) path) = Inr cs" "q = abs_path cs"
    using c by (auto simp: fs_canonicalize_def split: sum.splits)
  have "has_root (path_join (ws_root ws) path)"
    using split_path_join(2) [OF assms(3)] v assms(2) by (simp add: validate_relative_Inr)
  then have "resolve_path fs [] (path_join (ws_root ws) path) = Inr cs"
    using cs(1) by (auto simp: resolve_path_def split: if_splits)
  from resolve_path_real [OF this] have "real_path fs cs" "\<forall>s \<in> set cs. proper s" by simp_all
  moreover from p this have "prefix rs cs"
    unfolding assms(2) cs(2) by (simp add: starts_with_abs_path assms(3))
  ultimately show ?thesis using that cs v by blast
qed

lemma nearest_existing_Some:
  "nearest_existing ex p = Some a \<Longrightarrow> path_ancestor a p \<and> ex a"
proof (induction ex p rule: nearest_existing.induct)
  case (1 ex p)
  then show ?case
    using nearest_existing.simps [of ex p]
    by (auto split: if_splits option.splits intro: path_ancestor.intros)
qed

text \<open>Every existing ancestor is an ancestor of the one found.\<close>

lemma nearest_existing_nearest:
  assumes "path_ancestor b p" "ex b"
  shows "\<exists>a. nearest_existing ex p = Some a \<and> path_ancestor b a"
  using assms
proof (induction rule: path_ancestor.induct)
  case (ancestor_refl p)
  then show ?case by (subst nearest_existing.simps) (auto intro: path_ancestor.ancestor_refl)
next
  case (ancestor_parent p q a)
  then show ?case
    by (subst nearest_existing.simps) (auto intro: path_ancestor.ancestor_parent)
qed

lemma resolve_new_InrE:
  assumes "resolve_new fs cwd ws path = Inr q"
  obtains a cs where "q = path_join (ws_root ws) path" "validate_relative path = Inr path"
    "nearest_existing (fs_exists fs cwd) q = Some a" "resolve_path fs cwd a = Inr cs"
    "path_starts_with (abs_path cs) (ws_root ws)"
  using assms
  by (auto simp: resolve_new_def canonicalize_def ensure_confined_def fs_canonicalize_def
      validate_relative_Inr Let_def split: sum.splits option.splits if_splits)

section \<open>Properties\<close>

text \<open>A file system with a workspace \<open>/w\<close>, a file in it, a link \<open>/w/out\<close> to a directory
  outside and a link \<open>/w/gone\<close> to a file outside that does not exist.\<close>

definition demo_fs :: file_system where
  "demo_fs p =
     (if p = [''w''] \<or> p = [''etc''] then Some DirNode
      else if p = [''w'', ''f''] then Some (FileNode ''a'')
      else if p = [''w'', ''out''] then Some (LinkNode ''/etc'')
      else if p = [''w'', ''gone''] then Some (LinkNode ''/etc/new'')
      else None)"

definition demo_workspace :: "unit workspace" where
  "demo_workspace = \<lparr>ws_root = ''/w'', ws_root_dir = ()\<rparr>"

lemma demo_root: "ws_root demo_workspace = abs_path [''w'']" "\<forall>s \<in> set [''w'']. proper s"
  by (simp_all add: demo_workspace_def abs_path_def SLASH_def proper_def)

lemma demo_real: "real_path demo_fs [''w'']" "demo_fs [''w''] = Some DirNode"
  by (simp_all add: real_path_def demo_fs_def)

text \<open>C17.  Existing paths are confined: for a workspace with canonical root \<open>rs\<close>, a path that
  \<open>resolve\<close> accepts resolves, with every symbolic link followed, to a canonical path below
  the root that contains no link, so that opening the result cannot leave the workspace.\<close>

theorem resolve_confined:
  assumes "ws_root ws = abs_path rs" "\<forall>s \<in> set rs. proper s"
    and "resolve fs cwd ws path = Inr q"
  shows "\<exists>cs. q = abs_path cs \<and> prefix rs cs \<and> real_path fs cs \<and>
    (\<forall>cwd'. resolve_path fs cwd' q = Inr cs)"
  using resolve_InrE [OF assms(3,1,2)] resolve_abs_path by metis

theorem resolve_confined_witness:
  "\<exists>cs. ''/w/f'' = abs_path cs \<and> prefix [''w''] cs \<and> real_path demo_fs cs"
proof -
  have "resolve demo_fs [] demo_workspace ''f'' = Inr ''/w/f''" by code_simp
  from resolve_confined [OF demo_root this] show ?thesis by blast
qed

text \<open>\<open>resolve_new\<close> on a workspace whose root is a directory always finds an existing
  ancestor.  It accepts a path exactly when the path is relative without parent segments
  and the nearest existing ancestor resolves to a path at or below the root, and then it
  returns the root joined with the path.\<close>

theorem resolve_new_characterized:
  assumes "ws_root ws = abs_path rs" "\<forall>s \<in> set rs. proper s" "real_path fs rs"
    and "rs = [] \<or> fs rs = Some DirNode"
    and "\<not> has_root path" "''..'' \<notin> set (split_slash path)"
  shows "\<exists>a cs. path_ancestor a (path_join (ws_root ws) path) \<and> resolve_path fs cwd a = Inr cs \<and>
    (\<forall>b. path_ancestor b (path_join (ws_root ws) path) \<longrightarrow> fs_exists fs cwd b \<longrightarrow> path_ancestor b a) \<and>
    resolve_new fs cwd ws path =
      (if path_starts_with (abs_path cs) (ws_root ws) then Inr (path_join (ws_root ws) path)
       else Inl (OutsideWorkspace (abs_path cs)))"
proof -
  let ?c = "path_join (ws_root ws) path"
  have v: "validate_relative path = Inr path" using assms(5,6) by (simp add: validate_relative_Inr)
  obtain b where "path_ancestor b ?c" "fs_exists fs cwd b"
    using existing_ancestor [OF assms(2,5,3,4)] unfolding assms(1) by blast
  then obtain a where a: "nearest_existing (fs_exists fs cwd) ?c = Some a"
    using nearest_existing_nearest by blast
  then have anc: "path_ancestor a ?c" "fs_exists fs cwd a" using nearest_existing_Some by blast+
  then obtain cs where cs: "resolve_path fs cwd a = Inr cs"
    by (auto simp: fs_exists_def split: sum.splits)
  have "path_ancestor b a" if "path_ancestor b ?c" "fs_exists fs cwd b" for b
    using nearest_existing_nearest [where ex = "fs_exists fs cwd", OF that] a by auto
  moreover have "resolve_new fs cwd ws path =
      (if path_starts_with (abs_path cs) (ws_root ws) then Inr ?c
       else Inl (OutsideWorkspace (abs_path cs)))"
    by (simp add: resolve_new_def v a cs canonicalize_def fs_canonicalize_def ensure_confined_def Let_def)
  ultimately show ?thesis using anc(1) cs by blast
qed

theorem resolve_new_characterized_witness:
  "resolve_new demo_fs [] demo_workspace ''out/x'' = Inl (OutsideWorkspace ''/etc'') \<and>
   resolve_new demo_fs [] demo_workspace ''new/x'' = Inr ''/w/new/x'' \<and>
   (\<exists>a. path_ancestor a ''/w/new/x'' \<and> fs_exists demo_fs [] a)"
proof -
  have "\<not> has_root ''new/x''" "''..'' \<notin> set (split_slash ''new/x'')"
    "path_join (ws_root demo_workspace) ''new/x'' = ''/w/new/x''"
    by (simp_all add: demo_workspace_def has_root_def SLASH_def path_join_def)
  then have "\<exists>a. path_ancestor a ''/w/new/x'' \<and> fs_exists demo_fs [] a"
    using resolve_new_characterized [OF demo_root demo_real(1), of "''new/x''" "[]"] demo_real(2)
    by (auto simp: fs_exists_def)
  moreover have "resolve_new demo_fs [] demo_workspace ''out/x'' = Inl (OutsideWorkspace ''/etc'')"
    "resolve_new demo_fs [] demo_workspace ''new/x'' = Inr ''/w/new/x''"
    by code_simp+
  ultimately show ?thesis by blast
qed



text \<open>Bounded reads are exact: on a file with content \<open>str\<close>, \<open>read_to_string_bounded\<close>
  returns the whole content if it fits the limit and is UTF-8, and an error otherwise; it
  never returns a cut file, although it reads at most one byte past the limit.\<close>

theorem read_to_string_bounded_exact:
  assumes "\<not> has_root path" "''..'' \<notin> set (split_slash path)" "limit < usize_max"
    and "\<forall>n. cap_read_take ops (ws_root_dir ws) path n = Inr (take n str)"
  shows "read_to_string_bounded ops ws path limit =
    (if limit < length str then Inl (FileTooLarge (path_join (ws_root ws) path) limit)
     else if valid_utf8 str then Inr str
     else Inl (WorkspaceIo (path_join (ws_root ws) path) (invalid_utf8 (projl (from_utf8 str)))))"
proof -
  have v: "validate_relative path = Inr path" using assms(1,2) by (simp add: validate_relative_Inr)
  have sat: "saturating_add limit (Suc 0) = Suc limit" using assms(3) by (simp add: saturating_add_def)
  show ?thesis
  proof (cases "limit < length str")
    case True
    then show ?thesis by (simp add: read_to_string_bounded_def v read_checked_def assms(4) sat)
  next
    case False
    then show ?thesis
      by (cases "from_utf8 str")
         (simp_all add: read_to_string_bounded_def v read_checked_def assms(4) sat valid_utf8_def)
  qed
qed

text \<open>A directory of files by name, in which every operation succeeds.\<close>

type_synonym demo_dir = "string \<Rightarrow> bytes option"

definition demo_ops :: "demo_dir dir_ops" where
  "demo_ops =
     \<lparr>cap_open_dir = (\<lambda>_. Inl ENOENT),
      cap_read_to_string = (\<lambda>d p. case d p of None \<Rightarrow> Inl ENOENT | Some b \<Rightarrow> Inr b),
      cap_read_take = (\<lambda>d p n. case d p of None \<Rightarrow> Inl ENOENT | Some b \<Rightarrow> Inr (take n b)),
      cap_is_file = (\<lambda>d p. if d p = None then Inl ENOENT else Inr True),
      cap_permissions = (\<lambda>d p. Inr 420),
      cap_create_new = (\<lambda>d p. (d(p \<mapsto> []), Inr ())),
      cap_set_permissions = (\<lambda>d p m. (d, Inr ())),
      cap_write_all = (\<lambda>d p b. (d(p \<mapsto> b), Inr ())),
      cap_sync_all = (\<lambda>d p. (d, Inr ())),
      cap_rename = (\<lambda>d p q. (d(q := d p, p := None), Inr ())),
      cap_remove_file = (\<lambda>d p. (d(p := None), Inr ()))\<rparr>"

definition demo_files :: demo_dir where
  "demo_files = [''f'' \<mapsto> ''a=1'']"

theorem read_to_string_bounded_exact_witness:
  "read_to_string_bounded demo_ops \<lparr>ws_root = ''/w'', ws_root_dir = demo_files\<rparr> ''f'' 3 = Inr ''a=1''"
proof -
  have "valid_utf8 ''a=1''" by code_simp
  then show ?thesis
    using read_to_string_bounded_exact [of "''f''" 3 demo_ops "\<lparr>ws_root = ''/w'', ws_root_dir = demo_files\<rparr>" "''a=1''"]
    by (simp add: demo_ops_def demo_files_def has_root_def SLASH_def usize_max_def)
qed

text \<open>What the documentation of the directory capability promises for a file \<open>p\<close> and a new
  name \<open>t\<close> beside it; \<open>look\<close> is the content of a path.  Reading returns a prefix of the
  content, work on the new file does not change \<open>p\<close>, and a rename either replaces \<open>p\<close> by the new
  file or leaves it alone.\<close>

definition dir_laws :: "'d dir_ops \<Rightarrow> ('d \<Rightarrow> string \<Rightarrow> bytes option) \<Rightarrow> string \<Rightarrow> string \<Rightarrow> bool" where
  "dir_laws ops look p t \<longleftrightarrow>
     (\<forall>d n b. cap_read_take ops d p n = Inr b \<longrightarrow> (\<exists>c. look d p = Some c \<and> b = take n c)) \<and>
     (\<forall>d. look (fst (cap_create_new ops d t)) p = look d p) \<and>
     (\<forall>d m. look (fst (cap_set_permissions ops d t m)) p = look d p) \<and>
     (\<forall>d b. look (fst (cap_write_all ops d t b)) p = look d p) \<and>
     (\<forall>d b. snd (cap_write_all ops d t b) = Inr () \<longrightarrow> look (fst (cap_write_all ops d t b)) t = Some b) \<and>
     (\<forall>d q. q = p \<or> q = t \<longrightarrow> look (fst (cap_sync_all ops d t)) q = look d q) \<and>
     (\<forall>d. look (fst (cap_rename ops d t p)) p =
        (if snd (cap_rename ops d t p) = Inr () then look d t else look d p)) \<and>
     (\<forall>d. look (fst (cap_remove_file ops d t)) p = look d p)"

lemma dir_laws_read:
  "dir_laws ops look p t \<Longrightarrow> cap_read_take ops d p n = Inr b \<Longrightarrow>
   \<exists>c. look d p = Some c \<and> b = take n c"
  unfolding dir_laws_def by metis

lemma write_and_rename_laws:
  assumes "dir_laws ops look p t" "write_and_rename ops d t p m str = (d', r)"
  shows "look d' p = (if r = Inr () then Some str else look d p)"
proof -
  obtain d1 r1 where c: "cap_create_new ops d t = (d1, r1)" by fastforce
  obtain d2 r2 where s: "cap_set_permissions ops d1 t m = (d2, r2)" by fastforce
  obtain d3 r3 where w: "cap_write_all ops d2 t str = (d3, r3)" by fastforce
  obtain d4 r4 where y: "cap_sync_all ops d3 t = (d4, r4)" by fastforce
  obtain d5 r5 where n: "cap_rename ops d4 t p = (d5, r5)" by fastforce
  note laws = assms(1) [unfolded dir_laws_def]
  have l: "look d1 p = look d p" "look d2 p = look d1 p" "look d3 p = look d2 p"
    "r3 = Inr () \<Longrightarrow> look d3 t = Some str" "look d4 p = look d3 p" "look d4 t = look d3 t"
    "look d5 p = (if r5 = Inr () then look d4 t else look d4 p)"
    using laws c s w y n by (metis fst_conv snd_conv)+
  show ?thesis
    using assms(2) l
    by (auto simp: write_and_rename_def c s w y n split: sum.splits)
qed

lemma read_checked_laws:
  assumes "dir_laws ops look p t" "read_checked ops d p shown limit = Inr str" "limit < usize_max"
  shows "look d p = Some str \<and> length str \<le> limit"
proof -
  obtain b where b: "cap_read_take ops d p (Suc limit) = Inr b" "length b \<le> limit" "str = b"
    using assms(2,3) by (auto simp: read_checked_def saturating_add_def split: sum.splits if_splits)
  then obtain c where "look d p = Some c" "b = take (Suc limit) c"
    using dir_laws_read [OF assms(1)] by blast
  with b show ?thesis by auto
qed

lemma unique_replacement:
  assumes "match_count_2 old str = 1" "old \<noteq> []"
  shows "\<exists>pre post. str = pre @ old @ post \<and> replace_first old new str = pre @ new @ post \<and>
           \<not> str_contains old post \<and> str_find old str = Some (length pre)"
proof -
  obtain i where i: "str_find old str = Some i" "\<not> str_contains old (drop (i + length old) str)"
    using assms by (auto simp: match_count_2_def split: option.splits if_splits)
  have "length (take i str) = i" using str_find_Some [OF i(1)] by simp
  with replace_first_found [OF i(1)] i show ?thesis by metis
qed

text \<open>C26.  Replacing text is all or nothing.  If \<open>replace_text_if_unique\<close> returns true, the
  file was \<open>pre @ old @ post\<close> with no second occurrence of the old text, and is now
  \<open>pre @ new @ post\<close>, both within the limit.  In every other case, any failure of the
  operating system included, the content of the file has not changed.\<close>

theorem replace_text_atomic:
  assumes "dir_laws ops look path (temporary_path path name token)" "file_name path = Some name"
    and "replace_text_if_unique ops ws token path old_text new_text limit = (d', result)"
    and "old_text \<noteq> []" "limit < usize_max"
  shows "if result = Inr True then
      \<exists>pre post. look (ws_root_dir ws) path = Some (pre @ old_text @ post) \<and>
        look d' path = Some (pre @ new_text @ post) \<and>
        length (pre @ old_text @ post) \<le> limit \<and> length (pre @ new_text @ post) \<le> limit \<and>
        \<not> str_contains old_text post \<and> str_find old_text (pre @ old_text @ post) = Some (length pre)
    else look d' path = look (ws_root_dir ws) path"
proof -
  let ?d = "ws_root_dir ws" and ?t = "temporary_path path name token"
  let ?dp = "path_join (ws_root ws) path"
  have remove: "look (fst (cap_remove_file ops d ?t)) path = look d path" for d
    using assms(1) by (simp add: dir_laws_def)
  consider (same) "d' = ?d" "result \<noteq> Inr True"
    | (wrote) str m d1 r1 where "read_checked ops ?d path ?dp limit = Inr str"
        "match_count_2 old_text str = 1" "length (replace_first old_text new_text str) \<le> limit"
        "write_and_rename ops ?d ?t path m (replace_first old_text new_text str) = (d1, r1)"
        "if r1 = Inr () then d' = d1 \<and> result = Inr True
         else d' = fst (cap_remove_file ops d1 ?t) \<and> result \<noteq> Inr True"
    using assms(2,3)
    by (auto simp: replace_text_if_unique_def Let_def validate_relative_Inr
        split: sum.splits if_splits prod.splits)
  then show ?thesis
  proof cases
    case same
    then show ?thesis by simp
  next
    case wrote
    note w = write_and_rename_laws [OF assms(1) wrote(4)]
    show ?thesis
    proof (cases "r1 = Inr ()")
      case False
      with wrote(5) w remove show ?thesis by simp
    next
      case True
      have look: "look ?d path = Some str" "length str \<le> limit"
        using read_checked_laws [OF assms(1) wrote(1) assms(5)] by simp_all
      obtain pre post where "str = pre @ old_text @ post" "\<not> str_contains old_text post"
        "replace_first old_text new_text str = pre @ new_text @ post" "str_find old_text str = Some (length pre)"
        using unique_replacement [OF wrote(2) assms(4)] by metis
      moreover have "result = Inr True" "look d' path = Some (replace_first old_text new_text str)"
        using True wrote(5) w by simp_all
      ultimately show ?thesis using look wrote(3) by auto
    qed
  qed
qed

theorem replace_text_atomic_witness:
  "snd (replace_text_if_unique demo_ops \<lparr>ws_root = ''/w'', ws_root_dir = demo_files\<rparr> ''id'' ''f'' ''1'' ''20'' 9)
     = Inr True \<and>
   (\<exists>pre post. demo_files ''f'' = Some (pre @ ''1'' @ post) \<and>
      fst (replace_text_if_unique demo_ops \<lparr>ws_root = ''/w'', ws_root_dir = demo_files\<rparr>
             ''id'' ''f'' ''1'' ''20'' 9) ''f'' = Some (pre @ ''20'' @ post))"
proof -
  let ?ws = "\<lparr>ws_root = ''/w'', ws_root_dir = demo_files\<rparr>"
  have v: "validate_relative ''f'' = Inr ''f''" "path_join ''/w'' ''f'' = ''/w/f''" by code_simp+
  have "from_utf8 ''a=1'' = Inr ()" by code_simp
  then have rc: "read_checked demo_ops demo_files ''f'' ''/w/f'' 9 = Inr ''a=1''"
    by (simp add: read_checked_def demo_ops_def demo_files_def saturating_add_def usize_max_def)
  have mc: "match_count_2 ''1'' ''a=1'' = 1" "replace_first ''1'' ''20'' ''a=1'' = ''a=20''" by code_simp+
  have f: "file_name ''f'' = Some ''f''" by code_simp
  have r: "snd (replace_text_if_unique demo_ops ?ws ''id'' ''f'' ''1'' ''20'' 9) = Inr True"
    by (simp add: replace_text_if_unique_def v rc mc f)
       (simp add: demo_ops_def f write_and_rename_def Let_def)
  obtain d' where d: "replace_text_if_unique demo_ops ?ws ''id'' ''f'' ''1'' ''20'' 9 = (d', Inr True)"
    using prod.collapse [of "replace_text_if_unique demo_ops ?ws ''id'' ''f'' ''1'' ''20'' 9"]
    unfolding r by metis
  have t: "temporary_path ''f'' ''f'' ''id'' = ''.f.kodo-id.tmp''" by code_simp
  have laws: "dir_laws demo_ops (\<lambda>d. d) ''f'' (temporary_path ''f'' ''f'' ''id'')"
    unfolding t by (auto simp: dir_laws_def demo_ops_def split: option.splits)
  from replace_text_atomic [OF laws f d] d show ?thesis by (auto simp: usize_max_def)
qed

end
