(* ===== verification/Runner_Output.thy ===== *)
theory Runner_Output
  imports Process Rust_Str Workspace
begin

text \<open>
  Running Git and capturing what it prints, the second half of
  \<^verbatim>\<open>src/crates/kodo/src/runner.rs\<close>: the bounded pipe readers, \<open>run_command\<close>, the lossy
  conversion to text and the interpretation of the exit status.  What the operating system
  and Git do with a command is a \<open>child_run\<close>.
\<close>

section \<open>Errors\<close>

datatype runner_error =
    WorkspaceFailed workspace_error
  | GitIo io_error
  | Git string
  | Patch string
  | Replace string
  | NonUtf8Path string
  | OutputLimit string
  | Task string
  | AuthorityFailed string
  | ProcessFailed process_error

definition authority_failed :: "authority_error \<Rightarrow> runner_error" where
  "authority_failed e = AuthorityFailed (authority_error_to_string e)"

section \<open>Reading a pipe within a limit\<close>

text \<open>
  The reads of a pipe, in order: an error, an empty read at the end of the stream, or a
  chunk.  A list without an empty read is followed by the end of the stream.
\<close>

type_synonym pipe_reads = "(io_error + bytes) list"

definition read_consume :: "usize \<Rightarrow> bytes \<times> bool \<Rightarrow> bytes \<Rightarrow> bytes \<times> bool" where
  "read_consume limit st buf =
     (let remaining = limit - length (fst st)
      in (fst st @ take (min (length buf) remaining) buf, snd st \<or> length buf > remaining))"

fun read_loop :: "usize \<Rightarrow> bytes \<times> bool \<Rightarrow> pipe_reads \<Rightarrow> io_error + bytes \<times> bool" where
  "read_loop limit st [] = Inr st"
| "read_loop limit st (Inl e # rs) = Inl e"
| "read_loop limit st (Inr buf # rs) =
     (if buf = [] then Inr st else read_loop limit (read_consume limit st buf) rs)"

definition read_bounded :: "pipe_reads \<Rightarrow> usize \<Rightarrow> io_error + bytes \<times> bool" where
  "read_bounded reader limit = read_loop limit ([], False) reader"

definition read_async_bounded :: "pipe_reads \<Rightarrow> usize \<Rightarrow> io_error + bytes \<times> bool" where
  "read_async_bounded reader limit = read_loop limit ([], False) reader"

text \<open>\<open>finish_git_reader\<close>: \<open>None\<close> is a reader that did not finish in 25 milliseconds.\<close>

fun finish_git_reader :: "(io_error + bytes \<times> bool) option \<Rightarrow> runner_error + bytes \<times> bool" where
  "finish_git_reader (Some (Inl e)) = Inl (GitIo e)"
| "finish_git_reader (Some (Inr r)) = Inr r"
| "finish_git_reader None = Inr ([], True)"

section \<open>Text\<close>

definition tool_truncate_utf8 :: "string \<Rightarrow> usize \<Rightarrow> string \<times> bool" where
  "tool_truncate_utf8 str max_bytes =
     (if length str \<le> max_bytes then (str, False)
      else (take (boundary_loop str max_bytes) str, True))"

definition lossy_bounded :: "bytes \<Rightarrow> usize \<Rightarrow> string \<times> bool" where
  "lossy_bounded bs limit = tool_truncate_utf8 (from_utf8_lossy bs) limit"

section \<open>Running a command\<close>

text \<open>An exit status is its code, absent when a signal ended the child.\<close>

type_synonym exit_status = "32 word option"

definition status_success :: "exit_status \<Rightarrow> bool" where
  "status_success s \<longleftrightarrow> s = Some 0"

record captured_output =
  co_status :: exit_status
  co_stdout :: bytes
  co_stderr :: bytes
  co_stdout_truncated :: bool
  co_stderr_truncated :: bool
  co_limit :: usize

record child_run =
  run_input_error :: "io_error option"
  run_wait :: "io_error + exit_status"
  run_stdout :: pipe_reads
  run_stderr :: pipe_reads

definition run_command ::
  "io_error + child_run \<Rightarrow> bytes option \<Rightarrow> usize \<Rightarrow> io_error + captured_output" where
  "run_command spawned input limit =
     (case spawned of
        Inl e \<Rightarrow> Inl e
      | Inr child \<Rightarrow>
          (let stdout = read_bounded (run_stdout child) limit;
               stderr = read_bounded (run_stderr child) limit;
               input_error = (case input of None \<Rightarrow> None | Some _ \<Rightarrow> run_input_error child)
           in case run_wait child of
                Inl e \<Rightarrow> Inl e
              | Inr st \<Rightarrow>
                  (case stdout of
                     Inl e \<Rightarrow> Inl e
                   | Inr (out, out_truncated) \<Rightarrow>
                       (case stderr of
                          Inl e \<Rightarrow> Inl e
                        | Inr (err, err_truncated) \<Rightarrow>
                            (case (status_success st, input_error) of
                               (True, Some e) \<Rightarrow> Inl e
                             | _ \<Rightarrow>
                                 Inr \<lparr>co_status = st, co_stdout = out, co_stderr = err,
                                      co_stdout_truncated = out_truncated,
                                      co_stderr_truncated = err_truncated, co_limit = limit\<rparr>)))))"

definition stderr_message :: "captured_output \<Rightarrow> string" where
  "stderr_message co =
     trim (fst (lossy_bounded (co_stderr co) (co_limit co))) @
     (if co_stderr_truncated co then NL # ''[stderr truncated]'' else [])"

definition successful_stdout :: "captured_output \<Rightarrow> runner_error + string \<times> bool" where
  "successful_stdout co =
     (if status_success (co_status co) then
        (let (str, conversion_truncated) = lossy_bounded (co_stdout co) (co_limit co)
         in Inr (str, co_stdout_truncated co \<or> conversion_truncated))
      else Inl (Git (stderr_message co)))"

definition successful_patch :: "captured_output \<Rightarrow> runner_error + bytes" where
  "successful_patch co =
     (if status_success (co_status co) then
        (if co_stdout_truncated co then Inl (Patch ''patch metadata exceeds internal byte limit'')
         else Inr (co_stdout co))
      else Inl (Patch (stderr_message co)))"

section \<open>The readers cannot see chunk boundaries\<close>

interpretation pipe_reader: stream_consumer "read_consume limit"
  "\<lambda>bs. (take limit bs, limit < length bs)" for limit
proof
  fix xs ys :: bytes
  show "read_consume limit (take limit xs, limit < length xs) ys =
      (take limit (xs @ ys), limit < length (xs @ ys))"
    by (cases "length xs \<le> limit") (auto simp: read_consume_def Let_def min_def)
qed

text \<open>The bytes a pipe delivers before its end, and the error that ends it, if any.\<close>

fun pipe_content :: "pipe_reads \<Rightarrow> bytes" where
  "pipe_content [] = []"
| "pipe_content (Inl e # rs) = []"
| "pipe_content (Inr buf # rs) = (if buf = [] then [] else buf @ pipe_content rs)"

fun pipe_error :: "pipe_reads \<Rightarrow> io_error option" where
  "pipe_error [] = None"
| "pipe_error (Inl e # rs) = Some e"
| "pipe_error (Inr buf # rs) = (if buf = [] then None else pipe_error rs)"

lemma read_loop_eq:
  "read_loop limit (take limit xs, limit < length xs) rs =
     (case pipe_error rs of
        Some e \<Rightarrow> Inl e
      | None \<Rightarrow> Inr (take limit (xs @ pipe_content rs), limit < length (xs @ pipe_content rs)))"
proof (induction rs arbitrary: xs rule: pipe_content.induct)
  case (3 buf rs)
  show ?case
  proof (cases "buf = []")
    case False
    then show ?thesis
      using "3" [OF False, of "xs @ buf"]
      by (simp add: pipe_reader.consume_view split: option.splits)
  qed simp
qed simp_all

lemma read_bounded_eq:
  "read_bounded rs limit =
     (case pipe_error rs of
        Some e \<Rightarrow> Inl e
      | None \<Rightarrow> Inr (take limit (pipe_content rs), limit < length (pipe_content rs)))"
  using read_loop_eq [of limit "[]" rs] by (simp add: read_bounded_def split: option.splits)

interpretation tool_truncation: utf8_truncation "\<lambda>s n. fst (tool_truncate_utf8 s n)"
  by unfold_locales (simp_all add: tool_truncate_utf8_def)

lemma tool_truncate_flag: "snd (tool_truncate_utf8 s n) \<longleftrightarrow> fst (tool_truncate_utf8 s n) \<noteq> s"
  using tool_truncation.trunc_eq_iff [of s n] by (simp add: tool_truncate_utf8_def)

lemma lossy_bounded_length: "length (fst (lossy_bounded bs limit)) \<le> limit"
  using tool_truncation.trunc_length by (simp add: lossy_bounded_def)

lemma run_command_limit: "run_command sp i limit = Inr co \<Longrightarrow> co_limit co = limit"
  by (auto simp: run_command_def Let_def split: sum.splits prod.splits bool.splits option.splits)

lemma successful_stdout_length:
  "successful_stdout co = Inr (str, t) \<Longrightarrow> length str \<le> co_limit co"
  using lossy_bounded_length [of "co_stdout co" "co_limit co"]
  by (auto simp: successful_stdout_def split: if_splits prod.splits)

section \<open>Properties\<close>

text \<open>C14.  Captured output does not depend on how the pipe delivers it: both readers return
  the first \<open>limit\<close> bytes of the stream and say whether there were more, for every way of
  cutting the stream into reads, or the first error of the pipe; they always read on to the
  end of the stream.\<close>

theorem captured_output_exact:
  "read_bounded rs limit =
     (case pipe_error rs of
        Some e \<Rightarrow> Inl e
      | None \<Rightarrow> Inr (take limit (pipe_content rs), limit < length (pipe_content rs))) \<and>
   read_async_bounded rs limit = read_bounded rs limit"
  by (simp add: read_bounded_eq) (simp add: read_async_bounded_def read_bounded_eq [symmetric] read_bounded_def)

end
