(* ===== verification/Runner.thy ===== *)
theory Runner
  imports Runner_Output
begin

text \<open>
  The tools of a workspace, \<^verbatim>\<open>src/crates/kodo/src/runner.rs\<close>: dispatch of a request under an
  authority guard, listing, searching and reading files, diffs, the patch pipeline, text
  replacement and the process tools.

  The world outside the runner has a state \<open>'w\<close>.  A \<open>tool_host\<close> says how to observe it (file
  system, leases and clock) and how it reacts to what the runner does (Git, the directory
  capability, spawning a command); \<open>host_suspend\<close> is what may happen to it while the runner
  waits for a permit, for the mutation lock or for a blocking task.  Every call of Git is
  recorded with the world it was made in.
\<close>

section \<open>State\<close>

definition MAX_GIT_METADATA_BYTES :: usize where
  "MAX_GIT_METADATA_BYTES = 1024 * 1024"

text \<open>
  One run of \<^verbatim>\<open>git apply\<close> under the authority \<open>select!\<close>: the world in which the \<open>select!\<close> is
  decided, what waiting for the child gives, the error of writing its input, whether the
  child could be reaped in time when it is terminated, and the two readers (\<open>None\<close> for a
  reader that does not finish).
\<close>

record 'w apply_run =
  ar_world :: 'w
  ar_group :: "nat option"
  ar_wait :: "io_error + exit_status"
  ar_input_error :: "io_error option"
  ar_reaped :: bool
  ar_stdout :: "pipe_reads option"
  ar_stderr :: "pipe_reads option"

record 'w tool_host =
  host_fs :: "'w \<Rightarrow> file_system"
  host_cwd :: "string list"
  host_authority :: "'w \<Rightarrow> authority_registry \<times> instant"
  host_suspend :: "'w \<Rightarrow> 'w"
  host_dir :: "'w dir_ops"
  host_token :: "'w \<Rightarrow> string"
  host_git :: "'w \<Rightarrow> string list \<Rightarrow> bytes option \<Rightarrow> 'w \<times> (io_error + child_run)"
  host_apply :: "'w \<Rightarrow> bytes \<Rightarrow> 'w \<times> (io_error + 'w apply_run)"
  host_spawn :: "'w \<Rightarrow> string \<Rightarrow> string \<Rightarrow> u64 \<Rightarrow> 'w \<times> (io_error + nat option) \<times> uuid"
  host_managers :: "'w \<Rightarrow> process_manager \<Rightarrow> process_manager list"

record runner =
  rn_root :: string
  rn_limits :: execution_limits

datatype git_call = GitCall "string list" "bytes option" | GitApply bytes

record 'w tool_state =
  ts_world :: 'w
  ts_processes :: process_manager
  ts_git :: "('w \<times> git_call) list"
  ts_actions :: "group_action list"

definition max_permits :: usize where
  "max_permits = (2 ^ 64 - 1) div 8"

definition from_limits ::
  "string \<Rightarrow> execution_limits \<Rightarrow> string + (runner \<times> process_manager)" where
  "from_limits root limits =
     (case validate limits of
        Inl e \<Rightarrow> Inl e
      | Inr _ \<Rightarrow>
          if max_blocking_tools limits > MAX_BLOCKING_TOOLS \<or> max_blocking_tools limits > max_permits then
            Inl ''max_blocking_tools exceeds the runtime semaphore limit''
          else
            Inr (\<lparr>rn_root = root, rn_limits = limits\<rparr>,
                 with_limits (max_output_bytes limits) (max_retained_processes limits)
                   (max_process_output_chunks limits)))"

text \<open>\<open>Runner::new\<close>: the \<open>expect\<close> of the code is the left branch, which \<open>new_runner_built\<close> excludes.\<close>

definition new_runner :: "string \<Rightarrow> string + (runner \<times> process_manager)" where
  "new_runner root = from_limits root standalone"

lemma new_runner_built:
  "\<exists>processes. new_runner root = Inr (\<lparr>rn_root = root, rn_limits = standalone\<rparr>, processes)"
  by (simp add: new_runner_def from_limits_def validate_def standalone_def quotas_def
      maximum_encoded_response_bytes_def Let_def checked_mul_def checked_add_def usize_max_def protocol_constants
      max_permits_def)

definition ws_at :: "runner \<Rightarrow> 'w \<Rightarrow> 'w workspace" where
  "ws_at r w = \<lparr>ws_root = rn_root r, ws_root_dir = w\<rparr>"

definition check_authority :: "'w tool_host \<Rightarrow> 'w \<Rightarrow> authority_guard \<Rightarrow> runner_error + unit" where
  "check_authority h w authority =
     (case ensure_valid (fst (host_authority h w)) (snd (host_authority h w)) authority of
        Inl e \<Rightarrow> Inl (authority_failed e)
      | Inr _ \<Rightarrow> Inr ())"

definition suspend :: "'w tool_host \<Rightarrow> 'w tool_state \<Rightarrow> 'w tool_state" where
  "suspend h st = st\<lparr>ts_world := host_suspend h (ts_world st)\<rparr>"

section \<open>Paths\<close>

text \<open>\<open>Path::strip_prefix\<close>: what is left after the components of the base, without the
  separators around it.\<close>

definition path_strip_prefix :: "string \<Rightarrow> string \<Rightarrow> string option" where
  "path_strip_prefix p base =
     (if path_starts_with p base then
        (let ss = split_slash p;
             k = length (components base) - (if has_root base then 1 else 0) in
         Some (case drop k (component_positions ss) of
                 [] \<Rightarrow> []
               | i # is' \<Rightarrow> join_slash (take (Suc (last (i # is')) - i) (drop i ss))))
      else None)"

definition relative_path :: "runner \<Rightarrow> string \<Rightarrow> runner_error + string" where
  "relative_path r resolved =
     (case path_strip_prefix resolved (rn_root r) of
        None \<Rightarrow> Inl (Task ''confined workspace path must have workspace prefix'')
      | Some relative \<Rightarrow>
          if relative = [] then Inr ''.''
          else if valid_utf8 relative then Inr relative
          else Inl (NonUtf8Path relative))"

definition confined_relative :: "'w tool_host \<Rightarrow> runner \<Rightarrow> 'w \<Rightarrow> string \<Rightarrow> runner_error + string" where
  "confined_relative h r w path =
     (case resolve (host_fs h w) (host_cwd h) (ws_at r w) path of
        Inl e \<Rightarrow> Inl (WorkspaceFailed e)
      | Inr resolved \<Rightarrow> relative_path r resolved)"

definition confined_relative_new :: "'w tool_host \<Rightarrow> runner \<Rightarrow> 'w \<Rightarrow> string \<Rightarrow> runner_error + string" where
  "confined_relative_new h r w path =
     (case resolve_new (host_fs h w) (host_cwd h) (ws_at r w) path of
        Inl e \<Rightarrow> Inl (WorkspaceFailed e)
      | Inr resolved \<Rightarrow> relative_path r resolved)"

section \<open>Git\<close>

definition git_prefix :: "string list" where
  "git_prefix = [''-c'', ''core.fsmonitor=false'', ''-c'', ''core.hooksPath=/dev/null'']"

definition git_with_limit ::
  "'w tool_host \<Rightarrow> 'w tool_state \<Rightarrow> string list \<Rightarrow> usize \<Rightarrow> bytes option \<Rightarrow>
   'w tool_state \<times> (runner_error + captured_output)" where
  "git_with_limit h st args limit input =
     (let (w, spawned) = host_git h (ts_world st) (git_prefix @ args) input in
      (st\<lparr>ts_world := w, ts_git := ts_git st @ [(ts_world st, GitCall (git_prefix @ args) input)]\<rparr>,
       case run_command spawned input limit of Inl e \<Rightarrow> Inl (GitIo e) | Inr co \<Rightarrow> Inr co))"

definition git ::
  "'w tool_host \<Rightarrow> runner \<Rightarrow> 'w tool_state \<Rightarrow> string list \<Rightarrow>
   'w tool_state \<times> (runner_error + captured_output)" where
  "git h r st args = git_with_limit h st args (max_output_bytes (rn_limits r)) None"

definition git_with_input ::
  "'w tool_host \<Rightarrow> runner \<Rightarrow> 'w tool_state \<Rightarrow> string list \<Rightarrow> string \<Rightarrow>
   'w tool_state \<times> (runner_error + captured_output)" where
  "git_with_input h r st args input =
     git_with_limit h st args (max_output_bytes (rn_limits r)) (Some input)"

text \<open>A Git call whose standard output is wanted as text.\<close>

definition git_text ::
  "'w tool_state \<times> (runner_error + captured_output) \<Rightarrow> 'w tool_state \<times> (runner_error + string \<times> bool)" where
  "git_text res =
     (fst res, case snd res of Inl e \<Rightarrow> Inl e | Inr co \<Rightarrow> successful_stdout co)"

definition git_output ::
  "'w tool_host \<Rightarrow> runner \<Rightarrow> 'w tool_state \<Rightarrow> string list \<Rightarrow> string list \<Rightarrow>
   'w tool_state \<times> (runner_error + tool_result)" where
  "git_output h r st args paths =
     (case git_text (git h r st (args @ paths)) of
        (st, Inl e) \<Rightarrow> (st, Inl e)
      | (st, Inr (str, trunc)) \<Rightarrow> (st, Inr (Output str trunc)))"

section \<open>Listing files\<close>

text \<open>\<open>Vec::retain\<close> with the running byte count: a path that does not fit is dropped, and
  shorter paths after it may still fit.\<close>

fun retain_paths :: "usize \<Rightarrow> usize \<Rightarrow> string list \<Rightarrow> string list \<times> bool" where
  "retain_paths max_bytes used [] = ([], False)"
| "retain_paths max_bytes used (p # ps) =
     (if used + length p > max_bytes then
        (let (kept, _) = retain_paths max_bytes used ps in (kept, True))
      else
        (let (kept, trunc) = retain_paths max_bytes (used + length p) ps in (p # kept, trunc)))"

definition bounded_paths :: "execution_limits \<Rightarrow> string \<Rightarrow> bool \<Rightarrow> string list \<times> bool" where
  "bounded_paths limits files output_truncated =
     (let paths = sort (str_lines files);
          trunc = (output_truncated \<or> length paths > max_results limits);
          (kept, dropped) = retain_paths (max_output_bytes limits) 0 (take (max_results limits) paths)
      in (kept, trunc \<or> dropped))"

definition list_paths ::
  "'w tool_host \<Rightarrow> runner \<Rightarrow> 'w tool_state \<Rightarrow> string \<Rightarrow>
   'w tool_state \<times> (runner_error + string list \<times> bool)" where
  "list_paths h r st path =
     (case confined_relative h r (ts_world st) path of
        Inl e \<Rightarrow> (st, Inl e)
      | Inr relative \<Rightarrow>
          (case git_text (git h r st
                  [''ls-files'', ''--cached'', ''--others'', ''--exclude-standard'', ''--'', relative]) of
             (st, Inl e) \<Rightarrow> (st, Inl e)
           | (st, Inr (files, output_truncated)) \<Rightarrow>
               (st, Inr (bounded_paths (rn_limits r) files output_truncated))))"

definition list_files ::
  "'w tool_host \<Rightarrow> runner \<Rightarrow> 'w tool_state \<Rightarrow> string \<Rightarrow> 'w tool_state \<times> (runner_error + tool_result)" where
  "list_files h r st path =
     (case list_paths h r st path of
        (st, Inl e) \<Rightarrow> (st, Inl e)
      | (st, Inr (paths, trunc)) \<Rightarrow> (st, Inr (Files paths trunc)))"

section \<open>Searching\<close>

text \<open>The variables of the search loops; \<open>sr_stop\<close> is the \<open>break 'search\<close>.\<close>

record search_state =
  sr_matches :: "search_match list"
  sr_bytes :: usize
  sr_truncated :: bool
  sr_stop :: bool

definition search_line ::
  "execution_limits \<Rightarrow> string \<Rightarrow> string \<Rightarrow> nat \<Rightarrow> string \<Rightarrow> search_state \<Rightarrow> search_state" where
  "search_line limits query path index line s =
     (if \<not> str_contains query line then s
      else if length (sr_matches s) = max_results limits then s\<lparr>sr_truncated := True, sr_stop := True\<rparr>
      else if sr_bytes s + length path \<ge> max_output_bytes limits then
        s\<lparr>sr_truncated := True, sr_stop := True\<rparr>
      else
        (let remaining = max_output_bytes limits - sr_bytes s - length path;
             (str, str_truncated) = tool_truncate_utf8 line remaining;
             s' = s\<lparr>sr_matches := sr_matches s @
                      [\<lparr>match_path = path, match_line = index + 1, match_content = str\<rparr>],
                    sr_bytes := sr_bytes s + (length path + length str)\<rparr>
         in if str_truncated then s'\<lparr>sr_truncated := True, sr_stop := True\<rparr> else s'))"

fun search_lines ::
  "execution_limits \<Rightarrow> string \<Rightarrow> string \<Rightarrow> nat \<Rightarrow> string list \<Rightarrow> search_state \<Rightarrow> search_state" where
  "search_lines limits query path index [] s = s"
| "search_lines limits query path index (l # ls) s =
     (let s' = search_line limits query path index l s in
      if sr_stop s' then s' else search_lines limits query path (Suc index) ls s')"

fun search_files ::
  "'w tool_host \<Rightarrow> runner \<Rightarrow> 'w \<Rightarrow> string \<Rightarrow> string list \<Rightarrow> search_state \<Rightarrow> runner_error + search_state" where
  "search_files h r w query [] s = Inr s"
| "search_files h r w query (path # paths) s =
     (case is_file (host_dir h) (ws_at r w) path of
        Inl e \<Rightarrow> Inl (WorkspaceFailed e)
      | Inr False \<Rightarrow> search_files h r w query paths s
      | Inr True \<Rightarrow>
          (case read_to_string_bounded (host_dir h) (ws_at r w) path (max_file_input_bytes (rn_limits r)) of
             Inl _ \<Rightarrow> search_files h r w query paths s
           | Inr str \<Rightarrow>
               (let s' = search_lines (rn_limits r) query path 0 (str_lines str) s in
                if sr_stop s' then Inr s' else search_files h r w query paths s')))"

fun search_roots ::
  "'w tool_host \<Rightarrow> runner \<Rightarrow> 'w tool_state \<Rightarrow> string \<Rightarrow> string list \<Rightarrow> search_state \<Rightarrow>
   'w tool_state \<times> (runner_error + search_state)" where
  "search_roots h r st query [] s = (st, Inr s)"
| "search_roots h r st query (root # roots) s =
     (case list_paths h r st root of
        (st, Inl e) \<Rightarrow> (st, Inl e)
      | (st, Inr (paths, files_truncated)) \<Rightarrow>
          (case search_files h r (ts_world st) query paths
                  (s\<lparr>sr_truncated := sr_truncated s \<or> files_truncated\<rparr>) of
             Inl e \<Rightarrow> (st, Inl e)
           | Inr s' \<Rightarrow> if sr_stop s' then (st, Inr s') else search_roots h r st query roots s'))"

definition search_code ::
  "'w tool_host \<Rightarrow> runner \<Rightarrow> 'w tool_state \<Rightarrow> string \<Rightarrow> string list \<Rightarrow>
   'w tool_state \<times> (runner_error + tool_result)" where
  "search_code h r st query paths =
     (case search_roots h r st query (if paths = [] then [[]] else paths)
             \<lparr>sr_matches = [], sr_bytes = 0, sr_truncated = False, sr_stop = False\<rparr> of
        (st, Inl e) \<Rightarrow> (st, Inl e)
      | (st, Inr s) \<Rightarrow> (st, Inr (Matches (sr_matches s) (sr_truncated s))))"

section \<open>Reading a file\<close>

definition read_file ::
  "'w tool_host \<Rightarrow> runner \<Rightarrow> 'w \<Rightarrow> string \<Rightarrow> usize \<Rightarrow> usize \<Rightarrow> runner_error + tool_result" where
  "read_file h r w path offset limit =
     (if limit = 0 then Inl (OutputLimit ''read_file limit must be greater than zero'')
      else case read_to_string_bounded (host_dir h) (ws_at r w) path (max_file_input_bytes (rn_limits r)) of
        Inl e \<Rightarrow> Inl (WorkspaceFailed e)
      | Inr str \<Rightarrow>
          (let lines = str_lines str;
               selected = str_join [NL] (take limit (drop offset lines)) in
           if length selected > max_output_bytes (rn_limits r) then
             Inl (OutputLimit (''requested file lines exceed '' @
               show_nat (max_output_bytes (rn_limits r)) @ '' byte output limit''))
           else
             (let next_line = saturating_add offset limit;
                  next_offset = (if next_line < length lines then Some next_line else None)
              in Inr (File selected offset next_offset (next_offset \<noteq> None)))))"

section \<open>Diffs\<close>

fun confine_all ::
  "'w tool_host \<Rightarrow> runner \<Rightarrow> 'w \<Rightarrow> string list \<Rightarrow> runner_error + string list" where
  "confine_all h r w [] = Inr []"
| "confine_all h r w (p # ps) =
     (case confined_relative_new h r w p of
        Inl e \<Rightarrow> Inl e
      | Inr q \<Rightarrow> (case confine_all h r w ps of Inl e \<Rightarrow> Inl e | Inr qs \<Rightarrow> Inr (q # qs)))"

text \<open>The loop over untracked files: each is compared with an empty file.\<close>

fun diff_untracked ::
  "'w tool_host \<Rightarrow> runner \<Rightarrow> 'w tool_state \<Rightarrow> string list \<Rightarrow> string \<Rightarrow> bool \<Rightarrow>
   'w tool_state \<times> (runner_error + string \<times> bool)" where
  "diff_untracked h r st [] str trunc = (st, Inr (str, trunc))"
| "diff_untracked h r st (path # paths) str trunc =
     (if length str \<ge> max_output_bytes (rn_limits r) then (st, Inr (str, True))
      else case resolve (host_fs h (ts_world st)) (host_cwd h) (ws_at r (ts_world st)) path of
        Inl e \<Rightarrow> (st, Inl (WorkspaceFailed e))
      | Inr _ \<Rightarrow>
          (case git_with_limit h st
                  [''diff'', ''--no-index'', ''--binary'', ''--no-ext-diff'', ''--no-textconv'', ''--'',
                   ''/dev/null'', path]
                  (max_output_bytes (rn_limits r) - length str) None of
             (st, Inl e) \<Rightarrow> (st, Inl e)
           | (st, Inr co) \<Rightarrow>
               if co_status co \<noteq> Some 0 \<and> co_status co \<noteq> Some 1 then
                 (st, Inl (Git (trim (fst (lossy_bounded (co_stderr co) (co_limit co))))))
               else
                 (let (converted, conversion_truncated) =
                        lossy_bounded (co_stdout co) (max_output_bytes (rn_limits r) - length str);
                      cut_short = (co_stdout_truncated co \<or> conversion_truncated)
                  in if cut_short then (st, Inr (str @ converted, True))
                     else diff_untracked h r st paths (str @ converted) trunc)))"

definition git_diff ::
  "'w tool_host \<Rightarrow> runner \<Rightarrow> 'w tool_state \<Rightarrow> string list \<Rightarrow> 'w tool_state \<times> (runner_error + tool_result)" where
  "git_diff h r st paths =
     (case confine_all h r (ts_world st) paths of
        Inl e \<Rightarrow> (st, Inl e)
      | Inr relative_paths \<Rightarrow>
          (case git h r st [''rev-parse'', ''--verify'', ''--quiet'', ''HEAD''] of
             (st, Inl e) \<Rightarrow> (st, Inl e)
           | (st, Inr head) \<Rightarrow>
               (let tracked_args =
                      (if status_success (co_status head) then
                         [''diff'', ''--binary'', ''--no-ext-diff'', ''--no-textconv'', ''HEAD'', ''--'']
                       else
                         [''diff'', ''--cached'', ''--binary'', ''--no-ext-diff'', ''--no-textconv'', ''--''])
                in case git_text (git h r st (tracked_args @ relative_paths)) of
                     (st, Inl e) \<Rightarrow> (st, Inl e)
                   | (st, Inr (str, trunc)) \<Rightarrow>
                       (case git_text (git_with_limit h st
                               ([''ls-files'', ''--others'', ''--exclude-standard'', ''-z'', ''--''] @ relative_paths)
                               MAX_GIT_METADATA_BYTES None) of
                          (st, Inl e) \<Rightarrow> (st, Inl e)
                        | (st, Inr (untracked, untracked_truncated)) \<Rightarrow>
                            if untracked_truncated then
                              (st, Inl (OutputLimit ''untracked file list exceeds internal byte limit''))
                            else
                              (case diff_untracked h r st
                                      (filter (\<lambda>p. p \<noteq> []) (split_on NUL untracked)) str trunc of
                                 (st, Inl e) \<Rightarrow> (st, Inl e)
                               | (st, Inr (str, trunc)) \<Rightarrow> (st, Inr (Output str trunc)))))))"

section \<open>Patches\<close>

text \<open>One record of \<^verbatim>\<open>git apply --numstat -z\<close>.\<close>

definition record_path :: "bytes \<Rightarrow> runner_error + string" where
  "record_path record =
     (let fields = splitn 3 TAB record in
      if length fields < 3 then Inl (Patch ''unexpected Git numstat output'')
      else if valid_utf8 (fields ! 2) then Inr (fields ! 2)
      else Inl (Patch ''patch path is not valid UTF-8''))"

definition patch_prefixes :: "string list" where
  "patch_prefixes = [''rename from '', ''rename to '', ''copy from '', ''copy to '']"

fun find_map_prefix :: "string list \<Rightarrow> string \<Rightarrow> string option" where
  "find_map_prefix [] line = None"
| "find_map_prefix (p # ps) line =
     (case strip_prefix p line of Some rest \<Rightarrow> Some rest | None \<Rightarrow> find_map_prefix ps line)"

text \<open>The path a patch line names, if it is the line of a rename or a copy.\<close>

definition line_path :: "string \<Rightarrow> (runner_error + string) option" where
  "line_path line =
     (case find_map_prefix patch_prefixes line of
        None \<Rightarrow> None
      | Some path \<Rightarrow>
          if starts_with [CHR 0x22] path then
            Some (Inl (Patch ''quoted rename and copy paths are not supported''))
          else Some (Inr path))"

text \<open>Both loops push each path after \<open>resolve_new\<close> has accepted it, and stop at the first error.\<close>

fun collect_paths ::
  "'w tool_host \<Rightarrow> runner \<Rightarrow> 'w \<Rightarrow> (runner_error + string) list \<Rightarrow> string list \<Rightarrow>
   runner_error + string list" where
  "collect_paths h r w [] paths = Inr paths"
| "collect_paths h r w (Inl e # ps) paths = Inl e"
| "collect_paths h r w (Inr path # ps) paths =
     (case resolve_new (host_fs h w) (host_cwd h) (ws_at r w) path of
        Inl e \<Rightarrow> Inl (WorkspaceFailed e)
      | Inr _ \<Rightarrow> collect_paths h r w ps (paths @ [path]))"

definition accept_paths :: "execution_limits \<Rightarrow> string list \<Rightarrow> runner_error + string list" where
  "accept_paths limits paths =
     (if paths = [] then Inl (Patch ''patch does not affect any files'')
      else
        (let paths = remdups_adj (sort paths) in
         if length paths > max_results limits then
           Inl (Patch (''patch affects more than '' @ show_nat (max_results limits) @ '' files''))
         else if sum_list (map length paths) > max_output_bytes limits then
           Inl (Patch ''affected patch paths exceed the output byte limit'')
         else Inr paths))"

definition patch_paths ::
  "'w tool_host \<Rightarrow> runner \<Rightarrow> 'w tool_state \<Rightarrow> string \<Rightarrow> 'w tool_state \<times> (runner_error + string list)" where
  "patch_paths h r st patch =
     (case git_with_limit h st [''apply'', ''--numstat'', ''-z'']
             (max_patch_input_bytes (rn_limits r)) (Some patch) of
        (st, Inl e) \<Rightarrow> (st, Inl e)
      | (st, Inr co) \<Rightarrow>
          (st,
           case successful_patch co of
             Inl e \<Rightarrow> Inl e
           | Inr stdout \<Rightarrow>
               (case collect_paths h r (ts_world st)
                       (map record_path (filter (\<lambda>rec. rec \<noteq> []) (split_on NUL stdout)) @
                        List.map_filter line_path (str_lines patch)) [] of
                  Inl e \<Rightarrow> Inl e
                | Inr paths \<Rightarrow> accept_paths (rn_limits r) paths)))"

definition preflight_patch ::
  "'w tool_host \<Rightarrow> runner \<Rightarrow> 'w tool_state \<Rightarrow> string \<Rightarrow> authority_guard \<Rightarrow>
   'w tool_state \<times> (runner_error + string list)" where
  "preflight_patch h r st patch authority =
     (case check_authority h (ts_world st) authority of
        Inl e \<Rightarrow> (st, Inl e)
      | Inr _ \<Rightarrow>
          (case patch_paths h r st patch of
             (st, Inl e) \<Rightarrow> (st, Inl e)
           | (st, Inr paths) \<Rightarrow>
               (case git_with_input h r st [''apply'', ''--check''] patch of
                  (st, Inl e) \<Rightarrow> (st, Inl e)
                | (st, Inr check) \<Rightarrow>
                    (case successful_patch check of
                       Inl e \<Rightarrow> (st, Inl e)
                     | Inr _ \<Rightarrow>
                         (case check_authority h (ts_world st) authority of
                            Inl e \<Rightarrow> (st, Inl e)
                          | Inr _ \<Rightarrow> (st, Inr paths))))))"

text \<open>
  After the spawn of \<^verbatim>\<open>git apply\<close>: the biased \<open>select!\<close> takes the loss of authority first.  A
  child whose wait fails ends the function at once, and dropping the guard kills its group.
\<close>

definition apply_outcome ::
  "'w tool_host \<Rightarrow> usize \<Rightarrow> authority_guard \<Rightarrow> 'w apply_run \<Rightarrow>
   group_action list \<times> (runner_error + captured_output)" where
  "apply_outcome h limit authority run =
     (let lost = (case check_authority h (ar_world run) authority of Inl _ \<Rightarrow> True | Inr _ \<Rightarrow> False);
          readers = (\<lambda>st.
            (case finish_git_reader (map_option (\<lambda>rs. read_async_bounded rs limit) (ar_stdout run)) of
               Inl e \<Rightarrow> Inl e
             | Inr (out, out_truncated) \<Rightarrow>
                 (case finish_git_reader (map_option (\<lambda>rs. read_async_bounded rs limit) (ar_stderr run)) of
                    Inl e \<Rightarrow> Inl e
                  | Inr (err, err_truncated) \<Rightarrow>
                      (case st of
                         None \<Rightarrow> Inl (authority_failed Lost)
                       | Some status' \<Rightarrow>
                           (case (status_success status', ar_input_error run) of
                              (True, Some e) \<Rightarrow> Inl (GitIo e)
                            | _ \<Rightarrow>
                                Inr \<lparr>co_status = status', co_stdout = out, co_stderr = err,
                                     co_stdout_truncated = out_truncated,
                                     co_stderr_truncated = err_truncated, co_limit = limit\<rparr>)))))
      in if lost then (terminate_process_group (ar_group run) (ar_reaped run), readers None)
         else case ar_wait run of
           Inl e \<Rightarrow> (drop_process_group_guard (ar_group run), Inl (GitIo e))
         | Inr status' \<Rightarrow> (cleanup_process_group (ar_group run), readers (Some status')))"

definition git_apply_authorized ::
  "'w tool_host \<Rightarrow> runner \<Rightarrow> 'w tool_state \<Rightarrow> string \<Rightarrow> authority_guard \<Rightarrow>
   'w tool_state \<times> (runner_error + captured_output)" where
  "git_apply_authorized h r st patch authority =
     (case check_authority h (ts_world st) authority of
        Inl e \<Rightarrow> (st, Inl e)
      | Inr _ \<Rightarrow>
          (let (w, spawned) = host_apply h (ts_world st) patch;
               st' = st\<lparr>ts_world := w, ts_git := ts_git st @ [(ts_world st, GitApply patch)]\<rparr>
           in case spawned of
                Inl e \<Rightarrow> (st', Inl (GitIo e))
              | Inr run \<Rightarrow>
                  (let (acts, res) = apply_outcome h (max_output_bytes (rn_limits r)) authority run
                   in (st'\<lparr>ts_actions := ts_actions st' @ acts\<rparr>, res))))"

definition apply_patch_authorized ::
  "'w tool_host \<Rightarrow> runner \<Rightarrow> 'w tool_state \<Rightarrow> string \<Rightarrow> authority_guard \<Rightarrow>
   'w tool_state \<times> (runner_error + tool_result)" where
  "apply_patch_authorized h r st patch authority =
     (if length patch > max_patch_input_bytes (rn_limits r) then
        (st, Inl (Patch (''patch exceeds '' @ show_nat (max_patch_input_bytes (rn_limits r)) @ '' byte limit'')))
      else
        (case preflight_patch h r (suspend h st) patch authority of
           (st, Inl e) \<Rightarrow> (suspend h st, Inl e)
         | (st, Inr paths) \<Rightarrow>
             (let st = suspend h st in
              case check_authority h (ts_world st) authority of
                Inl e \<Rightarrow> (st, Inl e)
              | Inr _ \<Rightarrow>
                  (case git_apply_authorized h r st patch authority of
                     (st, Inl e) \<Rightarrow> (st, Inl e)
                   | (st, Inr applied) \<Rightarrow>
                       (case successful_patch applied of
                          Inl e \<Rightarrow> (st, Inl e)
                        | Inr _ \<Rightarrow> (st, Inr (FilesChanged paths)))))))"

section \<open>Replacing text\<close>

definition replace_text_authorized ::
  "'w tool_host \<Rightarrow> runner \<Rightarrow> 'w tool_state \<Rightarrow> string \<Rightarrow> string \<Rightarrow> string \<Rightarrow> authority_guard \<Rightarrow>
   'w tool_state \<times> (runner_error + tool_result)" where
  "replace_text_authorized h r st path old_text new_text authority =
     (if old_text = [] then (st, Inl (Replace ''old_text cannot be empty''))
      else case Option.bind (checked_add (length path) (length old_text))
                  (\<lambda>size'. checked_add size' (length new_text)) of
        None \<Rightarrow> (st, Inl (Replace ''input size overflow''))
      | Some input_bytes \<Rightarrow>
          if input_bytes > max_patch_input_bytes (rn_limits r) then
            (st, Inl (Replace (''replacement exceeds '' @ show_nat (max_patch_input_bytes (rn_limits r)) @
               '' byte limit'')))
          else
            (case confined_relative h r (ts_world st) path of
               Inl e \<Rightarrow> (st, Inl e)
             | Inr relative \<Rightarrow>
                 (let st = suspend h st in
                  case check_authority h (ts_world st) authority of
                    Inl e \<Rightarrow> (st, Inl e)
                  | Inr _ \<Rightarrow>
                      (let (w, changed) = replace_text_if_unique (host_dir h) (ws_at r (ts_world st))
                             (host_token h (ts_world st)) relative old_text new_text
                             (max_file_input_bytes (rn_limits r));
                           st = suspend h (st\<lparr>ts_world := w\<rparr>)
                       in case changed of
                            Inl (WorkspacePanic m) \<Rightarrow> (st, Inl (Task m))
                          | Inl e \<Rightarrow> (st, Inl (WorkspaceFailed e))
                          | Inr False \<Rightarrow> (st, Inl (Replace ''old_text must match exactly once''))
                          | Inr True \<Rightarrow> (st, Inr (FilesChanged [relative]))))))"

section \<open>Commands\<close>

definition start_command ::
  "'w tool_host \<Rightarrow> runner \<Rightarrow> 'w tool_state \<Rightarrow> string \<Rightarrow> string \<Rightarrow> u64 \<Rightarrow> authority_guard \<Rightarrow>
   'w tool_state \<times> (runner_error + tool_result)" where
  "start_command h r st command cwd timeout_ms authority =
     (case check_authority h (ts_world st) authority of
        Inl e \<Rightarrow> (st, Inl e)
      | Inr _ \<Rightarrow>
          (case resolve (host_fs h (ts_world st)) (host_cwd h) (ws_at r (ts_world st)) cwd of
             Inl e \<Rightarrow> (st, Inl (WorkspaceFailed e))
           | Inr cwd \<Rightarrow>
               (let st = suspend h st;
                    (w, spawned, process_id) = host_spawn h (ts_world st) command cwd timeout_ms;
                    (reg, t) = host_authority h (ts_world st)
                in case start_authorized (ts_processes st) reg t authority spawned process_id of
                     Inl e \<Rightarrow> (st, Inl (ProcessFailed e))
                   | Inr (m, process_id) \<Rightarrow>
                       (st\<lparr>ts_world := w, ts_processes := m\<rparr>, Inr (CommandStarted process_id)))))"

definition poll_result :: "uuid \<Rightarrow> process_error + process_poll \<Rightarrow> runner_error + tool_result" where
  "poll_result process_id polled =
     (case polled of
        Inl e \<Rightarrow> Inl (ProcessFailed e)
      | Inr p \<Rightarrow>
          Inr (CommandPoll process_id (poll_status p) (poll_output p) (poll_earliest_sequence p)
                 (poll_next_sequence p) (poll_truncated p)))"

definition poll_command ::
  "'w tool_state \<Rightarrow> uuid \<Rightarrow> u64 \<Rightarrow> 'w tool_state \<times> (runner_error + tool_result)" where
  "poll_command st process_id after_sequence =
     (st, poll_result process_id (poll (ts_processes st) process_id after_sequence))"

text \<open>\<open>host_managers\<close> lists the process tables the waiting loop observes; \<open>None\<close> means that the
  command is still running in the last of them.\<close>

definition stop_command ::
  "'w tool_host \<Rightarrow> 'w tool_state \<Rightarrow> uuid \<Rightarrow> u64 \<Rightarrow>
   'w tool_state \<times> (runner_error + tool_result) option" where
  "stop_command h st process_id after_sequence =
     (case stop_send (ts_processes st) process_id of
        Inl e \<Rightarrow> (st, Some (Inl (ProcessFailed e)))
      | Inr m \<Rightarrow>
          (let ms = m # host_managers h (ts_world st) m in
           (st\<lparr>ts_processes := last ms\<rparr>,
            map_option (poll_result process_id) (wait_until_terminal ms process_id after_sequence))))"

section \<open>Dispatch\<close>

definition execute_blocking ::
  "'w tool_host \<Rightarrow> runner \<Rightarrow> 'w tool_state \<Rightarrow> tool_request \<Rightarrow> authority_guard \<Rightarrow>
   'w tool_state \<times> (runner_error + tool_result)" where
  "execute_blocking h r st request authority =
     (case check_authority h (ts_world st) authority of
        Inl e \<Rightarrow> (st, Inl e)
      | Inr _ \<Rightarrow>
          (case request of
             ListFiles path \<Rightarrow> list_files h r st path
           | SearchCode query paths \<Rightarrow> search_code h r st query paths
           | ReadFile path offset limit \<Rightarrow> (st, read_file h r (ts_world st) path offset limit)
           | GitStatus \<Rightarrow> git_output h r st [''status'', ''--short''] []
           | GitDiff paths \<Rightarrow> git_diff h r st paths
           | _ \<Rightarrow> (st, Inl (Task ''mutation and process requests are dispatched asynchronously''))))"

definition execute_authorized ::
  "'w tool_host \<Rightarrow> runner \<Rightarrow> 'w tool_state \<Rightarrow> tool_request \<Rightarrow> authority_guard \<Rightarrow>
   'w tool_state \<times> (runner_error + tool_result) option" where
  "execute_authorized h r st request authority =
     (case check_authority h (ts_world st) authority of
        Inl e \<Rightarrow> (st, Some (Inl e))
      | Inr _ \<Rightarrow>
          (case request of
             StartCommand command cwd timeout_ms \<Rightarrow>
               apsnd Some (start_command h r st command cwd timeout_ms authority)
           | PollCommand process_id after_sequence \<Rightarrow> apsnd Some (poll_command st process_id after_sequence)
           | StopCommand process_id after_sequence \<Rightarrow> stop_command h st process_id after_sequence
           | ApplyPatch patch \<Rightarrow> apsnd Some (apply_patch_authorized h r st patch authority)
           | ReplaceText path old_text new_text \<Rightarrow>
               apsnd Some (replace_text_authorized h r st path old_text new_text authority)
           | request \<Rightarrow> apsnd Some (execute_blocking h r (suspend h st) request authority)))"

definition execute ::
  "'w tool_host \<Rightarrow> runner \<Rightarrow> 'w tool_state \<Rightarrow> tool_request \<Rightarrow>
   'w tool_state \<times> (runner_error + tool_result) option" where
  "execute h r st request = execute_authorized h r st request unmanaged"

section \<open>Listings\<close>

lemma retain_paths_facts:
  "retain_paths m u ps = (kept, dropped) \<Longrightarrow> u \<le> m \<Longrightarrow>
   u + sum_list (map length kept) \<le> m \<and> subseq kept ps \<and> (dropped \<longleftrightarrow> kept \<noteq> ps)"
proof (induction m u ps arbitrary: kept dropped rule: retain_paths.induct)
  case (2 m u p ps)
  show ?case
  proof (cases "u + length p > m")
    case True
    obtain k t where k: "retain_paths m u ps = (k, t)" by fastforce
    with 2 True have "kept = k" "dropped" by auto
    moreover have "u + sum_list (map length k) \<le> m" "subseq k ps" using 2(1) [OF True k] 2(4) by blast+
    moreover have "k \<noteq> p # ps" using list_emb_length [OF \<open>subseq k ps\<close>] by auto
    ultimately show ?thesis by auto
  next
    case False
    obtain k t where k: "retain_paths m (u + length p) ps = (k, t)" by fastforce
    with 2(3) False have "kept = p # k" "dropped = t" by auto
    then show ?thesis using 2(2) [OF False k] False by auto
  qed
qed simp

lemma bounded_paths_facts:
  assumes "bounded_paths limits files t = (paths, trunc)"
  shows "length paths \<le> max_results limits" "sum_list (map length paths) \<le> max_output_bytes limits"
    "subseq paths (sort (str_lines files))" "\<not> trunc \<Longrightarrow> paths = sort (str_lines files) \<and> \<not> t"
proof -
  let ?ps = "sort (str_lines files)"
  obtain kept dropped where r:
    "retain_paths (max_output_bytes limits) 0 (take (max_results limits) ?ps) = (kept, dropped)" by fastforce
  note f = retain_paths_facts [OF r, simplified]
  have e: "paths = kept" "trunc = ((t \<or> length ?ps > max_results limits) \<or> dropped)"
    using assms r by (simp_all add: bounded_paths_def Let_def)
  show "sum_list (map length paths) \<le> max_output_bytes limits" using f e by simp
  have sub: "subseq kept (take (max_results limits) ?ps)" using f by simp
  then show "length paths \<le> max_results limits" using list_emb_length [OF sub] e by simp
  have "subseq (take (max_results limits) ?ps) ?ps" by (rule prefix_imp_subseq [OF take_is_prefix])
  then show "subseq paths ?ps" using sub e subseq_order.trans by blast
  assume "\<not> trunc"
  then show "paths = ?ps \<and> \<not> t" using e f by simp
qed

lemma sorted_subseq: "subseq xs ys \<Longrightarrow> sorted ys \<Longrightarrow> sorted xs"
  by (induction rule: list_emb.induct) (auto elim!: list_emb_set)

section \<open>Searches\<close>

text \<open>The lines a search reads of a path: none when it is not a readable text file.\<close>

definition file_lines :: "'w tool_host \<Rightarrow> runner \<Rightarrow> 'w \<Rightarrow> string \<Rightarrow> string list option" where
  "file_lines h r w path =
     (if is_file (host_dir h) (ws_at r w) path = Inr True then
        (case read_to_string_bounded (host_dir h) (ws_at r w) path (max_file_input_bytes (rn_limits r)) of
           Inl _ \<Rightarrow> None
         | Inr str \<Rightarrow> Some (str_lines str))
      else None)"

definition match_bytes :: "search_match list \<Rightarrow> nat" where
  "match_bytes ms = sum_list (map (\<lambda>m. length (match_path m) + length (match_content m)) ms)"

definition search_ok :: "execution_limits \<Rightarrow> search_state \<Rightarrow> bool" where
  "search_ok limits s \<longleftrightarrow>
     length (sr_matches s) \<le> max_results limits \<and> sr_bytes s = match_bytes (sr_matches s) \<and>
     sr_bytes s \<le> max_output_bytes limits \<and> (sr_stop s \<longrightarrow> sr_truncated s)"

lemma search_line_ok [invariant_intros]:
  assumes "search_ok limits s"
  shows "search_ok limits (search_line limits query path i l s)"
proof -
  obtain str t where tr:
    "tool_truncate_utf8 l (max_output_bytes limits - sr_bytes s - length path) = (str, t)" by fastforce
  then have "length str \<le> max_output_bytes limits - sr_bytes s - length path"
    using tool_truncation.trunc_length [of l "max_output_bytes limits - sr_bytes s - length path"] by simp
  with assms tr show ?thesis
    by (auto simp: search_line_def search_ok_def match_bytes_def Let_def)
qed

lemma search_lines_ok [invariant_intros]:
  "search_ok limits s \<Longrightarrow> search_ok limits (search_lines limits query path i ls s)"
  by (induction limits query path i ls s rule: search_lines.induct) (auto simp: Let_def search_line_ok)

lemma search_files_Cons:
  assumes "search_files h r w query (path # paths) s = Inr s'"
  obtains (skip) "search_files h r w query paths s = Inr s'" "file_lines h r w path = None"
  | (stopped) ls where "file_lines h r w path = Some ls"
      "s' = search_lines (rn_limits r) query path 0 ls s" "sr_stop s'"
  | (continued) ls where "file_lines h r w path = Some ls"
      "\<not> sr_stop (search_lines (rn_limits r) query path 0 ls s)"
      "search_files h r w query paths (search_lines (rn_limits r) query path 0 ls s) = Inr s'"
  using assms
  by (auto simp: file_lines_def Let_def split: sum.splits bool.splits if_splits)

lemma search_files_ok [invariant_intros]:
  "search_files h r w query paths s = Inr s' \<Longrightarrow> search_ok (rn_limits r) s \<Longrightarrow> search_ok (rn_limits r) s'"
proof (induction paths arbitrary: s)
  case (Cons path paths)
  from Cons.prems(1) show ?case
    by (rule search_files_Cons) (use Cons in \<open>auto intro: invariant_intros\<close>)
qed simp

lemma search_roots_ok [invariant_intros]:
  "search_roots h r st query roots s = (st', Inr s') \<Longrightarrow> search_ok (rn_limits r) s \<Longrightarrow>
   search_ok (rn_limits r) s'"
proof (induction roots arbitrary: st s)
  case (Cons root roots)
  from Cons.prems(1) obtain st1 paths b s1 where l: "list_paths h r st root = (st1, Inr (paths, b))"
    and f: "search_files h r (ts_world st1) query paths (s\<lparr>sr_truncated := sr_truncated s \<or> b\<rparr>) = Inr s1"
    and rest: "if sr_stop s1 then s' = s1 else search_roots h r st1 query roots s1 = (st', Inr s')"
    by (auto split: prod.splits sum.splits if_splits)
  have "search_ok (rn_limits r) (s\<lparr>sr_truncated := sr_truncated s \<or> b\<rparr>)"
    using Cons.prems(2) by (simp add: search_ok_def)
  then have "search_ok (rn_limits r) s1" by (rule search_files_ok [OF f])
  with rest Cons.IH show ?case by (auto split: if_splits)
qed simp

text \<open>What a search finds: the lines that contain the query, file by file.\<close>

definition line_matches :: "string \<Rightarrow> string \<Rightarrow> nat \<Rightarrow> string list \<Rightarrow> search_match list" where
  "line_matches query path i ls =
     map (\<lambda>(k, l). \<lparr>match_path = path, match_line = k + 1, match_content = l\<rparr>)
       (filter (\<lambda>(k, l). str_contains query l) (enumerate i ls))"

definition file_matches :: "'w tool_host \<Rightarrow> runner \<Rightarrow> 'w \<Rightarrow> string \<Rightarrow> string \<Rightarrow> search_match list" where
  "file_matches h r w query path =
     (case file_lines h r w path of None \<Rightarrow> [] | Some ls \<Rightarrow> line_matches query path 0 ls)"

lemma search_line_trunc: "sr_truncated s \<Longrightarrow> sr_truncated (search_line limits query path i l s)"
  by (auto simp: search_line_def Let_def split: prod.splits)

lemma search_lines_trunc: "sr_truncated s \<Longrightarrow> sr_truncated (search_lines limits query path i ls s)"
  by (induction limits query path i ls s rule: search_lines.induct) (auto simp: Let_def search_line_trunc)

lemma search_line_complete:
  assumes "\<not> sr_truncated (search_line limits query path i l s)"
  shows "sr_matches (search_line limits query path i l s) = sr_matches s @ line_matches query path i [l] \<and>
    sr_stop (search_line limits query path i l s) = sr_stop s"
proof (cases "str_contains query l")
  case True
  let ?n = "max_output_bytes limits - sr_bytes s - length path"
  have "snd (tool_truncate_utf8 l ?n) \<longleftrightarrow> fst (tool_truncate_utf8 l ?n) \<noteq> l" by (rule tool_truncate_flag)
  with True assms show ?thesis
    by (auto simp: search_line_def Let_def line_matches_def split_beta split: if_splits)
qed (simp add: search_line_def line_matches_def)

lemma search_lines_complete:
  "\<not> sr_truncated (search_lines limits query path i ls s) \<Longrightarrow> \<not> sr_stop s \<Longrightarrow>
   sr_matches (search_lines limits query path i ls s) = sr_matches s @ line_matches query path i ls \<and>
   \<not> sr_stop (search_lines limits query path i ls s)"
proof (induction limits query path i ls s rule: search_lines.induct)
  case (2 limits query path i l ls s)
  let ?s = "search_line limits query path i l s"
  have nt: "\<not> sr_truncated ?s"
    using "2.prems"(1) search_lines_trunc by (auto simp: Let_def split: if_splits)
  note c = search_line_complete [OF nt]
  with 2 show ?case by (simp add: Let_def line_matches_def)
qed (simp add: line_matches_def)

lemma search_files_trunc:
  "search_files h r w query paths s = Inr s' \<Longrightarrow> sr_truncated s \<Longrightarrow> sr_truncated s'"
proof (induction paths arbitrary: s)
  case (Cons path paths)
  from Cons.prems(1) show ?case
    by (rule search_files_Cons) (use Cons search_lines_trunc in auto)
qed simp

lemma search_files_complete:
  "search_files h r w query paths s = Inr s' \<Longrightarrow> \<not> sr_truncated s' \<Longrightarrow> \<not> sr_stop s \<Longrightarrow>
   sr_matches s' = sr_matches s @ concat (map (file_matches h r w query) paths)"
proof (induction paths arbitrary: s)
  case (Cons path paths)
  from Cons.prems(1) show ?case
  proof (cases rule: search_files_Cons)
    case skip
    with Cons show ?thesis by (simp add: file_matches_def)
  next
    case (stopped ls)
    with Cons.prems search_lines_complete [of "rn_limits r" query path 0 ls s] show ?thesis by simp
  next
    case (continued ls)
    let ?s = "search_lines (rn_limits r) query path 0 ls s"
    have "\<not> sr_truncated ?s" using search_files_trunc [OF continued(3)] Cons.prems(2) by blast
    with Cons.prems(3) search_lines_complete [of "rn_limits r" query path 0 ls s]
    have "sr_matches ?s = sr_matches s @ line_matches query path 0 ls" by simp
    with Cons.IH [OF continued(3) Cons.prems(2) continued(2)] continued(1) show ?thesis
      by (simp add: file_matches_def)
  qed
qed simp

text \<open>A search that has not been stopped goes on with what is left of the files and of the roots.\<close>

lemma search_files_continue:
  "search_files h r w query ps s = Inr s1 \<Longrightarrow> \<not> sr_stop s1 \<Longrightarrow>
   search_files h r w query (ps @ qs) s = search_files h r w query qs s1"
  by (induction ps arbitrary: s) (auto simp: Let_def split: sum.splits bool.splits if_splits)

lemma search_roots_continue:
  "search_roots h r st query ps s = (st1, Inr s1) \<Longrightarrow> \<not> sr_stop s1 \<Longrightarrow>
   search_roots h r st query (ps @ qs) s = search_roots h r st1 query qs s1"
  by (induction ps arbitrary: st s) (auto split: prod.splits sum.splits if_splits)

section \<open>Results within their limits\<close>

lemma git_text_length:
  assumes "git_text (git_with_limit h st args limit input) = (st', Inr (str, t))"
  shows "length str \<le> limit"
  using assms run_command_limit successful_stdout_length
  by (fastforce simp: git_text_def git_with_limit_def split: prod.splits sum.splits)

lemma diff_untracked_length:
  "diff_untracked h r st paths str t = (st', Inr (str', t')) \<Longrightarrow>
   length str \<le> max_output_bytes (rn_limits r) \<Longrightarrow> length str' \<le> max_output_bytes (rn_limits r)"
proof (induction paths arbitrary: st str t)
  case (Cons path paths)
  let ?m = "max_output_bytes (rn_limits r)"
  have conv: "length (str @ fst (lossy_bounded bs (?m - length str))) \<le> ?m" for bs
    using lossy_bounded_length [of bs "?m - length str"] Cons.prems(2) by simp
  from Cons.prems(1) consider "str' = str"
    | bs where "str' = str @ fst (lossy_bounded bs (?m - length str))"
    | bs st1 where "diff_untracked h r st1 paths (str @ fst (lossy_bounded bs (?m - length str))) t = (st', Inr (str', t'))"
    by (auto simp: Let_def split_beta split: if_splits sum.splits prod.splits)
  then show ?case
    by cases (use Cons conv in auto)
qed simp

lemma accept_paths_Inr:
  assumes "accept_paths limits paths = Inr ps"
  shows "ps = remdups_adj (sort paths)" "paths \<noteq> []" "length ps \<le> max_results limits"
    "sum_list (map length ps) \<le> max_output_bytes limits"
  using assms by (auto simp: accept_paths_def Let_def not_less split: if_splits)

lemma sorted_distinct_adj: "sorted xs \<Longrightarrow> distinct_adj xs \<Longrightarrow> distinct (xs :: 'a :: linorder list)"
proof (induction xs)
  case (Cons x xs)
  have "x \<notin> set xs"
  proof
    assume "x \<in> set xs"
    then obtain y ys where xs: "xs = y # ys" by (cases xs) auto
    with Cons.prems \<open>x \<in> set xs\<close> have "y = x" by (force simp: order.antisym)
    with Cons.prems(2) xs show False by (simp add: distinct_adj_Cons)
  qed
  with Cons show ?case by (simp add: distinct_adj_ConsD)
qed simp

lemma remdups_adj_sort: "sorted (remdups_adj (sort xs)) \<and> distinct (remdups_adj (sort xs)) \<and>
    set (remdups_adj (sort xs)) = set xs"
  by (simp add: sorted_distinct_adj)

lemma collect_paths_Inr:
  "collect_paths h r w es acc = Inr ps \<Longrightarrow>
   \<exists>qs. es = map Inr qs \<and> ps = acc @ qs \<and>
     (\<forall>q \<in> set qs. \<exists>c. resolve_new (host_fs h w) (host_cwd h) (ws_at r w) q = Inr c)"
proof (induction h r w es acc rule: collect_paths.induct)
  case (3 h r w path es acc)
  then obtain c where c: "resolve_new (host_fs h w) (host_cwd h) (ws_at r w) path = Inr c"
    by (auto split: sum.splits)
  from "3.IH" [OF c] "3.prems" c obtain qs where "es = map Inr qs" "ps = (acc @ [path]) @ qs"
    "\<forall>q \<in> set qs. \<exists>c. resolve_new (host_fs h w) (host_cwd h) (ws_at r w) q = Inr c"
    by auto
  with c show ?case by (intro exI [of _ "path # qs"]) auto
qed simp_all

text \<open>What acceptance of a patch means for the paths it touches.\<close>

lemma patch_paths_Inr:
  assumes "patch_paths h r st patch = (st', Inr ps)"
  shows "sorted ps" "distinct ps" "ps \<noteq> []" "length ps \<le> max_results (rn_limits r)"
    "sum_list (map length ps) \<le> max_output_bytes (rn_limits r)"
    "\<forall>p \<in> set ps. \<exists>c. resolve_new (host_fs h (ts_world st')) (host_cwd h) (ws_at r (ts_world st')) p = Inr c"
    "ts_git st' = ts_git st @ [(ts_world st, GitCall (git_prefix @ [''apply'', ''--numstat'', ''-z'']) (Some patch))]"
proof -
  from assms obtain co stdout acc where g: "git_with_limit h st [''apply'', ''--numstat'', ''-z'']
      (max_patch_input_bytes (rn_limits r)) (Some patch) = (st', Inr co)"
    and c: "collect_paths h r (ts_world st')
       (map record_path (filter (\<lambda>rec. rec \<noteq> []) (split_on NUL stdout)) @
        List.map_filter line_path (str_lines patch)) [] = Inr acc"
    and a: "accept_paths (rn_limits r) acc = Inr ps"
    by (auto simp: patch_paths_def split: prod.splits sum.splits)
  note acc = accept_paths_Inr [OF a] and sorted = remdups_adj_sort [of acc]
  show "sorted ps" "distinct ps" using sorted acc(1) by simp_all
  show "length ps \<le> max_results (rn_limits r)" "sum_list (map length ps) \<le> max_output_bytes (rn_limits r)"
    using acc by simp_all
  have set: "set ps = set acc" using sorted acc(1) by simp
  with acc(2) show "ps \<noteq> []" by auto
  show "\<forall>p \<in> set ps. \<exists>c. resolve_new (host_fs h (ts_world st')) (host_cwd h) (ws_at r (ts_world st')) p = Inr c"
    using collect_paths_Inr [OF c] set by auto
  show "ts_git st' = ts_git st @ [(ts_world st, GitCall (git_prefix @ [''apply'', ''--numstat'', ''-z'']) (Some patch))]"
    using g by (auto simp: git_with_limit_def split: prod.splits)
qed

definition result_within :: "execution_limits \<Rightarrow> tool_result \<Rightarrow> bool" where
  "result_within limits result =
     (case result of
        Files paths _ \<Rightarrow>
          length paths \<le> max_results limits \<and> sum_list (map length paths) \<le> max_output_bytes limits
      | Matches ms _ \<Rightarrow> length ms \<le> max_results limits \<and> match_bytes ms \<le> max_output_bytes limits
      | File str _ _ _ \<Rightarrow> length str \<le> max_output_bytes limits
      | Output str _ \<Rightarrow> length str \<le> max_output_bytes limits
      | FilesChanged paths \<Rightarrow>
          length paths \<le> max_results limits \<and> sum_list (map length paths) \<le> max_output_bytes limits
      | CommandPoll _ _ output' _ _ _ \<Rightarrow>
          length output' \<le> max_process_output_chunks limits \<and> content_bytes output' \<le> max_output_bytes limits
      | CommandStarted _ \<Rightarrow> True)"

text \<open>The process tables of a runner: the ones its manager, made by \<open>from_limits\<close>, can come to.\<close>

definition runner_table :: "execution_limits \<Rightarrow> process_manager \<Rightarrow> bool" where
  "runner_table limits m \<longleftrightarrow>
     (\<exists>w. reachable (max_output_bytes limits) (max_retained_processes limits) (max_process_output_chunks limits) w \<and>
        manager w = m)"

lemma runner_table_stop:
  assumes "runner_table limits m" "stop_send m process_id = Inr m'"
  shows "runner_table limits m'"
proof -
  obtain w where w: "reachable (max_output_bytes limits) (max_retained_processes limits)
      (max_process_output_chunks limits) w" "manager w = m"
    using assms(1) by (auto simp: runner_table_def)
  then have "proc_step w (w\<lparr>manager := m'\<rparr>)" using assms(2) by (auto intro: proc_step.step_stop)
  then have "reachable (max_output_bytes limits) (max_retained_processes limits)
      (max_process_output_chunks limits) (w\<lparr>manager := m'\<rparr>)"
    by (rule reachable_run [OF w(1) proc_run_single])
  then show ?thesis unfolding runner_table_def by (intro exI [of _ "w\<lparr>manager := m'\<rparr>"]) simp
qed

lemma poll_within:
  assumes "runner_table limits m" "poll_result process_id (poll m process_id after) = Inr result"
  shows "result_within limits result"
proof -
  obtain w where w: "reachable (max_output_bytes limits) (max_retained_processes limits)
      (max_process_output_chunks limits) w" "manager w = m"
    using assms(1) by (auto simp: runner_table_def)
  obtain e where e: "entry_of w process_id = Some e"
    "result = CommandPoll process_id (poll_status (poll_state (entry_state e) after))
       (poll_output (poll_state (entry_state e) after)) (poll_earliest_sequence (poll_state (entry_state e) after))
       (poll_next_sequence (poll_state (entry_state e) after)) (poll_truncated (poll_state (entry_state e) after))"
    using assms(2) w(2) by (auto simp: poll_result_def poll_def split: option.splits sum.splits)
  have "within (max_output_bytes limits) (max_process_output_chunks limits) (outbuf (entry_state e))"
    using reachable_inv [OF w(1)] e(1) by (auto simp: bounded_table_def entry_ok_def)
  moreover have "content_bytes (filter P cs) \<le> content_bytes cs" "length (filter P cs) \<le> length cs"
    for P and cs :: "command_output list" by (simp_all add: sum_list_filter_le_nat)
  ultimately have "content_bytes (poll_output (poll_state (entry_state e) after)) \<le> max_output_bytes limits"
    "length (poll_output (poll_state (entry_state e) after)) \<le> max_process_output_chunks limits"
    unfolding within_def counted_def poll_state_def Let_def process_poll.simps by (metis order_trans)+
  then show ?thesis unfolding e(2) result_within_def by simp
qed

lemma list_files_within:
  "list_files h r st path = (st', Inr res) \<Longrightarrow> result_within (rn_limits r) res"
  by (auto simp: list_files_def list_paths_def result_within_def bounded_paths_facts
      split: prod.splits sum.splits)

lemma search_code_within:
  assumes "search_code h r st query paths = (st', Inr res)"
  shows "result_within (rn_limits r) res"
proof -
  let ?s = "\<lparr>sr_matches = [], sr_bytes = 0, sr_truncated = False, sr_stop = False\<rparr>"
  obtain s where "search_roots h r st query (if paths = [] then [[]] else paths) ?s = (st', Inr s)"
    "res = Matches (sr_matches s) (sr_truncated s)"
    using assms by (auto simp: search_code_def split: prod.splits sum.splits)
  moreover have "search_ok (rn_limits r) ?s" by (simp add: search_ok_def match_bytes_def)
  ultimately show ?thesis using search_roots_ok by (fastforce simp: search_ok_def result_within_def)
qed

lemma read_file_within:
  "read_file h r w path offset limit = Inr res \<Longrightarrow> result_within (rn_limits r) res"
  by (auto simp: read_file_def Let_def result_within_def split: if_splits sum.splits)

lemma git_output_within:
  "git_output h r st args paths = (st', Inr res) \<Longrightarrow> result_within (rn_limits r) res"
  using git_text_length
  by (fastforce simp: git_output_def git_def result_within_def split: prod.splits sum.splits)

lemma git_diff_within:
  assumes "git_diff h r st paths = (st', Inr res)"
  shows "result_within (rn_limits r) res"
proof -
  from assms obtain st1 st2 args str t us str' t' where
    g: "git_text (git h r st1 args) = (st2, Inr (str, t))" and
    d: "\<exists>st3. diff_untracked h r st3 us str t = (st', Inr (str', t'))" and res: "res = Output str' t'"
    by (auto simp: git_diff_def Let_def split: prod.splits sum.splits if_splits) blast+
  have "length str \<le> max_output_bytes (rn_limits r)"
    using git_text_length [OF g [unfolded git_def]] .
  with d res show ?thesis using diff_untracked_length by (fastforce simp: result_within_def)
qed

section \<open>What the tools ask of Git\<close>

named_theorems git_log_intros \<open>each tool extends the record of Git calls by permitted calls\<close>

definition extends :: "('w \<times> git_call \<Rightarrow> bool) \<Rightarrow> 'w tool_state \<Rightarrow> 'w tool_state \<Rightarrow> bool" where
  "extends P st st' \<longleftrightarrow> (\<exists>calls. ts_git st' = ts_git st @ calls \<and> list_all P calls)"

text \<open>Calls that leave the worktree alone.\<close>

definition inspects :: "'w \<times> git_call \<Rightarrow> bool" where
  "inspects c = (case snd c of GitCall _ _ \<Rightarrow> True | GitApply _ \<Rightarrow> False)"

lemma extends_refl [simp, git_log_intros]: "extends P st st"
  by (simp add: extends_def)

lemma extends_trans: "extends P st st1 \<Longrightarrow> extends P st1 st2 \<Longrightarrow> extends P st st2"
  by (auto simp: extends_def)

lemma extends_mono: "extends P st st' \<Longrightarrow> (\<And>c. P c \<Longrightarrow> Q c) \<Longrightarrow> extends Q st st'"
  by (auto simp: extends_def list_all_iff)

lemma extends_suspend [simp]: "extends P st (suspend h st') = extends P st st'"
  "extends P (suspend h st) st' = extends P st st'"
  by (simp_all add: extends_def suspend_def)

lemma git_with_limit_inspects [git_log_intros]:
  "git_with_limit h st args limit input = (st', res) \<Longrightarrow> extends inspects st st'"
  by (auto simp: git_with_limit_def extends_def inspects_def split: prod.splits)

lemma git_text_inspects [git_log_intros]:
  "git_text (git_with_limit h st args limit input) = (st', res) \<Longrightarrow> extends inspects st st'"
  by (cases "git_with_limit h st args limit input")
     (auto simp: git_text_def dest: git_with_limit_inspects)

lemma list_paths_inspects [git_log_intros]:
  "list_paths h r st path = (st', res) \<Longrightarrow> extends inspects st st'"
  by (auto simp: list_paths_def git_def split: sum.splits prod.splits dest!: git_text_inspects)

lemma search_roots_inspects [git_log_intros]:
  "search_roots h r st query roots s = (st', res) \<Longrightarrow> extends inspects st st'"
proof (induction roots arbitrary: st s)
  case (Cons root roots)
  obtain st1 res1 where l: "list_paths h r st root = (st1, res1)" by fastforce
  then have "extends inspects st st1" by (rule list_paths_inspects)
  with Cons l show ?case
    by (auto split: sum.splits if_splits intro: extends_trans)
qed simp

lemma diff_untracked_inspects [git_log_intros]:
  "diff_untracked h r st paths str t = (st', res) \<Longrightarrow> extends inspects st st'"
proof (induction paths arbitrary: st str t)
  case (Cons path paths)
  obtain st1 res1 where g: "git_with_limit h st
      [''diff'', ''--no-index'', ''--binary'', ''--no-ext-diff'', ''--no-textconv'', ''--'',
       ''/dev/null'', path] (max_output_bytes (rn_limits r) - length str) None = (st1, res1)" by fastforce
  then have "extends inspects st st1" by (rule git_with_limit_inspects)
  with Cons g show ?case
    by (auto simp: Let_def split_beta split: sum.splits if_splits intro: extends_trans)
qed simp

lemma git_diff_inspects [git_log_intros]:
  assumes "git_diff h r st paths = (st', res)"
  shows "extends inspects st st'"
  using assms
  by (auto simp: git_diff_def git_def Let_def split: sum.splits prod.splits if_splits
      dest!: git_with_limit_inspects git_text_inspects diff_untracked_inspects
      intro: extends_trans)

lemma execute_blocking_inspects [git_log_intros]:
  assumes "execute_blocking h r st request g = (st', res)"
  shows "extends inspects st st'"
  using assms
  by (auto simp: execute_blocking_def list_files_def search_code_def git_output_def git_def
      split: sum.splits prod.splits tool_request.splits
      dest!: list_paths_inspects search_roots_inspects git_text_inspects git_diff_inspects)

lemma preflight_patch_inspects [git_log_intros]:
  assumes "preflight_patch h r st patch g = (st', res)"
  shows "extends inspects st st'"
proof -
  obtain st1 res1 where p: "patch_paths h r st patch = (st1, res1)" by fastforce
  then have 1: "extends inspects st st1"
    by (auto simp: patch_paths_def split: prod.splits sum.splits dest!: git_with_limit_inspects)
  obtain st2 res2 where c: "git_with_input h r st1 [''apply'', ''--check''] patch = (st2, res2)" by fastforce
  then have "extends inspects st1 st2"
    by (auto simp: git_with_input_def dest!: git_with_limit_inspects)
  then have "extends inspects st st2" by (rule extends_trans [OF 1])
  with 1 assms p c show ?thesis
    by (auto simp: preflight_patch_def split: sum.splits)
qed

text \<open>A call may change the worktree only in a world where the guard is valid, and only with the
  patch of the request.\<close>

definition permitted :: "'w tool_host \<Rightarrow> authority_guard \<Rightarrow> tool_request \<Rightarrow> 'w \<times> git_call \<Rightarrow> bool" where
  "permitted h g request c =
     (case snd c of
        GitCall _ _ \<Rightarrow> True
      | GitApply patch \<Rightarrow> request = ApplyPatch patch \<and> check_authority h (fst c) g = Inr ())"

lemma inspects_permitted: "extends inspects st st' \<Longrightarrow> extends (permitted h g request) st st'"
  by (erule extends_mono) (auto simp: inspects_def permitted_def split: git_call.splits)

lemma git_apply_permitted:
  assumes "git_apply_authorized h r st patch g = (st', res)"
  shows "extends (permitted h g (ApplyPatch patch)) st st'"
  using assms
  by (auto simp: git_apply_authorized_def Let_def extends_def permitted_def
      split: sum.splits prod.splits)

lemma apply_patch_permitted:
  assumes "apply_patch_authorized h r st patch g = (st', res)"
  shows "extends (permitted h g (ApplyPatch patch)) st st'"
proof -
  obtain st1 res1 where p: "preflight_patch h r (suspend h st) patch g = (st1, res1)" by fastforce
  then have 1: "extends (permitted h g (ApplyPatch patch)) st st1"
    using preflight_patch_inspects inspects_permitted by fastforce
  obtain st2 res2 where a: "git_apply_authorized h r (suspend h st1) patch g = (st2, res2)" by fastforce
  then have "extends (permitted h g (ApplyPatch patch)) st st2"
    using git_apply_permitted extends_trans [OF 1] by fastforce
  with 1 assms p a show ?thesis
    by (auto simp: apply_patch_authorized_def Let_def split: if_splits sum.splits prod.splits)
qed

lemma replace_text_calls:
  assumes "replace_text_authorized h r st path old new g = (st', res)"
  shows "ts_git st' = ts_git st"
  using assms
  by (auto simp: replace_text_authorized_def Let_def suspend_def
      split: if_splits sum.splits prod.splits option.splits workspace_error.splits bool.splits)

lemma command_calls:
  "start_command h r st command cwd t g = (st', res) \<Longrightarrow> ts_git st' = ts_git st"
  "stop_command h st pid a = (st', res2) \<Longrightarrow> ts_git st' = ts_git st"
  by (auto simp: start_command_def stop_command_def Let_def suspend_def
      split: sum.splits prod.splits)

lemma extends_same: "ts_git st' = ts_git st \<Longrightarrow> extends P st st'"
  by (simp add: extends_def)

lemma execute_permitted:
  assumes "execute_authorized h r st request g = (st', result)"
  shows "extends (permitted h g request) st st'"
proof -
  have blocking: "extends (permitted h g request) st st1"
    if "execute_blocking h r (suspend h st) request g = (st1, res)" for st1 res
    using execute_blocking_inspects [OF that] inspects_permitted by fastforce
  show "extends (permitted h g request) st st'"
    using assms blocking
    by (auto simp: execute_authorized_def apsnd_def map_prod_def poll_command_def
        split: sum.splits tool_request.splits prod.splits
        dest!: replace_text_calls command_calls
        intro: apply_patch_permitted extends_same)
qed

section \<open>Paging through a file\<close>

text \<open>A client that follows \<open>next_offset\<close> to the end; the pages it receives, in order.\<close>

fun read_pages ::
  "nat \<Rightarrow> 'w tool_host \<Rightarrow> runner \<Rightarrow> 'w \<Rightarrow> string \<Rightarrow> usize \<Rightarrow> usize \<Rightarrow> string list option" where
  "read_pages 0 h r w path offset limit = None"
| "read_pages (Suc n) h r w path offset limit =
     (case read_file h r w path offset limit of
        Inr (File page _ None _) \<Rightarrow> Some [page]
      | Inr (File page _ (Some next) _) \<Rightarrow>
          map_option ((#) page) (read_pages n h r w path next limit)
      | _ \<Rightarrow> None)"

lemma str_join_append:
  "xs \<noteq> [] \<Longrightarrow> ys \<noteq> [] \<Longrightarrow> str_join sep (xs @ ys) = str_join sep xs @ sep @ str_join sep ys"
proof (induction sep xs rule: str_join.induct)
  case (2 sep s)
  then show ?case by (cases ys) simp_all
qed simp_all

lemma read_pages_join:
  assumes source: "read_to_string_bounded (host_dir h) (ws_at r w) path (max_file_input_bytes (rn_limits r)) = Inr str"
    and fits: "\<forall>k. length (str_join [NL] (take limit (drop k (str_lines str)))) \<le> max_output_bytes (rn_limits r)"
    and limit: "0 < limit" and small: "length (str_lines str) + limit \<le> usize_max"
  shows "offset \<le> length (str_lines str) \<Longrightarrow> length (str_lines str) - offset < n \<Longrightarrow>
    \<exists>pages. read_pages n h r w path offset limit = Some pages \<and> pages \<noteq> [] \<and>
      str_join [NL] pages = str_join [NL] (drop offset (str_lines str))"
proof (induction n arbitrary: offset)
  case (Suc n)
  let ?ls = "str_lines str" and ?page = "str_join [NL] (take limit (drop offset (str_lines str)))"
  have fit: "length ?page \<le> max_output_bytes (rn_limits r)"
    using fits by blast
  have sat: "saturating_add offset limit = offset + limit"
    using Suc.prems(1) small by (simp add: saturating_add_def)
  show ?case
  proof (cases "offset + limit < length ?ls")
    case False
    then show ?thesis using source fit limit sat by (simp add: read_file_def Let_def)
  next
    case True
    then have "length ?ls - (offset + limit) < n" using Suc.prems(2) limit by linarith
    with True obtain pages where p: "read_pages n h r w path (offset + limit) limit = Some pages" "pages \<noteq> []"
      "str_join [NL] pages = str_join [NL] (drop (offset + limit) ?ls)"
      using Suc.IH [of "offset + limit"] by auto
    have "drop offset ?ls = take limit (drop offset ?ls) @ drop (offset + limit) ?ls"
      by (simp add: add.commute flip: drop_drop)
    then have "str_join [NL] (drop offset ?ls) = ?page @ [NL] @ str_join [NL] pages"
      using str_join_append [of "take limit (drop offset ?ls)" "drop (offset + limit) ?ls" "[NL]"] True limit p(3)
      by simp
    moreover have "str_join [NL] (?page # pages) = ?page @ [NL] @ str_join [NL] pages"
      using p(2) by (cases pages) simp_all
    ultimately show ?thesis
      using source fit limit sat True p(1) by (simp add: read_file_def Let_def)
  qed
qed simp

section \<open>Properties\<close>

text \<open>A host over the files of \<^verbatim>\<open>demo_files\<close> whose Git lists one file, accepts every patch and
  reports that it touches that file.\<close>

definition demo_numstat :: bytes where
  "demo_numstat = [CHR ''1'', TAB, CHR ''1'', TAB, CHR ''f'', NUL]"

definition demo_git :: "demo_dir \<Rightarrow> string list \<Rightarrow> bytes option \<Rightarrow> demo_dir \<times> (io_error + child_run)" where
  "demo_git w args input =
     (w, Inr \<lparr>run_input_error = None, run_wait = Inr (Some 0),
              run_stdout = [Inr (if ''--numstat'' \<in> set args then demo_numstat
                                 else [CHR ''f'', NL])],
              run_stderr = []\<rparr>)"

definition demo_host :: "demo_dir tool_host" where
  "demo_host =
     \<lparr>host_fs = (\<lambda>_. demo_fs), host_cwd = [], host_authority = (\<lambda>_. (demo_registry, 0)),
      host_suspend = (\<lambda>w. w), host_dir = demo_ops, host_token = (\<lambda>_. ''id''),
      host_git = demo_git,
      host_apply = (\<lambda>w p. (w, Inr \<lparr>ar_world = w, ar_group = Some 42, ar_wait = Inr (Some 0),
        ar_input_error = None, ar_reaped = True, ar_stdout = Some [], ar_stderr = Some []\<rparr>)),
      host_spawn = (\<lambda>w c d t. (w, Inr (Some 42), 7)),
      host_managers = (\<lambda>w m. [])\<rparr>"

definition demo_runner :: runner where
  "demo_runner = \<lparr>rn_root = ''/w'', rn_limits = standalone\<rparr>"

definition demo_state :: "demo_dir tool_state" where
  "demo_state = \<lparr>ts_world = demo_files, ts_processes = with_limits 1 1 1, ts_git = [], ts_actions = []\<rparr>"

lemma demo_host_simps [simp]:
  "host_fs demo_host w = demo_fs" "host_cwd demo_host = []" "host_suspend demo_host w = w"
  "host_authority demo_host w = (demo_registry, 0)" "host_dir demo_host = demo_ops"
  "host_git demo_host = demo_git" "check_authority demo_host w unmanaged = Inr ()"
  "check_authority demo_host w demo_guard = Inr ()" "suspend demo_host st = st"
  by (simp_all add: demo_host_def check_authority_def suspend_def ensure_valid_def demo_guard_def
      demo_registry_def state_matches_def unmanaged_def)

lemma demo_read:
  "read_to_string_bounded demo_ops (ws_at demo_runner demo_files) ''f'' (max_file_input_bytes (rn_limits demo_runner)) =
     Inr ''a=1''"
proof -
  have v: "validate_relative ''f'' = Inr ''f''" by code_simp
  have "from_utf8 ''a=1'' = Inr ()" by code_simp
  with v show ?thesis
    by (simp add: read_to_string_bounded_def read_checked_def ws_at_def demo_ops_def demo_files_def
        saturating_add_def usize_max_def demo_runner_def standalone_def)
qed

lemma demo_is_file:
  "is_file demo_ops (ws_at demo_runner demo_files) ''f'' = Inr True"
  "is_file demo_ops (ws_at demo_runner demo_files) ''deleted'' = Inl (WorkspaceIo ''/w/deleted'' ENOENT)"
proof -
  have v: "validate_relative ''f'' = Inr ''f''" "validate_relative ''deleted'' = Inr ''deleted''"
    "path_join ''/w'' ''deleted'' = ''/w/deleted''" by code_simp+
  show "is_file demo_ops (ws_at demo_runner demo_files) ''f'' = Inr True"
    "is_file demo_ops (ws_at demo_runner demo_files) ''deleted'' = Inl (WorkspaceIo ''/w/deleted'' ENOENT)"
    by (simp_all add: is_file_def v ws_at_def demo_ops_def demo_files_def demo_runner_def)
qed

lemma demo_contains: "str_contains ''='' ''a=1''" by code_simp

lemma demo_lines: "str_lines ''a=1'' = [''a=1'']" by code_simp

text \<open>The patch pipeline on the host.\<close>

lemma demo_git_call:
  assumes "length demo_numstat \<le> limit"
  shows "git_with_limit demo_host st args limit input =
     (st\<lparr>ts_git := ts_git st @ [(ts_world st, GitCall (git_prefix @ args) input)]\<rparr>,
      Inr \<lparr>co_status = Some 0,
           co_stdout = (if ''--numstat'' \<in> set (git_prefix @ args) then demo_numstat else [CHR ''f'', NL]),
           co_stderr = [], co_stdout_truncated = False, co_stderr_truncated = False, co_limit = limit\<rparr>)"
  using assms
  by (cases input)
     (simp_all add: git_with_limit_def demo_git_def run_command_def read_bounded_def read_consume_def
        status_success_def Let_def demo_numstat_def)

lemma resolve_new_root:
  assumes "ws_root ws = ws_root ws'"
  shows "resolve_new fs cwd ws p = resolve_new fs cwd ws' p"
  unfolding resolve_new_def assms ..

lemma demo_paths:
  "collect_paths demo_host demo_runner w
     (map record_path (filter (\<lambda>rec. rec \<noteq> []) (split_on NUL demo_numstat)) @
      List.map_filter line_path (str_lines ''p'')) [] = Inr [''f'']"
proof -
  have s: "filter (\<lambda>rec. rec \<noteq> []) (split_on NUL demo_numstat) =
      [[CHR ''1'', TAB, CHR ''1'', TAB, CHR ''f'']]" by code_simp
  have r: "record_path [CHR ''1'', TAB, CHR ''1'', TAB, CHR ''f''] = Inr ''f''" by code_simp
  have l: "List.map_filter line_path (str_lines ''p'') = []" by code_simp
  have "resolve_new demo_fs [] demo_workspace ''f'' = Inr ''/w/f''" by code_simp
  then have n: "resolve_new demo_fs [] (ws_at demo_runner w) ''f'' = Inr ''/w/f''"
    using resolve_new_root [of demo_workspace "ws_at demo_runner w"]
    by (simp add: ws_at_def demo_workspace_def demo_runner_def)
  show ?thesis by (simp add: s r l n)
qed

lemma demo_patch_paths:
  "patch_paths demo_host demo_runner st ''p'' =
     (st\<lparr>ts_git := ts_git st @
        [(ts_world st, GitCall (git_prefix @ [''apply'', ''--numstat'', ''-z'']) (Some ''p''))]\<rparr>, Inr [''f''])"
proof -
  have a: "accept_paths (rn_limits demo_runner) [''f''] = Inr [''f'']"
    by (simp add: accept_paths_def demo_runner_def standalone_def)
  have l: "length demo_numstat \<le> max_patch_input_bytes (rn_limits demo_runner)"
    by (simp add: demo_numstat_def demo_runner_def standalone_def)
  show ?thesis
    by (simp add: patch_paths_def demo_git_call [OF l] successful_patch_def status_success_def demo_paths a)
qed

definition demo_patched :: "demo_dir tool_state" where
  "demo_patched = demo_state\<lparr>
     ts_git := [(demo_files, GitCall (git_prefix @ [''apply'', ''--numstat'', ''-z'']) (Some ''p'')),
                (demo_files, GitCall (git_prefix @ [''apply'', ''--check'']) (Some ''p'')),
                (demo_files, GitApply ''p'')],
     ts_actions := [KillGroup 42 SIGTERM, Sleep 100, KillGroup 42 SIGKILL]\<rparr>"

lemma demo_apply:
  assumes g: "\<And>w. check_authority demo_host w g = Inr ()"
  shows "apply_patch_authorized demo_host demo_runner demo_state ''p'' g =
     (demo_patched, Inr (FilesChanged [''f'']))"
proof -
  have l: "length demo_numstat \<le> max_output_bytes (rn_limits demo_runner)"
    by (simp add: demo_numstat_def demo_runner_def standalone_def)
  have p: "preflight_patch demo_host demo_runner st ''p'' g =
      (st\<lparr>ts_git := ts_git st @
        [(ts_world st, GitCall (git_prefix @ [''apply'', ''--numstat'', ''-z'']) (Some ''p'')),
         (ts_world st, GitCall (git_prefix @ [''apply'', ''--check'']) (Some ''p''))]\<rparr>, Inr [''f''])" for st
    by (simp add: g preflight_patch_def demo_patch_paths git_with_input_def demo_git_call [OF l]
        successful_patch_def status_success_def)
  have ap: "host_apply demo_host w q = (w, Inr \<lparr>ar_world = w, ar_group = Some 42, ar_wait = Inr (Some 0),
        ar_input_error = None, ar_reaped = True, ar_stdout = Some [], ar_stderr = Some []\<rparr>)" for w q
    by (simp add: demo_host_def)
  have applies: "git_apply_authorized demo_host demo_runner st ''p'' g =
      (st\<lparr>ts_git := ts_git st @ [(ts_world st, GitApply ''p'')],
          ts_actions := ts_actions st @ [KillGroup 42 SIGTERM, Sleep 100, KillGroup 42 SIGKILL]\<rparr>,
       Inr \<lparr>co_status = Some 0, co_stdout = [], co_stderr = [], co_stdout_truncated = False,
            co_stderr_truncated = False, co_limit = max_output_bytes (rn_limits demo_runner)\<rparr>)" for st
    by (simp add: g git_apply_authorized_def ap apply_outcome_def read_async_bounded_def status_success_def)
  have n: "length ''p'' \<le> max_patch_input_bytes (rn_limits demo_runner)"
    by (simp add: demo_runner_def standalone_def)
  show ?thesis
    using n by (simp add: g apply_patch_authorized_def p applies successful_patch_def status_success_def
        demo_patched_def demo_state_def)
qed

text \<open>C34.  Tool results respect the limits.  Every successful result of a tool other than
  \<open>replace_text\<close> has at most \<open>max_results\<close> entries (paths of a listing or of a patch, matches of a
  search) and at most \<open>max_output_bytes\<close> bytes of content (those paths, the paths and lines of
  the matches, file lines, Git output).  A polled or stopped command returns at most
  \<open>max_process_output_chunks\<close> chunks of together at most \<open>max_output_bytes\<close> bytes, if the process
  tables the call sees are ones the runner's own manager can come to; a started command
  returns its identifier only.  \<open>replace_text\<close> returns exactly one path, whose length the
  code does not compare with a limit.\<close>

theorem tool_results_bounded:
  assumes "execute_authorized h r st request g = (st', Some (Inr result))"
    and "runner_table (rn_limits r) (ts_processes st)"
    and "\<And>w m m'. runner_table (rn_limits r) m \<Longrightarrow> m' \<in> set (host_managers h w m) \<Longrightarrow>
           runner_table (rn_limits r) m'"
  shows "case request of
      ReplaceText path old_text new_text \<Rightarrow> \<exists>changed. result = FilesChanged [changed]
    | _ \<Rightarrow> result_within (rn_limits r) result"
proof -
  have blocking: "result_within (rn_limits r) res"
    if "execute_blocking h r st1 req g = (st2, Inr res)" for st1 st2 req res
    using that list_files_within search_code_within read_file_within git_output_within git_diff_within
    by (fastforce simp: execute_blocking_def split: sum.splits tool_request.splits)
  have patch: "result_within (rn_limits r) res"
    if patch: "apply_patch_authorized h r st1 p g = (st2, Inr res)" for st1 st2 p res
  proof -
    from patch obtain paths st3 where "preflight_patch h r (suspend h st1) p g = (st3, Inr paths)"
      "res = FilesChanged paths"
      by (auto simp: apply_patch_authorized_def Let_def split: if_splits sum.splits prod.splits)
    moreover from this(1) obtain st4 where "patch_paths h r (suspend h st1) p = (st4, Inr paths)"
      by (auto simp: preflight_patch_def split: sum.splits prod.splits)
    ultimately show ?thesis using patch_paths_Inr(4,5) by (fastforce simp: result_within_def)
  qed
  have replace: "\<exists>changed. res = FilesChanged [changed]"
    if "replace_text_authorized h r st1 p old new g = (st2, Inr res)" for st1 st2 p old new res
    using that by (auto simp: replace_text_authorized_def Let_def
        split: if_splits sum.splits prod.splits option.splits workspace_error.splits bool.splits)
  have start: "result_within (rn_limits r) res"
    if "start_command h r st1 c d t g = (st2, Inr res)" for st1 st2 c d t res
    using that by (auto simp: start_command_def Let_def result_within_def split: sum.splits prod.splits)
  have stop: "result_within (rn_limits r) res"
    if stopped: "stop_command h st pid n = (st2, Some (Inr res))" for st2 pid n res
  proof -
    obtain m x where m: "stop_send (ts_processes st) pid = Inr m"
      "wait_until_terminal (m # host_managers h (ts_world st) m) pid n = Some x" "poll_result pid x = Inr res"
      using stopped by (auto simp: stop_command_def Let_def simp del: wait_until_terminal.simps split: sum.splits)
    have "runner_table (rn_limits r) m" by (rule runner_table_stop [OF assms(2) m(1)])
    with assms(3) have "\<forall>m' \<in> set (m # host_managers h (ts_world st) m). runner_table (rn_limits r) m'" by auto
    with wait_until_terminal_sound [OF m(2)] m(3) poll_within show ?thesis by blast
  qed
  show ?thesis
    using assms(1) blocking patch replace start stop poll_within [OF assms(2)]
    by (auto simp: execute_authorized_def poll_command_def apsnd_def map_prod_def
        split: sum.splits tool_request.splits prod.splits)
qed

theorem tool_results_bounded_witness:
  "\<exists>limits output'. execute_authorized demo_host (demo_runner\<lparr>rn_limits := limits\<rparr>)
       (demo_state\<lparr>ts_processes := manager demo_running\<rparr>) (PollCommand 7 0) unmanaged =
     (demo_state\<lparr>ts_processes := manager demo_running\<rparr>, Some (Inr (CommandPoll 7 Running output' 1 1 False))) \<and>
   content_bytes output' \<le> 10 \<and> length output' \<le> 2"
proof -
  let ?limits = "standalone\<lparr>max_output_bytes := 10, max_retained_processes := 1, max_process_output_chunks := 2\<rparr>"
  let ?r = "demo_runner\<lparr>rn_limits := ?limits\<rparr>" and ?st = "demo_state\<lparr>ts_processes := manager demo_running\<rparr>"
  have "entry_of demo_running 7 = Some new_entry" by (simp add: demo_running_def lookup_update)
  then have e: "execute_authorized demo_host ?r ?st (PollCommand 7 0) unmanaged =
      (?st, Some (Inr (CommandPoll 7 Running [] 1 1 False)))"
    by (simp add: execute_authorized_def poll_command_def poll_def poll_result_def poll_state_def new_entry_def
        new_process_state_def output_buffer_default_def saturating_add_u64_def)
  have t: "runner_table (rn_limits ?r) (ts_processes ?st)"
    unfolding runner_table_def using demo_running_reachable by auto
  have "result_within (rn_limits ?r) (CommandPoll 7 Running [] 1 1 False)"
    using tool_results_bounded [OF e t] by (simp add: demo_host_def)
  with e show ?thesis by (intro exI [of _ ?limits] exI [of _ "[]"]) (simp add: result_within_def)
qed

text \<open>C16.  Nothing is applied without authority: in any execution of a tool, every \<^verbatim>\<open>git apply\<close>
  that may change the worktree is started in a world where the guard is valid, and applies
  the patch of the request; all other Git calls inspect only.  A text replacement whose
  guard has become invalid by the time its turn comes does not touch the directory.\<close>

theorem mutations_need_authority:
  assumes "execute_authorized h r st request g = (st', result)"
  shows "extends (permitted h g request) st st' \<and>
    (\<forall>path old new. request = ReplaceText path old new \<longrightarrow>
       check_authority h (host_suspend h (ts_world st)) g \<noteq> Inr () \<longrightarrow>
       ts_world st' \<in> {ts_world st, host_suspend h (ts_world st)})"
proof
  show "extends (permitted h g request) st st'" by (rule execute_permitted [OF assms])
  show "\<forall>path old new. request = ReplaceText path old new \<longrightarrow>
       check_authority h (host_suspend h (ts_world st)) g \<noteq> Inr () \<longrightarrow>
       ts_world st' \<in> {ts_world st, host_suspend h (ts_world st)}"
    using assms
    by (auto simp: execute_authorized_def replace_text_authorized_def Let_def suspend_def apsnd_def map_prod_def
        split: sum.splits if_splits option.splits)
qed

theorem mutations_need_authority_witness:
  "extends (permitted demo_host unmanaged (ApplyPatch ''p'')) demo_state demo_patched"
proof -
  have "execute_authorized demo_host demo_runner demo_state (ApplyPatch ''p'') unmanaged =
      (demo_patched, Some (Inr (FilesChanged [''f''])))"
    by (simp add: execute_authorized_def demo_apply)
  from mutations_need_authority [OF this] show ?thesis by blast
qed

text \<open>C25.  A patch that is reported as applied was applied once, with every path it touches
  confined: its reported paths are sorted, distinct and not empty, \<open>resolve_new\<close> accepted each of
  them before the patch was checked, and the Git calls were the listing, the check and the
  application of that same patch, in this order, the last under valid authority.\<close>

theorem applied_patch_confined:
  assumes "apply_patch_authorized h r st patch g = (st', Inr result)"
  shows "\<exists>paths w0 w1 w2. result = FilesChanged paths \<and> sorted paths \<and> distinct paths \<and> paths \<noteq> [] \<and>
    (\<forall>p \<in> set paths. \<exists>c. resolve_new (host_fs h w1) (host_cwd h) (ws_at r w1) p = Inr c) \<and>
    ts_git st' = ts_git st @
      [(w0, GitCall (git_prefix @ [''apply'', ''--numstat'', ''-z'']) (Some patch)),
       (w1, GitCall (git_prefix @ [''apply'', ''--check'']) (Some patch)), (w2, GitApply patch)] \<and>
    check_authority h w2 g = Inr ()"
proof -
  from assms obtain paths st3 applied where
    pre: "preflight_patch h r (suspend h st) patch g = (st3, Inr paths)" and
    app: "git_apply_authorized h r (suspend h st3) patch g = (st', Inr applied)" and
    res: "result = FilesChanged paths"
    by (auto simp: apply_patch_authorized_def Let_def split: if_splits sum.splits prod.splits)
  from pre obtain st4 check where pp: "patch_paths h r (suspend h st) patch = (st4, Inr paths)"
    and ch: "git_with_input h r st4 [''apply'', ''--check''] patch = (st3, Inr check)"
    by (auto simp: preflight_patch_def split: sum.splits prod.splits)
  note p = patch_paths_Inr [OF pp]
  have "ts_git st3 = ts_git st4 @ [(ts_world st4, GitCall (git_prefix @ [''apply'', ''--check'']) (Some patch))]"
    using ch by (auto simp: git_with_input_def git_with_limit_def split: prod.splits)
  moreover have "ts_git st' = ts_git st3 @ [(ts_world (suspend h st3), GitApply patch)] \<and>
      check_authority h (ts_world (suspend h st3)) g = Inr ()"
    using app by (auto simp: git_apply_authorized_def Let_def suspend_def split: sum.splits prod.splits)
  ultimately show ?thesis
    using p res by (intro exI [of _ paths] exI [of _ "ts_world (suspend h st)"] exI [of _ "ts_world st4"]
        exI [of _ "ts_world (suspend h st3)"]) (simp add: suspend_def)
qed

theorem applied_patch_confined_witness:
  "\<exists>w2. (w2, GitApply ''p'') \<in> set (ts_git demo_patched) \<and> check_authority demo_host w2 unmanaged = Inr ()"
  using applied_patch_confined [OF demo_apply [of unmanaged]] by auto

text \<open>C35.  Paging returns the whole file: a client that starts at \<open>offset\<close> and follows
  \<open>next_offset\<close> with a positive line limit whose pages fit the output limit reaches the end, and the pages joined by line feeds are
  the lines from \<open>offset\<close> on, each exactly once and in order.\<close>

theorem paging_returns_everything:
  assumes "read_to_string_bounded (host_dir h) (ws_at r w) path (max_file_input_bytes (rn_limits r)) = Inr str"
    and "\<forall>k. length (str_join [NL] (take limit (drop k (str_lines str)))) \<le> max_output_bytes (rn_limits r)"
    and "0 < limit" "length (str_lines str) + limit \<le> usize_max" "offset \<le> length (str_lines str)"
  shows "\<exists>pages. read_pages (Suc (length (str_lines str))) h r w path offset limit = Some pages \<and>
    str_join [NL] pages = str_join [NL] (drop offset (str_lines str))"
proof -
  have "length (str_lines str) - offset < Suc (length (str_lines str))" by linarith
  from read_pages_join [OF assms this] show ?thesis by blast
qed

theorem paging_returns_everything_witness:
  "\<exists>pages. read_pages 2 demo_host demo_runner demo_files ''f'' 0 1 = Some pages \<and>
     str_join [NL] pages = ''a=1''"
proof -
  have f: "\<forall>k. length (str_join [NL] (take 1 (drop k (str_lines ''a=1'')))) \<le> max_output_bytes (rn_limits demo_runner)"
  proof
    fix k show "length (str_join [NL] (take 1 (drop k (str_lines ''a=1'')))) \<le> max_output_bytes (rn_limits demo_runner)"
      by (cases k) (simp_all add: demo_lines demo_runner_def standalone_def)
  qed
  have r: "read_to_string_bounded (host_dir demo_host) (ws_at demo_runner demo_files) ''f''
      (max_file_input_bytes (rn_limits demo_runner)) = Inr ''a=1''"
    using demo_read by simp
  have u: "length (str_lines ''a=1'') + 1 \<le> usize_max" by (simp add: demo_lines usize_max_def)
  from paging_returns_everything [OF r f _ u, of 0] show ?thesis
    by (simp add: demo_lines numeral_2_eq_2 del: read_pages.simps)
qed

text \<open>An untruncated search is complete: over the files listed for a path, the matches
  are exactly the lines that contain the query, with their one-based numbers, in the order of
  the files and of the lines.\<close>

theorem search_complete:
  assumes "search_files h r w query paths s = Inr s'" "\<not> sr_truncated s'" "\<not> sr_stop s"
  shows "sr_matches s' = sr_matches s @ concat (map (file_matches h r w query) paths)"
  using search_files_complete [OF assms] .

definition demo_search :: search_state where
  "demo_search = \<lparr>sr_matches = [], sr_bytes = 0, sr_truncated = False, sr_stop = False\<rparr>"

definition demo_found :: search_state where
  "demo_found = \<lparr>sr_matches = [\<lparr>match_path = ''f'', match_line = 1, match_content = ''a=1''\<rparr>], sr_bytes = 4,
    sr_truncated = False, sr_stop = False\<rparr>"

lemma demo_search_lines:
  "search_lines (rn_limits demo_runner) ''='' ''f'' 0 [''a=1''] demo_search = demo_found"
  by (simp add: search_line_def demo_contains demo_search_def demo_found_def)
     (simp add: demo_runner_def standalone_def tool_truncate_utf8_def)

theorem search_complete_witness:
  "\<exists>s'. search_files demo_host demo_runner demo_files ''='' [''f''] demo_search = Inr s' \<and>
     sr_matches s' = [\<lparr>match_path = ''f'', match_line = 1, match_content = ''a=1''\<rparr>]"
proof -
  have s: "search_files demo_host demo_runner demo_files ''='' [''f''] demo_search = Inr demo_found"
    by (simp add: demo_is_file demo_read demo_lines demo_search_lines del: search_lines.simps)
  from search_complete [OF s] have "sr_matches demo_found = file_matches demo_host demo_runner demo_files ''='' ''f''"
    by (simp add: demo_search_def demo_found_def)
  with s show ?thesis by (auto simp: demo_found_def)
qed

text \<open>C40.  A comment in \<open>search_code\<close> promises a best-effort search in which unreadable files do
  not prevent matches from other files.  A listed path whose metadata cannot be read (a file
  that is in the index but deleted from the worktree, or a name that Git prints quoted) makes
  the whole search fail with that error, whatever has been found and whatever is still to be
  searched, if the search comes to it, that is unless the limits have stopped it at an
  earlier path.\<close>

theorem search_fails_on_missing_file:
  assumes "(if paths = [] then [[]] else paths) = searched @ root # roots"
    and "search_roots h r st query searched
           \<lparr>sr_matches = [], sr_bytes = 0, sr_truncated = False, sr_stop = False\<rparr> = (st1, Inr s1)"
    and "\<not> sr_stop s1" "list_paths h r st1 root = (st2, Inr (before @ path # after, trunc))"
    and "search_files h r (ts_world st2) query before (s1\<lparr>sr_truncated := sr_truncated s1 \<or> trunc\<rparr>) = Inr s2"
    and "\<not> sr_stop s2" "is_file (host_dir h) (ws_at r (ts_world st2)) path = Inl e"
  shows "search_code h r st query paths = (st2, Inl (WorkspaceFailed e))"
  unfolding search_code_def assms(1) search_roots_continue [OF assms(2,3)]
  using search_files_continue [OF assms(5,6), of "path # after"] assms(4,7) by simp

text \<open>A repository whose index still has a deleted file: the match in the other file is not reported.\<close>

definition stale_listing :: bytes where
  "stale_listing = ''deleted'' @ [NL] @ ''f'' @ [NL]"

definition stale_host :: "demo_dir tool_host" where
  "stale_host = demo_host\<lparr>host_git := (\<lambda>w args input.
     (w, Inr \<lparr>run_input_error = None, run_wait = Inr (Some 0),
              run_stdout = [Inr stale_listing], run_stderr = []\<rparr>))\<rparr>"

theorem search_fails_on_missing_file_witness:
  "\<exists>st2. search_code stale_host demo_runner demo_state ''='' [] =
     (st2, Inl (WorkspaceFailed (WorkspaceIo ''/w/deleted'' ENOENT))) \<and>
   file_matches stale_host demo_runner (ts_world st2) ''='' ''f'' \<noteq> []"
proof -
  let ?st = "demo_state\<lparr>ts_git := ts_git demo_state @ [(demo_files, GitCall (git_prefix @
     [''ls-files'', ''--cached'', ''--others'', ''--exclude-standard'', ''--'', ''.'']) None)]\<rparr>"
  have l: "list_paths stale_host demo_runner demo_state [] = (?st, Inr ([] @ ''deleted'' # [''f''], False))"
  proof -
    have "resolve demo_fs [] demo_workspace [] = Inr ''/w''" by code_simp
    then have "resolve demo_fs [] (ws_at demo_runner demo_files) [] = Inr ''/w''"
      unfolding resolve_def ws_at_def demo_workspace_def demo_runner_def workspace.simps runner.simps .
    moreover have "path_strip_prefix ''/w'' ''/w'' = Some []" by code_simp
    ultimately have "confined_relative stale_host demo_runner demo_files [] = Inr ''.''"
      by (simp add: confined_relative_def stale_host_def relative_path_def demo_runner_def)
    moreover have "ts_world demo_state = demo_files" by (simp add: demo_state_def)
    moreover have "git stale_host demo_runner demo_state args =
        (demo_state\<lparr>ts_git := ts_git demo_state @ [(demo_files, GitCall (git_prefix @ args) None)]\<rparr>,
         Inr \<lparr>co_status = Some 0, co_stdout = stale_listing, co_stderr = [], co_stdout_truncated = False,
              co_stderr_truncated = False, co_limit = max_output_bytes standalone\<rparr>)" for args
      by (simp add: git_def git_with_limit_def stale_host_def run_command_def read_bounded_def read_consume_def
          Let_def demo_runner_def standalone_def demo_state_def stale_listing_def status_success_def)
    moreover have "lossy_bounded stale_listing (max_output_bytes standalone) = (stale_listing, False)"
    proof -
      have "from_utf8_lossy stale_listing = stale_listing" by code_simp
      then show ?thesis by (simp add: lossy_bounded_def tool_truncate_utf8_def stale_listing_def standalone_def)
    qed
    moreover have "bounded_paths standalone stale_listing False = ([''deleted'', ''f''], False)"
    proof -
      have "sort (str_lines stale_listing) = [''deleted'', ''f'']" by code_simp
      then show ?thesis by (simp add: bounded_paths_def standalone_def)
    qed
    ultimately show ?thesis
      by (simp add: list_paths_def git_text_def successful_stdout_def status_success_def demo_runner_def)
  qed
  have w: "ts_world ?st = demo_files" by (simp add: demo_state_def)
  have i: "is_file (host_dir stale_host) (ws_at demo_runner (ts_world ?st)) ''deleted'' =
      Inl (WorkspaceIo ''/w/deleted'' ENOENT)"
    unfolding w using demo_is_file(2) by (simp add: stale_host_def)
  from search_fails_on_missing_file [OF _ _ _ l _ _ i, of "[]" "[]" "[]" demo_state "''=''"]
  have "search_code stale_host demo_runner demo_state ''='' [] =
      (?st, Inl (WorkspaceFailed (WorkspaceIo ''/w/deleted'' ENOENT)))" by simp
  moreover have "file_matches stale_host demo_runner demo_files ''='' ''f'' \<noteq> []"
    by (simp add: file_matches_def file_lines_def stale_host_def demo_is_file demo_read demo_lines demo_contains line_matches_def)
  ultimately show ?thesis using w by auto
qed

end
