(* ===== verification/Tool_Scheduler.thy ===== *)
theory Tool_Scheduler
  imports Runner
begin

text \<open>
  Tool calls side by side, \<^verbatim>\<open>src/crates/kodo/src/runner.rs\<close>: the semaphore \<open>blocking_tools\<close>, the
  \<open>mutation_lock\<close>, and the calls that wait for them.  \<^verbatim>\<open>Runner\<close> describes one call from beginning to
  end; here every call is a task whose phases lie between the suspension points of its
  \<open>async fn\<close>, and the tasks interleave with each other and with the rest of the world.

  Tokio hands permits and the lock to the waiters in the order in which they asked; here any waiter
  may be next, so what is shown holds for its order too.  A tool that only reads is one step once
  it runs, and so are the start and the poll of a command.  A stop sends its request in one step and
  then waits: each of its polls looks at the process table as it then is, and those that find the
  command running are no moves.

  A replacement has its last check of the authority and its read, write, \<^verbatim>\<open>fsync\<close> and rename in
  two steps, for a lease may change in between; the second of them is atomic here.  The last check
  before \<^verbatim>\<open>git apply\<close> and the spawn of the process are one step: the code does nothing but build
  the command in between, without a suspension.
\<close>

section \<open>Tasks\<close>

datatype 'w tool_phase =
    Submitted
  | WaitPermit string
  | WaitLock string
  | Reading
  | Preflight
  | Checking "string list"
  | Checked "string list"
  | Applying "string list" "'w apply_run"
  | Replacing string
  | Writing string
  | Stopping uuid u64
  | ToolDone "runner_error + tool_result"

record 'w tool_task =
  tt_request :: tool_request
  tt_guard :: authority_guard
  tt_phase :: "'w tool_phase"

text \<open>
  What a task does to the worktree, and the checks that precede it: a successful \<^verbatim>\<open>git apply --check\<close>,
  the start and the end of \<^verbatim>\<open>git apply\<close>, the moment the last check of a replacement passes, and the
  moment its file is written.
\<close>

datatype tool_event = PatchChecked | ApplyStarted | ApplyEnded | ReplaceStarted | TextReplaced

record 'w tool_system =
  sys_tools :: "'w tool_state"
  sys_tasks :: "'w tool_task list"
  sys_permits :: nat
  sys_lock :: "nat option"
  sys_history :: "(nat \<times> tool_event) list"

text \<open>The mutation lock is held from its acquisition to the end of the call, the permit from the
  wait for the lock on.\<close>

fun holds_lock :: "'w tool_phase \<Rightarrow> bool" where
  "holds_lock Preflight = True"
| "holds_lock (Checking _) = True"
| "holds_lock (Checked _) = True"
| "holds_lock (Applying _ _) = True"
| "holds_lock (Replacing _) = True"
| "holds_lock (Writing _) = True"
| "holds_lock _ = False"

fun holds_permit :: "'w tool_phase \<Rightarrow> bool" where
  "holds_permit (WaitLock _) = True"
| "holds_permit Reading = True"
| "holds_permit ph = holds_lock ph"

section \<open>The parts of a call\<close>

text \<open>From the call of \<open>execute_authorized\<close> to its first suspension.\<close>

definition begin_patch :: "runner \<Rightarrow> string \<Rightarrow> 'w tool_phase" where
  "begin_patch r patch =
     (if length patch > max_patch_input_bytes (rn_limits r) then
        ToolDone (Inl (Patch (''patch exceeds '' @ show_nat (max_patch_input_bytes (rn_limits r)) @
          '' byte limit'')))
      else WaitPermit [])"

definition begin_replace ::
  "'w tool_host \<Rightarrow> runner \<Rightarrow> 'w \<Rightarrow> string \<Rightarrow> string \<Rightarrow> string \<Rightarrow> 'w tool_phase" where
  "begin_replace h r w path old_text new_text =
     (if old_text = [] then ToolDone (Inl (Replace ''old_text cannot be empty''))
      else case Option.bind (checked_add (length path) (length old_text))
                  (\<lambda>size'. checked_add size' (length new_text)) of
        None \<Rightarrow> ToolDone (Inl (Replace ''input size overflow''))
      | Some input_bytes \<Rightarrow>
          if input_bytes > max_patch_input_bytes (rn_limits r) then
            ToolDone (Inl (Replace (''replacement exceeds '' @
              show_nat (max_patch_input_bytes (rn_limits r)) @ '' byte limit'')))
          else
            (case confined_relative h r w path of
               Inl e \<Rightarrow> ToolDone (Inl e)
             | Inr relative \<Rightarrow> WaitPermit relative))"

text \<open>\<open>stop\<close> up to its waiting loop.\<close>

definition begin_stop :: "'w tool_state \<Rightarrow> uuid \<Rightarrow> u64 \<Rightarrow> 'w tool_state \<times> 'w tool_phase" where
  "begin_stop st process_id after_sequence =
     (case stop_send (ts_processes st) process_id of
        Inl e \<Rightarrow> (st, ToolDone (Inl (ProcessFailed e)))
      | Inr m \<Rightarrow> (st\<lparr>ts_processes := m\<rparr>, Stopping process_id after_sequence))"

definition begin_tool ::
  "'w tool_host \<Rightarrow> runner \<Rightarrow> 'w tool_state \<Rightarrow> tool_request \<Rightarrow> authority_guard \<Rightarrow>
   'w tool_state \<times> 'w tool_phase" where
  "begin_tool h r st request authority =
     (case check_authority h (ts_world st) authority of
        Inl e \<Rightarrow> (st, ToolDone (Inl e))
      | Inr _ \<Rightarrow>
          (case request of
             ApplyPatch patch \<Rightarrow> (st, begin_patch r patch)
           | ReplaceText path old_text new_text \<Rightarrow>
               (st, begin_replace h r (ts_world st) path old_text new_text)
           | StartCommand command cwd timeout_ms \<Rightarrow>
               apsnd ToolDone (start_command h r st command cwd timeout_ms authority)
           | PollCommand process_id after_sequence \<Rightarrow> apsnd ToolDone (poll_command st process_id after_sequence)
           | StopCommand process_id after_sequence \<Rightarrow> begin_stop st process_id after_sequence
           | _ \<Rightarrow> (st, WaitPermit [])))"

text \<open>After a permit: mutations wait for the lock, the other tools run.\<close>

fun after_permit :: "tool_request \<Rightarrow> string \<Rightarrow> 'w tool_phase" where
  "after_permit (ApplyPatch _) p = WaitLock p"
| "after_permit (ReplaceText _ _ _) p = WaitLock p"
| "after_permit _ p = Reading"

fun after_lock :: "tool_request \<Rightarrow> string \<Rightarrow> 'w tool_phase" where
  "after_lock (ApplyPatch _) p = Preflight"
| "after_lock _ p = Replacing p"

text \<open>\<open>preflight_patch\<close> in two parts, at its calls of Git.\<close>

definition preflight_step ::
  "'w tool_host \<Rightarrow> runner \<Rightarrow> 'w tool_state \<Rightarrow> string \<Rightarrow> authority_guard \<Rightarrow> 'w tool_state \<times> 'w tool_phase" where
  "preflight_step h r st patch authority =
     (case check_authority h (ts_world st) authority of
        Inl e \<Rightarrow> (st, ToolDone (Inl e))
      | Inr _ \<Rightarrow>
          (case patch_paths h r st patch of
             (st, Inl e) \<Rightarrow> (st, ToolDone (Inl e))
           | (st, Inr paths) \<Rightarrow> (st, Checking paths)))"

definition check_step ::
  "'w tool_host \<Rightarrow> runner \<Rightarrow> 'w tool_state \<Rightarrow> string \<Rightarrow> authority_guard \<Rightarrow> string list \<Rightarrow>
   'w tool_state \<times> 'w tool_phase" where
  "check_step h r st patch authority paths =
     (case git_with_input h r st [''apply'', ''--check''] patch of
        (st, Inl e) \<Rightarrow> (st, ToolDone (Inl e))
      | (st, Inr check) \<Rightarrow>
          (case successful_patch check of
             Inl e \<Rightarrow> (st, ToolDone (Inl e))
           | Inr _ \<Rightarrow>
               (case check_authority h (ts_world st) authority of
                  Inl e \<Rightarrow> (st, ToolDone (Inl e))
                | Inr _ \<Rightarrow> (st, Checked paths))))"

text \<open>\<open>git_apply_authorized\<close> up to its \<open>select!\<close>, and the rest.\<close>

definition apply_spawn ::
  "'w tool_host \<Rightarrow> 'w tool_state \<Rightarrow> string \<Rightarrow> authority_guard \<Rightarrow> string list \<Rightarrow> 'w tool_state \<times> 'w tool_phase" where
  "apply_spawn h st patch authority paths =
     (case check_authority h (ts_world st) authority of
        Inl e \<Rightarrow> (st, ToolDone (Inl e))
      | Inr _ \<Rightarrow>
          (let (w, spawned) = host_apply h (ts_world st) patch;
               st' = st\<lparr>ts_world := w, ts_git := ts_git st @ [(ts_world st, GitApply patch)]\<rparr>
           in case spawned of
                Inl e \<Rightarrow> (st', ToolDone (Inl (GitIo e)))
              | Inr run \<Rightarrow> (st', Applying paths run)))"

definition apply_finish ::
  "'w tool_host \<Rightarrow> runner \<Rightarrow> 'w tool_state \<Rightarrow> authority_guard \<Rightarrow> string list \<Rightarrow> 'w apply_run \<Rightarrow>
   'w tool_state \<times> 'w tool_phase" where
  "apply_finish h r st authority paths run =
     (let (acts, res) = apply_outcome h (max_output_bytes (rn_limits r)) authority run
      in (st\<lparr>ts_actions := ts_actions st @ acts\<rparr>,
          ToolDone (case res of
            Inl e \<Rightarrow> Inl e
          | Inr applied \<Rightarrow>
              (case successful_patch applied of Inl e \<Rightarrow> Inl e | Inr _ \<Rightarrow> Inr (FilesChanged paths)))))"

text \<open>The blocking closure of \<open>replace_text_authorized\<close>: its check of the authority, and the rest,
  which checks no more.\<close>

definition replace_check :: "'w tool_host \<Rightarrow> 'w tool_state \<Rightarrow> string \<Rightarrow> authority_guard \<Rightarrow> 'w tool_phase" where
  "replace_check h st relative authority =
     (case check_authority h (ts_world st) authority of Inl e \<Rightarrow> ToolDone (Inl e) | Inr _ \<Rightarrow> Writing relative)"

definition replace_write ::
  "'w tool_host \<Rightarrow> runner \<Rightarrow> 'w tool_state \<Rightarrow> string \<Rightarrow> string \<Rightarrow> string \<Rightarrow> 'w tool_state \<times> 'w tool_phase" where
  "replace_write h r st relative old_text new_text =
     (let (w, changed) = replace_text_if_unique (host_dir h) (ws_at r (ts_world st))
            (host_token h (ts_world st)) relative old_text new_text (max_file_input_bytes (rn_limits r))
      in (st\<lparr>ts_world := w\<rparr>,
          ToolDone (case changed of
            Inl (WorkspacePanic m) \<Rightarrow> Inl (Task m)
          | Inl e \<Rightarrow> Inl (WorkspaceFailed e)
          | Inr False \<Rightarrow> Inl (Replace ''old_text must match exactly once'')
          | Inr True \<Rightarrow> Inr (FilesChanged [relative]))))"

text \<open>
  The next part of a task that does not wait: its effect, its next phase and what goes into the
  history.  A successful check, a started and an ended run of \<^verbatim>\<open>git apply\<close>, the check a
  replacement passes and every call of \<open>replace_text_if_unique\<close> are recorded.
\<close>

definition tool_work ::
  "'w tool_host \<Rightarrow> runner \<Rightarrow> 'w tool_state \<Rightarrow> 'w tool_task \<Rightarrow>
   ('w tool_state \<times> 'w tool_phase) \<times> tool_event list" where
  "tool_work h r st t =
     (case (tt_phase t, tt_request t) of
        (Submitted, request) \<Rightarrow> (begin_tool h r st request (tt_guard t), [])
      | (Reading, request) \<Rightarrow>
          (apsnd ToolDone (execute_blocking h r st request (tt_guard t)), [])
      | (Preflight, ApplyPatch patch) \<Rightarrow> (preflight_step h r st patch (tt_guard t), [])
      | (Checking paths, ApplyPatch patch) \<Rightarrow>
          (let next' = check_step h r st patch (tt_guard t) paths
           in (next', if snd next' = Checked paths then [PatchChecked] else []))
      | (Checked paths, ApplyPatch patch) \<Rightarrow>
          (let next' = apply_spawn h st patch (tt_guard t) paths
           in (next', case snd next' of Applying _ _ \<Rightarrow> [ApplyStarted] | _ \<Rightarrow> []))
      | (Applying paths run, _) \<Rightarrow> (apply_finish h r st (tt_guard t) paths run, [ApplyEnded])
      | (Replacing relative, ReplaceText path old_text new_text) \<Rightarrow>
          (let next' = replace_check h st relative (tt_guard t)
           in ((st, next'), if next' = Writing relative then [ReplaceStarted] else []))
      | (Writing relative, ReplaceText path old_text new_text) \<Rightarrow>
          (replace_write h r st relative old_text new_text, [TextReplaced])
      | (ph, _) \<Rightarrow> ((st, ph), []))"

section \<open>The system\<close>

definition set_phase :: "nat \<Rightarrow> 'w tool_phase \<Rightarrow> 'w tool_system \<Rightarrow> 'w tool_system" where
  "set_phase i ph sys = sys\<lparr>sys_tasks := (sys_tasks sys)[i := (sys_tasks sys ! i)\<lparr>tt_phase := ph\<rparr>]\<rparr>"

text \<open>Leaving a call drops the guards: the lock, if the task holds it, and the permit.\<close>

definition release :: "'w tool_phase \<Rightarrow> 'w tool_phase \<Rightarrow> 'w tool_system \<Rightarrow> 'w tool_system" where
  "release old new sys =
     sys\<lparr>sys_lock := (if holds_lock old \<and> \<not> holds_lock new then None else sys_lock sys),
        sys_permits := (if holds_permit old \<and> \<not> holds_permit new then Suc (sys_permits sys) else sys_permits sys)\<rparr>"

definition work :: "'w tool_host \<Rightarrow> runner \<Rightarrow> nat \<Rightarrow> 'w tool_system \<Rightarrow> 'w tool_system" where
  "work h r i sys =
     (let t = sys_tasks sys ! i; ((st, ph), evs) = tool_work h r (sys_tools sys) t
      in release (tt_phase t) ph (set_phase i ph (sys\<lparr>sys_tools := st,
           sys_history := sys_history sys @ map (Pair i) evs\<rparr>)))"

definition runnable :: "'w tool_phase \<Rightarrow> bool" where
  "runnable ph \<longleftrightarrow> (case ph of WaitPermit _ \<Rightarrow> False | WaitLock _ \<Rightarrow> False | Stopping _ _ \<Rightarrow> False | ToolDone _ \<Rightarrow> False
     | _ \<Rightarrow> True)"

text \<open>A stop still waits while a poll finds its command running.\<close>

definition still_running :: "process_error + process_poll \<Rightarrow> bool" where
  "still_running polled \<longleftrightarrow> (case polled of Inl _ \<Rightarrow> False | Inr p \<Rightarrow> poll_status p = Running)"

definition init_tools :: "runner \<Rightarrow> 'w tool_state \<Rightarrow> 'w tool_system" where
  "init_tools r st =
     \<lparr>sys_tools = st, sys_tasks = [], sys_permits = max_blocking_tools (rn_limits r), sys_lock = None,
      sys_history = []\<rparr>"

inductive task_moves :: "'w tool_host \<Rightarrow> runner \<Rightarrow> 'w tool_system \<Rightarrow> 'w tool_system \<Rightarrow> bool" for h r where
  move_permit: "i < length (sys_tasks sys) \<Longrightarrow> tt_phase (sys_tasks sys ! i) = WaitPermit p \<Longrightarrow> 0 < sys_permits sys \<Longrightarrow>
    task_moves h r sys (set_phase i (after_permit (tt_request (sys_tasks sys ! i)) p)
      (sys\<lparr>sys_permits := sys_permits sys - 1\<rparr>))"
| move_lock: "i < length (sys_tasks sys) \<Longrightarrow> tt_phase (sys_tasks sys ! i) = WaitLock p \<Longrightarrow> sys_lock sys = None \<Longrightarrow>
    task_moves h r sys (set_phase i (after_lock (tt_request (sys_tasks sys ! i)) p) (sys\<lparr>sys_lock := Some i\<rparr>))"
| move_work: "i < length (sys_tasks sys) \<Longrightarrow> runnable (tt_phase (sys_tasks sys ! i)) \<Longrightarrow>
    task_moves h r sys (work h r i sys)"
| move_stop: "i < length (sys_tasks sys) \<Longrightarrow> tt_phase (sys_tasks sys ! i) = Stopping process_id after_sequence \<Longrightarrow>
    poll (ts_processes (sys_tools sys)) process_id after_sequence = polled \<Longrightarrow> \<not> still_running polled \<Longrightarrow>
    task_moves h r sys (set_phase i (ToolDone (poll_result process_id polled)) sys)"

text \<open>New calls arrive, and the rest of the world does as it likes.\<close>

inductive tool_step :: "'w tool_host \<Rightarrow> runner \<Rightarrow> 'w tool_system \<Rightarrow> 'w tool_system \<Rightarrow> bool" for h r where
  tool_moves: "task_moves h r sys sys' \<Longrightarrow> tool_step h r sys sys'"
| tool_submit: "tool_step h r sys (sys\<lparr>sys_tasks := sys_tasks sys @
    [\<lparr>tt_request = request, tt_guard = g, tt_phase = Submitted\<rparr>]\<rparr>)"
| tool_world: "tool_step h r sys (sys\<lparr>sys_tools := (sys_tools sys)\<lparr>ts_world := w, ts_processes := m\<rparr>\<rparr>)"

inductive tool_run :: "'w tool_host \<Rightarrow> runner \<Rightarrow> 'w tool_system \<Rightarrow> 'w tool_system \<Rightarrow> bool" for h r where
  tool_refl: "tool_run h r sys sys"
| tool_next: "tool_run h r sys sys' \<Longrightarrow> tool_step h r sys' sys'' \<Longrightarrow> tool_run h r sys sys''"

definition tools_reachable :: "'w tool_host \<Rightarrow> runner \<Rightarrow> 'w tool_system \<Rightarrow> bool" where
  "tools_reachable h r sys \<longleftrightarrow> (\<exists>st. tool_run h r (init_tools r st) sys)"

section \<open>What a task can do next\<close>

fun mutation :: "tool_request \<Rightarrow> bool" where
  "mutation (ApplyPatch _) = True"
| "mutation (ReplaceText _ _ _) = True"
| "mutation _ = False"

text \<open>The phases of a call of a given tool.\<close>

fun fits :: "tool_request \<Rightarrow> 'w tool_phase \<Rightarrow> bool" where
  "fits request Reading = (\<not> mutation request)"
| "fits request (WaitLock _) = mutation request"
| "fits request (Replacing _) = (\<exists>path old new. request = ReplaceText path old new)"
| "fits request Preflight = (\<exists>patch. request = ApplyPatch patch)"
| "fits request (Checking _) = (\<exists>patch. request = ApplyPatch patch)"
| "fits request (Checked _) = (\<exists>patch. request = ApplyPatch patch)"
| "fits request (Applying _ _) = (\<exists>patch. request = ApplyPatch patch)"
| "fits request (Writing _) = (\<exists>path old new. request = ReplaceText path old new)"
| "fits request (Stopping process_id after) = (request = StopCommand process_id after)"
| "fits request _ = True"

text \<open>The edges between phases, with what they add to the history.\<close>

inductive edge :: "'w tool_phase \<Rightarrow> 'w tool_phase \<Rightarrow> tool_event list \<Rightarrow> bool" where
  "edge Submitted (ToolDone res) []"
| "edge Submitted (WaitPermit p) []"
| "edge (WaitPermit p) (WaitLock p) []"
| "edge (WaitPermit p) Reading []"
| "edge (WaitLock p) Preflight []"
| "edge (WaitLock p) (Replacing p) []"
| "edge Reading (ToolDone res) []"
| "edge Preflight (ToolDone res) []"
| "edge Preflight (Checking paths) []"
| "edge (Checking paths) (ToolDone res) []"
| "edge (Checking paths) (Checked paths) [PatchChecked]"
| "edge (Checked paths) (ToolDone res) []"
| "edge (Checked paths) (Applying paths run) [ApplyStarted]"
| "edge (Applying paths run) (ToolDone res) [ApplyEnded]"
| "edge (Replacing p) (ToolDone res) []"
| "edge (Replacing p) (Writing p) [ReplaceStarted]"
| "edge (Writing p) (ToolDone res) [TextReplaced]"
| "edge Submitted (Stopping process_id after) []"
| "edge (Stopping process_id after) (ToolDone res) []"

inductive_cases edgeE: "edge ph ph' evs"

lemma begin_tool_edge: "edge Submitted (snd (begin_tool h r st request g)) []"
  by (auto simp: begin_tool_def begin_patch_def begin_replace_def begin_stop_def intro: edge.intros
      split: sum.split tool_request.split option.split)

lemma tool_work_edge:
  assumes "runnable (tt_phase t)" "fits (tt_request t) (tt_phase t)" "tool_work h r st t = ((st', ph'), evs)"
  shows "edge (tt_phase t) ph' evs"
proof (cases "tt_phase t")
  case Submitted
  then show ?thesis using assms(3) begin_tool_edge [of h r st "tt_request t" "tt_guard t"]
    by (simp add: tool_work_def)
next
  case (Checking paths)
  then show ?thesis using assms(2,3)
    by (auto simp: tool_work_def check_step_def Let_def intro: edge.intros split: sum.splits prod.splits if_splits)
next
  case (Checked paths)
  then show ?thesis using assms(2,3)
    by (auto simp: tool_work_def apply_spawn_def Let_def intro: edge.intros split: sum.splits prod.splits)
qed (use assms in \<open>auto simp: tool_work_def runnable_def preflight_step_def apply_finish_def replace_check_def
      replace_write_def Let_def apsnd_def map_prod_def intro: edge.intros split: sum.splits prod.splits\<close>)

text \<open>Only a call whose guard is valid at that moment starts to change the worktree.\<close>

lemma tool_work_authorized:
  assumes "tool_work h r st t = ((st', ph'), evs)" "e \<in> set evs" "e \<in> {ApplyStarted, ReplaceStarted}"
  shows "check_authority h (ts_world st) (tt_guard t) = Inr ()"
proof (cases "tt_phase t")
  case (Checked paths)
  with assms show ?thesis
    by (cases "tt_request t") (auto simp: tool_work_def apply_spawn_def Let_def split: sum.splits prod.splits)
qed (use assms in \<open>cases "tt_request t"; auto simp: tool_work_def replace_check_def Let_def split: if_splits sum.splits\<close>)+

lemma after_permit_edge: "edge (WaitPermit p) (after_permit request p) []"
  by (cases request) (auto intro: edge.intros)

lemma after_lock_edge: "edge (WaitLock p) (after_lock request p) []"
  by (cases request) (auto intro: edge.intros)

text \<open>Only a stop waits for a command.\<close>

lemma begin_tool_fits: "fits request (snd (begin_tool h r st request g))"
  by (auto simp: begin_tool_def begin_patch_def begin_replace_def begin_stop_def
      split: sum.split tool_request.split option.split)

lemma tool_work_fits:
  assumes "runnable (tt_phase t)" "fits (tt_request t) (tt_phase t)" "tool_work h r st t = ((st', ph'), evs)"
  shows "fits (tt_request t) ph'"
proof (cases "tt_phase t = Submitted")
  case True
  with assms(3) show ?thesis using begin_tool_fits [of "tt_request t" h r st "tt_guard t"] by (simp add: tool_work_def)
next
  case False
  with tool_work_edge [OF assms] assms(1,2) show ?thesis
    by (cases rule: edge.cases) (auto simp: runnable_def elim: fits.elims)
qed

section \<open>The scheduler seen from outside\<close>

abbreviation task_phases :: "'w tool_system \<Rightarrow> 'w tool_phase list" where
  "task_phases sys \<equiv> map tt_phase (sys_tasks sys)"

abbreviation task_requests :: "'w tool_system \<Rightarrow> tool_request list" where
  "task_requests sys \<equiv> map tt_request (sys_tasks sys)"

lemma set_phase_simps [simp]:
  "sys_tools (set_phase i ph sys) = sys_tools sys" "sys_permits (set_phase i ph sys) = sys_permits sys"
  "sys_lock (set_phase i ph sys) = sys_lock sys" "sys_history (set_phase i ph sys) = sys_history sys"
  "task_phases (set_phase i ph sys) = (task_phases sys)[i := ph]"
  by (simp_all add: set_phase_def map_update)

lemma set_phase_requests [simp]: "task_requests (set_phase i ph sys) = task_requests sys"
  by (cases "i < length (sys_tasks sys)") (simp_all add: set_phase_def map_update list_update_same_conv list_update_beyond)

lemma release_simps [simp]:
  "sys_tools (release old new sys) = sys_tools sys" "sys_history (release old new sys) = sys_history sys"
  "sys_tasks (release old new sys) = sys_tasks sys"
  "sys_lock (release old new sys) = (if holds_lock old \<and> \<not> holds_lock new then None else sys_lock sys)"
  "sys_permits (release old new sys) =
     (if holds_permit old \<and> \<not> holds_permit new then Suc (sys_permits sys) else sys_permits sys)"
  by (simp_all add: release_def)

definition well_typed :: "'w tool_system \<Rightarrow> bool" where
  "well_typed sys \<longleftrightarrow> list_all2 fits (task_requests sys) (task_phases sys)"

text \<open>
  A move of the system is an edge of one task.  A task that begins to hold the lock or a
  permit takes it, one that ceases to hold it gives it back.
\<close>

definition moves_along ::
  "nat \<Rightarrow> 'w tool_phase \<Rightarrow> tool_event list \<Rightarrow> 'w tool_system \<Rightarrow> 'w tool_system \<Rightarrow> bool" where
  "moves_along i ph evs sys sys' \<longleftrightarrow>
     i < length (sys_tasks sys) \<and> edge (task_phases sys ! i) ph evs \<and>
     task_phases sys' = (task_phases sys)[i := ph] \<and> task_requests sys' = task_requests sys \<and>
     sys_history sys' = sys_history sys @ map (Pair i) evs \<and>
     (if holds_lock ph \<and> \<not> holds_lock (task_phases sys ! i) then sys_lock sys = None \<and> sys_lock sys' = Some i
      else if holds_lock (task_phases sys ! i) \<and> \<not> holds_lock ph then sys_lock sys' = None
      else sys_lock sys' = sys_lock sys) \<and>
     (if holds_permit ph \<and> \<not> holds_permit (task_phases sys ! i) then sys_permits sys = Suc (sys_permits sys')
      else if holds_permit (task_phases sys ! i) \<and> \<not> holds_permit ph then sys_permits sys' = Suc (sys_permits sys)
      else sys_permits sys' = sys_permits sys)"

lemma holds_after_permit [simp]:
  "holds_permit (after_permit request p)" "\<not> holds_lock (after_permit request p)"
  by (cases request; simp)+

lemma holds_after_lock [simp]:
  "holds_permit (after_lock request p)" "holds_lock (after_lock request p)"
  by (cases request; simp)+

lemma edge_runnable_holds:
  "edge ph ph' evs \<Longrightarrow> runnable ph \<Longrightarrow> (holds_lock ph' \<longrightarrow> holds_lock ph) \<and> (holds_permit ph' \<longrightarrow> holds_permit ph)"
  by (cases rule: edge.cases) (auto simp: runnable_def)

lemma task_moves_along:
  assumes "task_moves h r sys sys'" "well_typed sys"
  shows "\<exists>i ph evs. moves_along i ph evs sys sys'"
  using assms(1)
proof cases
  case (move_permit i p)
  then show ?thesis
    by (intro exI [of _ i] exI [of _ "after_permit (tt_request (sys_tasks sys ! i)) p"] exI [of _ "[]"])
       (simp add: moves_along_def after_permit_edge)
next
  case (move_lock i p)
  then show ?thesis
    by (intro exI [of _ i] exI [of _ "after_lock (tt_request (sys_tasks sys ! i)) p"] exI [of _ "[]"])
       (simp add: moves_along_def after_lock_edge)
next
  case (move_work i)
  obtain st ph evs where w: "tool_work h r (sys_tools sys) (sys_tasks sys ! i) = ((st, ph), evs)"
    by (metis prod.collapse)
  have "fits (tt_request (sys_tasks sys ! i)) (tt_phase (sys_tasks sys ! i))"
    using assms(2) move_work(2) by (simp add: well_typed_def list_all2_conv_all_nth)
  from tool_work_edge [OF move_work(3) this w] have e: "edge (tt_phase (sys_tasks sys ! i)) ph evs" .
  from edge_runnable_holds [OF this move_work(3)] show ?thesis
    using move_work e w
    by (intro exI [of _ i] exI [of _ ph] exI [of _ evs]) (auto simp: moves_along_def work_def)
next
  case (move_stop i process_id after_sequence polled)
  then show ?thesis
    by (intro exI [of _ i] exI [of _ "ToolDone (poll_result process_id polled)"] exI [of _ "[]"])
       (simp add: moves_along_def edge.intros)
qed

section \<open>The lock, the permits and the history\<close>

definition lock_ok :: "'w tool_system \<Rightarrow> bool" where
  "lock_ok sys \<longleftrightarrow>
     (\<forall>i < length (sys_tasks sys). holds_lock (task_phases sys ! i) \<longleftrightarrow> sys_lock sys = Some i) \<and>
     (\<forall>i. sys_lock sys = Some i \<longrightarrow> i < length (sys_tasks sys))"

definition permits_ok :: "runner \<Rightarrow> 'w tool_system \<Rightarrow> bool" where
  "permits_ok r sys \<longleftrightarrow>
     sys_permits sys + length (filter holds_permit (task_phases sys)) = max_blocking_tools (rn_limits r)"

text \<open>In the history a run of \<^verbatim>\<open>git apply\<close> directly follows its own check, its end directly
  follows its beginning, and the writing of a replacement directly follows its own last check.\<close>

definition follows_own :: "(nat \<times> tool_event) list \<Rightarrow> tool_event \<Rightarrow> tool_event \<Rightarrow> bool" where
  "follows_own H b a \<longleftrightarrow>
     (\<forall>k < length H. snd (H ! k) = b \<longrightarrow> 0 < k \<and> H ! (k - 1) = (fst (H ! k), a))"

fun phase_mark :: "'w tool_phase \<Rightarrow> tool_event option" where
  "phase_mark (Checked _) = Some PatchChecked"
| "phase_mark (Applying _ _) = Some ApplyStarted"
| "phase_mark (Writing _) = Some ReplaceStarted"
| "phase_mark _ = None"

fun may_have_started :: "'w tool_phase \<Rightarrow> bool" where
  "may_have_started (Applying _ _) = True"
| "may_have_started (ToolDone _) = True"
| "may_have_started _ = False"

definition changes_by :: "nat \<Rightarrow> (nat \<times> tool_event) list \<Rightarrow> nat" where
  "changes_by i H = length (filter (\<lambda>(j, e). j = i \<and> e \<in> {ApplyStarted, TextReplaced}) H)"

lemma changes_by_simps [simp]:
  "changes_by i [] = 0" "changes_by i (H @ H') = changes_by i H + changes_by i H'"
  "changes_by i ((j, e) # H) = (if j = i \<and> e \<in> {ApplyStarted, TextReplaced} then 1 else 0) + changes_by i H"
  by (simp_all add: changes_by_def)

definition history_ok :: "'w tool_system \<Rightarrow> bool" where
  "history_ok sys \<longleftrightarrow>
     follows_own (sys_history sys) ApplyStarted PatchChecked \<and> follows_own (sys_history sys) ApplyEnded ApplyStarted \<and>
     follows_own (sys_history sys) TextReplaced ReplaceStarted \<and>
     (\<forall>(i, e) \<in> set (sys_history sys). i < length (sys_tasks sys)) \<and>
     (\<forall>i < length (sys_tasks sys). \<forall>e. phase_mark (task_phases sys ! i) = Some e \<longrightarrow>
        sys_history sys \<noteq> [] \<and> last (sys_history sys) = (i, e)) \<and>
     (\<forall>i. changes_by i (sys_history sys) \<le>
        (if i < length (sys_tasks sys) \<and> may_have_started (task_phases sys ! i) then 1 else 0))"

lemma history_known:
  assumes "history_ok sys" "k < length (sys_history sys)" "sys_history sys ! k = (i, e)"
  shows "i < length (sys_tasks sys)"
proof -
  have "(i, e) \<in> set (sys_history sys)" using assms(2,3) nth_mem by metis
  then show ?thesis using assms(1) unfolding history_ok_def by blast
qed

lemma history_ok_once:
  assumes "history_ok sys"
  shows "changes_by i (sys_history sys) \<le> 1"
proof -
  from assms have "changes_by i (sys_history sys) \<le>
      (if i < length (sys_tasks sys) \<and> may_have_started (task_phases sys ! i) then 1 else 0)"
    unfolding history_ok_def by blast
  also have "\<dots> \<le> 1" by simp
  finally show ?thesis .
qed

definition scheduler_inv :: "runner \<Rightarrow> 'w tool_system \<Rightarrow> bool" where
  "scheduler_inv r sys \<longleftrightarrow> well_typed sys \<and> lock_ok sys \<and> permits_ok r sys \<and> history_ok sys"

lemma filter_length_update:
  assumes "i < length xs"
  shows "length (filter P (xs[i := y])) + (if P (xs ! i) then 1 else 0) = length (filter P xs) + (if P y then 1 else 0)"
proof -
  have "xs = take i xs @ xs ! i # drop (Suc i) xs" using assms by (rule id_take_nth_drop)
  then have "length (filter P xs) = length (filter P (take i xs @ xs ! i # drop (Suc i) xs))" by simp
  moreover have "xs[i := y] = take i xs @ y # drop (Suc i) xs" using assms by (rule upd_conv_take_nth_drop)
  ultimately show ?thesis by simp
qed

lemma moves_permits: "moves_along i ph evs sys sys' \<Longrightarrow> permits_ok r sys \<Longrightarrow> permits_ok r sys'"
  using filter_length_update [of i "task_phases sys" holds_permit ph]
  by (auto simp: moves_along_def permits_ok_def split: if_splits)

lemma moves_length: "moves_along i ph evs sys sys' \<Longrightarrow> length (sys_tasks sys') = length (sys_tasks sys)"
  unfolding moves_along_def by (metis length_map length_list_update)

lemma moves_lock:
  assumes "moves_along i ph evs sys sys'" "lock_ok sys"
  shows "lock_ok sys'"
proof -
  let ?old = "task_phases sys ! i"
  have i: "i < length (sys_tasks sys)" and phs: "task_phases sys' = (task_phases sys)[i := ph]"
    using assms(1) by (simp_all add: moves_along_def)
  have len: "length (sys_tasks sys') = length (sys_tasks sys)" by (rule moves_length [OF assms(1)])
  have at: "task_phases sys' ! j = (if j = i then ph else task_phases sys ! j)" if "j < length (sys_tasks sys)" for j
    using that i unfolding phs by (simp add: nth_list_update)
  have old: "holds_lock (task_phases sys ! j) \<longleftrightarrow> sys_lock sys = Some j" if "j < length (sys_tasks sys)" for j
    using assms(2) that by (simp add: lock_ok_def)
  have range: "\<forall>j. sys_lock sys = Some j \<longrightarrow> j < length (sys_tasks sys)" using assms(2) by (simp add: lock_ok_def)
  consider (take) "holds_lock ph" "\<not> holds_lock ?old" "sys_lock sys = None" "sys_lock sys' = Some i"
    | (give) "holds_lock ?old" "\<not> holds_lock ph" "sys_lock sys' = None"
    | (keep) "holds_lock ph \<longleftrightarrow> holds_lock ?old" "sys_lock sys' = sys_lock sys"
    using assms(1) unfolding moves_along_def by (auto split: if_splits)
  then have "(holds_lock (task_phases sys' ! j) \<longleftrightarrow> sys_lock sys' = Some j)" if "j < length (sys_tasks sys)" for j
    using at [OF that] old [OF that] old [OF i] by cases auto
  moreover have "\<forall>j. sys_lock sys' = Some j \<longrightarrow> j < length (sys_tasks sys)"
    using range i assms(1) unfolding moves_along_def by (auto split: if_splits)
  ultimately show ?thesis unfolding lock_ok_def len by blast
qed

lemma follows_own_snoc:
  "follows_own (H @ [(i, e)]) b a \<longleftrightarrow> follows_own H b a \<and> (e = b \<longrightarrow> H \<noteq> [] \<and> last H = (i, a))"
proof -
  have "(\<forall>k < length H. snd ((H @ [(i, e)]) ! k) = b \<longrightarrow> 0 < k \<and> (H @ [(i, e)]) ! (k - 1) = (fst ((H @ [(i, e)]) ! k), a))
      \<longleftrightarrow> follows_own H b a"
    unfolding follows_own_def by (rule all_cong) (simp add: nth_append less_imp_diff_less)
  moreover have "0 < length H \<and> (H @ [(i, e)]) ! (length H - 1) = (i, a) \<longleftrightarrow> H \<noteq> [] \<and> last H = (i, a)"
    by (auto simp: nth_append last_conv_nth)
  ultimately show ?thesis unfolding follows_own_def [of "H @ _"] by (auto simp: All_less_Suc)
qed

lemma edge_history:
  assumes "edge ph ph' evs"
  obtains "evs = []" "\<not> may_have_started ph" "phase_mark ph' = None"
  | "evs = [PatchChecked]" "phase_mark ph' = Some PatchChecked" "\<not> may_have_started ph" "holds_lock ph"
  | "evs = [ApplyStarted]" "phase_mark ph = Some PatchChecked" "phase_mark ph' = Some ApplyStarted"
      "\<not> may_have_started ph" "may_have_started ph'" "holds_lock ph"
  | "evs = [ApplyEnded]" "phase_mark ph = Some ApplyStarted" "phase_mark ph' = None" "may_have_started ph" "may_have_started ph'" "holds_lock ph"
  | "evs = [ReplaceStarted]" "phase_mark ph' = Some ReplaceStarted" "\<not> may_have_started ph" "holds_lock ph"
  | "evs = [TextReplaced]" "phase_mark ph = Some ReplaceStarted" "phase_mark ph' = None" "\<not> may_have_started ph"
      "may_have_started ph'" "holds_lock ph"
  using assms by (cases rule: edge.cases) auto

lemma phase_mark_lock: "phase_mark ph = Some e \<Longrightarrow> holds_lock ph"
  by (cases ph) auto

lemma moves_history:
  assumes moves: "moves_along i ph evs sys sys'" and lock: "lock_ok sys" and hist: "history_ok sys"
  shows "history_ok sys'"
proof -
  let ?H = "sys_history sys" and ?old = "task_phases sys ! i"
  have i: "i < length (sys_tasks sys)" and e: "edge ?old ph evs" and H': "sys_history sys' = ?H @ map (Pair i) evs"
    and phs: "task_phases sys' = (task_phases sys)[i := ph]"
    using moves unfolding moves_along_def by blast+
  have len: "length (sys_tasks sys') = length (sys_tasks sys)" by (rule moves_length [OF moves])
  have at: "task_phases sys' ! j = (if j = i then ph else task_phases sys ! j)" if "j < length (sys_tasks sys)" for j
    using that i unfolding phs by (simp add: nth_list_update)
  have own: "follows_own ?H ApplyStarted PatchChecked" "follows_own ?H ApplyEnded ApplyStarted"
      "follows_own ?H TextReplaced ReplaceStarted"
    and known: "\<forall>(i, e) \<in> set ?H. i < length (sys_tasks sys)"
    and marks: "\<And>j x. j < length (sys_tasks sys) \<Longrightarrow> phase_mark (task_phases sys ! j) = Some x \<Longrightarrow> ?H \<noteq> [] \<and> last ?H = (j, x)"
    and count: "\<And>j. changes_by j ?H \<le>
      (if j < length (sys_tasks sys) \<and> may_have_started (task_phases sys ! j) then 1 else 0)"
    using hist by (simp_all add: history_ok_def)
  have alone: "phase_mark (task_phases sys ! j) = None" if "holds_lock ?old" "j < length (sys_tasks sys)" "j \<noteq> i" for j
    using that lock i phase_mark_lock [of "task_phases sys ! j"] unfolding lock_ok_def by (metis not_Some_eq option.inject)
  have count': "changes_by j (sys_history sys') \<le>
      (if j < length (sys_tasks sys) \<and> may_have_started (task_phases sys' ! j) then 1 else 0)" for j
    by (rule edge_history [OF e]) (use count [of j] at [of j] H' i in \<open>auto split: if_splits\<close>)
  have marks': "sys_history sys' \<noteq> [] \<and> last (sys_history sys') = (j, x)"
    if "j < length (sys_tasks sys)" "phase_mark (task_phases sys' ! j) = Some x" for j x
    by (rule edge_history [OF e])
       (use that marks [OF that(1)] alone [OF _ that(1)] at [OF that(1)] H' in \<open>auto split: if_splits\<close>)
  have "follows_own (sys_history sys') ApplyStarted PatchChecked" "follows_own (sys_history sys') ApplyEnded ApplyStarted"
    "follows_own (sys_history sys') TextReplaced ReplaceStarted"
    by (rule edge_history [OF e]; use own marks [OF i] H' in \<open>simp add: follows_own_snoc\<close>)+
  moreover have "\<forall>(j, e) \<in> set (sys_history sys'). j < length (sys_tasks sys)" using known i H' by auto
  ultimately show ?thesis using count' marks' unfolding history_ok_def len by blast
qed

lemma moves_well_typed:
  assumes "task_moves h r sys sys'" "well_typed sys"
  shows "well_typed sys'"
  using assms(1)
proof cases
  case (move_permit i p)
  have "fits request (after_permit request p :: 'a tool_phase)" for request by (cases request) auto
  then show ?thesis using assms(2) move_permit(1,2)
    by (simp add: well_typed_def list_all2_conv_all_nth nth_list_update)
next
  case (move_lock i p)
  have "fits (tt_request (sys_tasks sys ! i)) (tt_phase (sys_tasks sys ! i))"
    using assms(2) move_lock(2) by (simp add: well_typed_def list_all2_conv_all_nth)
  with move_lock(3) have "mutation (tt_request (sys_tasks sys ! i))" by simp
  then have "fits (tt_request (sys_tasks sys ! i)) (after_lock (tt_request (sys_tasks sys ! i)) p :: 'a tool_phase)"
    by (cases "tt_request (sys_tasks sys ! i)") auto
  then show ?thesis using assms(2) move_lock(1,2)
    by (simp add: well_typed_def list_all2_conv_all_nth nth_list_update)
next
  case (move_work i)
  obtain st ph evs where w: "tool_work h r (sys_tools sys) (sys_tasks sys ! i) = ((st, ph), evs)"
    by (metis prod.collapse)
  have "fits (tt_request (sys_tasks sys ! i)) (tt_phase (sys_tasks sys ! i))"
    using assms(2) move_work(2) by (simp add: well_typed_def list_all2_conv_all_nth)
  from tool_work_fits [OF move_work(3) this w] show ?thesis
    using assms(2) move_work(1,2) w
    by (simp add: well_typed_def list_all2_conv_all_nth nth_list_update work_def)
next
  case (move_stop i process_id after_sequence polled)
  then show ?thesis using assms(2) by (simp add: well_typed_def list_all2_conv_all_nth nth_list_update)
qed

lemma well_typed_Stopping:
  assumes "well_typed sys" "k < length (sys_tasks sys)" "tt_phase (sys_tasks sys ! k) = Stopping process_id after"
  shows "tt_request (sys_tasks sys ! k) = StopCommand process_id after"
proof -
  have "fits (tt_request (sys_tasks sys ! k)) (tt_phase (sys_tasks sys ! k))"
    using assms(1,2) by (simp add: well_typed_def list_all2_conv_all_nth)
  with assms(3) show ?thesis by simp
qed

lemma moves_inv: "task_moves h r sys sys' \<Longrightarrow> scheduler_inv r sys \<Longrightarrow> scheduler_inv r sys'"
  using task_moves_along moves_well_typed moves_lock moves_permits moves_history
  unfolding scheduler_inv_def by metis

lemma submit_inv:
  assumes "scheduler_inv r sys"
  shows "scheduler_inv r (sys\<lparr>sys_tasks := sys_tasks sys @ [\<lparr>tt_request = request, tt_guard = g, tt_phase = Submitted\<rparr>]\<rparr>)"
    (is "scheduler_inv r ?new")
proof -
  have at: "task_phases ?new ! j = (if j < length (sys_tasks sys) then task_phases sys ! j else Submitted)"
    if "j < length (sys_tasks ?new)" for j
    using that by (auto simp: nth_append less_Suc_eq)
  show ?thesis
    using assms unfolding scheduler_inv_def well_typed_def lock_ok_def permits_ok_def history_ok_def
    by (auto simp: list_all2_append nth_append less_Suc_eq split: if_splits)
qed

lemma tools_world_inv [simp]: "scheduler_inv r (sys\<lparr>sys_tools := st\<rparr>) \<longleftrightarrow> scheduler_inv r sys"
  by (simp add: scheduler_inv_def well_typed_def lock_ok_def permits_ok_def history_ok_def)

lemma tool_step_inv: "tool_step h r sys sys' \<Longrightarrow> scheduler_inv r sys \<Longrightarrow> scheduler_inv r sys'"
  by (cases rule: tool_step.cases) (auto intro: moves_inv submit_inv)

lemma init_tools_inv: "scheduler_inv r (init_tools r st)"
  by (simp add: init_tools_def scheduler_inv_def well_typed_def lock_ok_def permits_ok_def history_ok_def follows_own_def)

lemma tool_run_inv: "tool_run h r sys sys' \<Longrightarrow> scheduler_inv r sys \<Longrightarrow> scheduler_inv r sys'"
  by (induction rule: tool_run.induct) (auto intro: tool_step_inv)

lemma tools_reachable_inv: "tools_reachable h r sys \<Longrightarrow> scheduler_inv r sys"
  using tool_run_inv init_tools_inv unfolding tools_reachable_def by blast

section \<open>Termination\<close>

text \<open>How many moves a task has left at most.\<close>

fun moves_left :: "'w tool_phase \<Rightarrow> nat" where
  "moves_left Submitted = 8"
| "moves_left (WaitPermit _) = 7"
| "moves_left (WaitLock _) = 6"
| "moves_left Preflight = 5"
| "moves_left (Checking _) = 4"
| "moves_left (Checked _) = 3"
| "moves_left (Applying _ _) = 2"
| "moves_left (Replacing _) = 2"
| "moves_left (Writing _) = 1"
| "moves_left (Stopping _ _) = 1"
| "moves_left Reading = 1"
| "moves_left (ToolDone _) = 0"

definition remaining :: "'w tool_system \<Rightarrow> nat" where
  "remaining sys = sum_list (map moves_left (task_phases sys))"

lemma moves_remaining:
  assumes "moves_along i ph evs sys sys'"
  shows "remaining sys' < remaining sys"
proof -
  let ?ns = "map moves_left (task_phases sys)"
  have i: "i < length ?ns" and e: "edge (task_phases sys ! i) ph evs"
    and phs: "task_phases sys' = (task_phases sys)[i := ph]"
    using assms unfolding moves_along_def by auto
  have "moves_left ph < ?ns ! i" using e i by (cases rule: edge.cases) simp_all
  then show ?thesis
    using sum_list_update [OF i, of "moves_left ph"] member_le_sum_list [of "?ns ! i" ?ns] i
    unfolding remaining_def phs map_update by (simp add: nth_mem)
qed

lemma remaining_bounded: "remaining sys \<le> 8 * length (sys_tasks sys)"
proof -
  have "moves_left ph \<le> 8" for ph :: "'a tool_phase" by (cases ph) simp_all
  then have "sum_list (map moves_left phs) \<le> 8 * length phs" for phs :: "'a tool_phase list"
    by (induction phs) (simp_all add: add_mono)
  from this [of "task_phases sys"] show ?thesis by (simp add: remaining_def)
qed

text \<open>A call has returned, or it is a stop whose command still runs.\<close>

definition awaits_command :: "'w tool_system \<Rightarrow> 'w tool_task \<Rightarrow> bool" where
  "awaits_command sys t \<longleftrightarrow> (\<exists>process_id after.
     tt_request t = StopCommand process_id after \<and> tt_phase t = Stopping process_id after \<and>
     still_running (poll (ts_processes (sys_tools sys)) process_id after))"

definition returned_or_waiting :: "'w tool_system \<Rightarrow> bool" where
  "returned_or_waiting sys \<longleftrightarrow>
     (\<forall>t \<in> set (sys_tasks sys). (\<exists>res. tt_phase t = ToolDone res) \<or> awaits_command sys t)"

lemma stop_moves_or_waits:
  assumes "well_typed sys" "t \<in> set (sys_tasks sys)" "tt_phase t = Stopping process_id after"
    and "\<nexists>sys'. task_moves h r sys sys'"
  shows "awaits_command sys t"
proof -
  obtain i where i: "i < length (sys_tasks sys)" "sys_tasks sys ! i = t" using assms(2) by (metis in_set_conv_nth)
  have "still_running (poll (ts_processes (sys_tools sys)) process_id after)"
    using move_stop [OF i(1), of process_id after _ h r] assms(3,4) i(2) by metis
  moreover have "tt_request t = StopCommand process_id after"
    using well_typed_Stopping [OF assms(1) i(1)] assms(3) i(2) by simp
  ultimately show ?thesis using assms(3) by (auto simp: awaits_command_def)
qed

lemma stuck_returned:
  assumes inv: "scheduler_inv r sys" and permits: "0 < max_blocking_tools (rn_limits r)"
    and stuck: "\<nexists>sys'. task_moves h r sys sys'"
  shows "returned_or_waiting sys"
proof -
  have wt: "well_typed sys" and "lock_ok sys" and per: "permits_ok r sys" using inv by (simp_all add: scheduler_inv_def)
  have halted: "\<not> runnable (tt_phase t)" if "t \<in> set (sys_tasks sys)" for t
    using that stuck move_work by (metis in_set_conv_nth)
  then have unheld: "\<not> holds_lock (tt_phase t)" if "t \<in> set (sys_tasks sys)" for t
    using halted [OF that] by (cases "tt_phase t") (auto simp: runnable_def)
  then have free: "sys_lock sys = None"
    using \<open>lock_ok sys\<close> unfolding lock_ok_def by (metis not_Some_eq nth_map nth_mem)
  have unlocked: "tt_phase t \<noteq> WaitLock p" if "t \<in> set (sys_tasks sys)" for t p
    using that stuck move_lock [OF _ _ free] by (metis in_set_conv_nth)
  then have "\<not> holds_permit (tt_phase t)" if "t \<in> set (sys_tasks sys)" for t
    using that halted [OF that] by (cases "tt_phase t") (auto simp: runnable_def)
  then have "filter holds_permit (task_phases sys) = []" by (auto simp: filter_empty_conv)
  then have "0 < sys_permits sys" using per permits by (simp add: permits_ok_def del: filter_map)
  then have unpermitted: "tt_phase t \<noteq> WaitPermit p" if "t \<in> set (sys_tasks sys)" for t p
    using that stuck move_permit by (metis in_set_conv_nth)
  show ?thesis unfolding returned_or_waiting_def
  proof
    fix t assume t: "t \<in> set (sys_tasks sys)"
    show "(\<exists>res. tt_phase t = ToolDone res) \<or> awaits_command sys t"
      using halted [OF t] unlocked [OF t] unpermitted [OF t] stop_moves_or_waits [OF wt t _ stuck]
      by (cases "tt_phase t") (auto simp: runnable_def)
  qed
qed

lemma moves_to_done:
  assumes "scheduler_inv r sys" "0 < max_blocking_tools (rn_limits r)"
  shows "\<exists>sys'. (task_moves h r)\<^sup>*\<^sup>* sys sys' \<and> returned_or_waiting sys'"
  using assms(1)
proof (induction "remaining sys" arbitrary: sys rule: less_induct)
  case less
  show ?case
  proof (cases "returned_or_waiting sys")
    case False
    then obtain v where v: "task_moves h r sys v" using stuck_returned [OF less.prems assms(2)] by blast
    moreover have "remaining v < remaining sys"
      using task_moves_along [OF v] moves_remaining less.prems unfolding scheduler_inv_def by blast
    ultimately show ?thesis
      using less.hyps moves_inv [OF v less.prems] by (meson converse_rtranclp_into_rtranclp)
  qed blast
qed

lemma returned_stays: "returned_or_waiting sys \<Longrightarrow> \<not> task_moves h r sys sys'"
proof
  assume all: "returned_or_waiting sys" and "task_moves h r sys sys'"
  have ended: "(\<exists>res. tt_phase (sys_tasks sys ! i) = ToolDone res) \<or> awaits_command sys (sys_tasks sys ! i)"
    if "i < length (sys_tasks sys)" for i
    using all that by (simp add: returned_or_waiting_def)
  from \<open>task_moves h r sys sys'\<close> show False
    by cases (use ended in \<open>force simp: runnable_def awaits_command_def\<close>)+
qed

section \<open>A patch alone\<close>

text \<open>
  The state after a new call in an idle system has come to a phase, with what it added to the
  history: what it holds follows from the phase.
\<close>

definition call_state ::
  "'w tool_system \<Rightarrow> tool_request \<Rightarrow> authority_guard \<Rightarrow> 'w tool_state \<Rightarrow> 'w tool_phase \<Rightarrow> tool_event list \<Rightarrow>
   'w tool_system" where
  "call_state sys request g st ph evs =
     \<lparr>sys_tools = st, sys_tasks = sys_tasks sys @ [\<lparr>tt_request = request, tt_guard = g, tt_phase = ph\<rparr>],
      sys_permits = (if holds_permit ph then sys_permits sys - 1 else sys_permits sys),
      sys_lock = (if holds_lock ph then Some (length (sys_tasks sys)) else None),
      sys_history = sys_history sys @ map (Pair (length (sys_tasks sys))) evs\<rparr>"

text \<open>Steps by which no call arrives.\<close>

definition closed_step :: "'w tool_host \<Rightarrow> runner \<Rightarrow> 'w tool_system \<Rightarrow> 'w tool_system \<Rightarrow> bool" where
  "closed_step h r sys sys' \<longleftrightarrow> task_moves h r sys sys' \<or>
     (\<exists>w m. sys' = sys\<lparr>sys_tools := (sys_tools sys)\<lparr>ts_world := w, ts_processes := m\<rparr>\<rparr>)"

lemma closed_step_tool: "closed_step h r sys sys' \<Longrightarrow> tool_step h r sys sys'"
  by (auto simp: closed_step_def intro: tool_moves tool_world)

definition comes_to ::
  "'w tool_host \<Rightarrow> runner \<Rightarrow> 'w tool_system \<Rightarrow> tool_request \<Rightarrow> authority_guard \<Rightarrow> 'w tool_state \<Rightarrow> 'w tool_phase \<Rightarrow>
   tool_event list \<Rightarrow> bool" where
  "comes_to h r sys request g st ph evs \<longleftrightarrow>
     (closed_step h r)\<^sup>*\<^sup>* (call_state sys request g (sys_tools sys) Submitted []) (call_state sys request g st ph evs)"

definition idle :: "'w tool_system \<Rightarrow> bool" where
  "idle sys \<longleftrightarrow> sys_lock sys = None \<and> 0 < sys_permits sys"

lemma comes_to_next:
  "comes_to h r sys request g st ph evs \<Longrightarrow>
   closed_step h r (call_state sys request g st ph evs) (call_state sys request g st' ph' evs') \<Longrightarrow>
   comes_to h r sys request g st' ph' evs'"
  unfolding comes_to_def by (rule rtranclp.rtrancl_into_rtrancl)

lemma comes_to_submit: "comes_to h r sys request g (sys_tools sys) Submitted []"
  by (simp add: comes_to_def)

lemma submit_call_state:
  "idle sys \<Longrightarrow> sys\<lparr>sys_tasks := sys_tasks sys @ [\<lparr>tt_request = request, tt_guard = g, tt_phase = Submitted\<rparr>]\<rparr> =
     call_state sys request g (sys_tools sys) Submitted []"
  by (simp add: call_state_def idle_def)

lemma comes_to_run:
  assumes "idle sys" "comes_to h r sys request g st ph evs"
  shows "tool_run h r sys (call_state sys request g st ph evs)"
  using assms(2) unfolding comes_to_def
proof (induction rule: rtranclp_induct)
  case base
  show ?case using tool_next [OF tool_refl tool_submit] submit_call_state [OF assms(1)] by metis
next
  case (step y z)
  then show ?case using closed_step_tool by (blast intro: tool_next)
qed

lemma comes_to_world:
  assumes "comes_to h r sys request g st ph evs"
  shows "comes_to h r sys request g (suspend h st) ph evs"
proof (rule comes_to_next [OF assms])
  let ?c = "call_state sys request g st ph evs"
  have "?c\<lparr>sys_tools := (sys_tools ?c)\<lparr>ts_world := host_suspend h (ts_world st), ts_processes := ts_processes st\<rparr>\<rparr> =
      call_state sys request g (suspend h st) ph evs"
    by (simp add: call_state_def suspend_def)
  then show "closed_step h r ?c (call_state sys request g (suspend h st) ph evs)"
    unfolding closed_step_def by metis
qed

lemma comes_to_permit:
  assumes "idle sys" "comes_to h r sys request g st (WaitPermit p) evs"
  shows "comes_to h r sys request g st (after_permit request p) evs"
proof -
  let ?c = "call_state sys request g st (WaitPermit p) evs"
  let ?new = "set_phase (length (sys_tasks sys)) (after_permit (tt_request (sys_tasks ?c ! length (sys_tasks sys))) p)
      (?c\<lparr>sys_permits := sys_permits ?c - 1\<rparr>)"
  have "task_moves h r ?c ?new"
    by (rule move_permit) (use assms(1) in \<open>simp_all add: call_state_def idle_def\<close>)
  moreover have "?new = call_state sys request g st (after_permit request p) evs"
    by (simp add: call_state_def set_phase_def)
  ultimately show ?thesis by (intro comes_to_next [OF assms(2)]) (simp add: closed_step_def)
qed

lemma comes_to_lock:
  assumes "comes_to h r sys request g st (WaitLock p) evs"
  shows "comes_to h r sys request g st (after_lock request p) evs"
proof -
  let ?c = "call_state sys request g st (WaitLock p) evs"
  let ?new = "set_phase (length (sys_tasks sys)) (after_lock (tt_request (sys_tasks ?c ! length (sys_tasks sys))) p)
      (?c\<lparr>sys_lock := Some (length (sys_tasks sys))\<rparr>)"
  have "task_moves h r ?c ?new" by (rule move_lock) (simp_all add: call_state_def)
  moreover have "?new = call_state sys request g st (after_lock request p) evs"
    by (simp add: call_state_def set_phase_def)
  ultimately show ?thesis by (intro comes_to_next [OF assms]) (simp add: closed_step_def)
qed

lemma comes_to_work:
  assumes "idle sys" "comes_to h r sys request g st ph evs" "runnable ph" "fits request ph"
    and "tool_work h r st \<lparr>tt_request = request, tt_guard = g, tt_phase = ph\<rparr> = ((st', ph'), evs')"
  shows "comes_to h r sys request g st' ph' (evs @ evs')"
proof -
  let ?c = "call_state sys request g st ph evs" and ?i = "length (sys_tasks sys)"
  have e: "edge ph ph' evs'" using tool_work_edge [OF _ _ assms(5)] assms(3,4) by simp
  have "task_moves h r ?c (work h r ?i ?c)" by (rule move_work) (use assms(3) in \<open>simp_all add: call_state_def\<close>)
  moreover have "work h r ?i ?c = call_state sys request g st' ph' (evs @ evs')"
    using edge_runnable_holds [OF e assms(3)] assms(1,5)
    by (auto simp: work_def call_state_def set_phase_def release_def idle_def)
  ultimately show ?thesis by (intro comes_to_next [OF assms(2)]) (simp add: closed_step_def)
qed

text \<open>\<open>preflight_patch\<close> and \<open>git_apply_authorized\<close>, step by step.\<close>

lemma comes_to_preflight:
  assumes i: "idle sys" and c: "comes_to h r sys (ApplyPatch patch) g st Preflight evs"
    and p: "preflight_patch h r st patch g = (st', res)"
  shows "case res of Inl e \<Rightarrow> comes_to h r sys (ApplyPatch patch) g st' (ToolDone (Inl e)) evs
    | Inr paths \<Rightarrow> comes_to h r sys (ApplyPatch patch) g st' (Checked paths) (evs @ [PatchChecked])"
proof -
  obtain s1 ph1 where f: "preflight_step h r st patch g = (s1, ph1)" by fastforce
  have c1: "comes_to h r sys (ApplyPatch patch) g s1 ph1 evs"
    using comes_to_work [OF i c, of s1 ph1 "[]"] f by (simp add: tool_work_def runnable_def)
  have check: "comes_to h r sys (ApplyPatch patch) g s2 ph2
      (evs @ (if ph2 = Checked paths then [PatchChecked] else []))"
    if "ph1 = Checking paths" "check_step h r s1 patch g paths = (s2, ph2)" for paths s2 ph2
    using comes_to_work [OF i c1, of s2 ph2 "if ph2 = Checked paths then [PatchChecked] else []"] that
    by (simp add: tool_work_def runnable_def Let_def)
  show ?thesis
  proof (cases "\<exists>paths. ph1 = Checking paths")
    case True
    then obtain paths where ph1: "ph1 = Checking paths" by blast
    obtain s2 ph2 where k: "check_step h r s1 patch g paths = (s2, ph2)" by fastforce
    have "ph2 = (case res of Inl e \<Rightarrow> ToolDone (Inl e) | Inr paths \<Rightarrow> Checked paths) \<and> s2 = st' \<and>
        (\<forall>x. res = Inr x \<longrightarrow> x = paths)"
      using f k p unfolding ph1
      by (auto simp: preflight_step_def check_step_def preflight_patch_def split: sum.splits prod.splits)
    with check [OF ph1 k] show ?thesis by (auto split: sum.splits)
  next
    case False
    then obtain e where "ph1 = ToolDone (Inl e)" "res = Inl e" "s1 = st'"
      using f p by (auto simp: preflight_step_def preflight_patch_def split: sum.splits prod.splits)
    with c1 show ?thesis by simp
  qed
qed

lemma comes_to_apply:
  assumes i: "idle sys" and c: "comes_to h r sys (ApplyPatch patch) g st (Checked paths) evs"
    and a: "git_apply_authorized h r st patch g = (st', res)"
  shows "\<exists>evs'. comes_to h r sys (ApplyPatch patch) g st' (ToolDone (case res of
      Inl e \<Rightarrow> Inl e
    | Inr applied \<Rightarrow> (case successful_patch applied of Inl e \<Rightarrow> Inl e | Inr _ \<Rightarrow> Inr (FilesChanged paths))))
      (evs @ evs') \<and> (\<forall>applied. res = Inr applied \<longrightarrow> evs' = [ApplyStarted, ApplyEnded])"
proof -
  obtain s1 ph1 where f: "apply_spawn h st patch g paths = (s1, ph1)" by fastforce
  define evs1 where "evs1 = (case ph1 of Applying _ _ \<Rightarrow> [ApplyStarted] | _ \<Rightarrow> [])"
  have c1: "comes_to h r sys (ApplyPatch patch) g s1 ph1 (evs @ evs1)"
    using comes_to_work [OF i c, of s1 ph1 evs1] f by (simp add: tool_work_def runnable_def Let_def evs1_def)
  show ?thesis
  proof (cases "\<exists>run. ph1 = Applying paths run")
    case True
    then obtain run where ph1: "ph1 = Applying paths run" by blast
    obtain s2 ph2 where k: "apply_finish h r s1 g paths run = (s2, ph2)" by fastforce
    have "comes_to h r sys (ApplyPatch patch) g s2 ph2 ((evs @ evs1) @ [ApplyEnded])"
      using comes_to_work [OF i c1, of s2 ph2 "[ApplyEnded]"] k by (simp add: ph1 tool_work_def runnable_def)
    moreover have "s2 = st' \<and> ph2 = ToolDone (case res of
        Inl e \<Rightarrow> Inl e
      | Inr applied \<Rightarrow> (case successful_patch applied of Inl e \<Rightarrow> Inl e | Inr _ \<Rightarrow> Inr (FilesChanged paths)))"
      using f k a unfolding ph1
      by (auto simp: apply_spawn_def apply_finish_def git_apply_authorized_def Let_def
          split: sum.splits prod.splits)
    ultimately show ?thesis by (intro exI [of _ "[ApplyStarted, ApplyEnded]"]) (simp add: evs1_def ph1)
  next
    case False
    then obtain e where "ph1 = ToolDone (Inl e)" "res = Inl e" "s1 = st'"
      using f a
      by (auto simp: apply_spawn_def git_apply_authorized_def Let_def split: sum.splits prod.splits)
    with c1 show ?thesis by (intro exI [of _ "[]"]) (simp add: evs1_def)
  qed
qed

lemma comes_to_patch:
  assumes i: "idle sys" and c: "comes_to h r sys (ApplyPatch patch) g st (WaitPermit []) []"
    and small: "\<not> length patch > max_patch_input_bytes (rn_limits r)"
    and a: "apply_patch_authorized h r st patch g = (st', res)"
  shows "\<exists>evs. comes_to h r sys (ApplyPatch patch) g st' (ToolDone res) evs \<and>
    (\<forall>x. res = Inr x \<longrightarrow> evs = [PatchChecked, ApplyStarted, ApplyEnded])"
proof -
  have "comes_to h r sys (ApplyPatch patch) g (suspend h st) Preflight []"
    using comes_to_lock [OF comes_to_permit [OF i comes_to_world [OF c], simplified]] by simp
  note pre = comes_to_preflight [OF i this]
  obtain s1 res1 where p: "preflight_patch h r (suspend h st) patch g = (s1, res1)" by fastforce
  show ?thesis
  proof (cases res1)
    case (Inl e)
    then have "comes_to h r sys (ApplyPatch patch) g (suspend h s1) (ToolDone (Inl e)) []"
      using comes_to_world pre [OF p] by simp
    moreover have "st' = suspend h s1" "res = Inl e"
      using a p small Inl by (simp_all add: apply_patch_authorized_def)
    ultimately show ?thesis by (intro exI [of _ "[]"]) simp
  next
    case (Inr paths)
    then have "comes_to h r sys (ApplyPatch patch) g (suspend h s1) (Checked paths) [PatchChecked]"
      using comes_to_world pre [OF p] by simp
    note app = comes_to_apply [OF i this]
    obtain s2 res2 where g: "git_apply_authorized h r (suspend h s1) patch g = (s2, res2)" by fastforce
    have r: "st' = s2" "res = (case res2 of Inl e \<Rightarrow> Inl e
        | Inr applied \<Rightarrow> (case successful_patch applied of Inl e \<Rightarrow> Inl e | Inr _ \<Rightarrow> Inr (FilesChanged paths)))"
      using a p small Inr g
      by (auto simp: apply_patch_authorized_def git_apply_authorized_def Let_def split: sum.splits prod.splits)
    from app [OF g] obtain evs where evs: "\<And>applied. res2 = Inr applied \<Longrightarrow> evs = [ApplyStarted, ApplyEnded]"
      "comes_to h r sys (ApplyPatch patch) g st' (ToolDone res) (PatchChecked # evs)"
      unfolding r by auto
    have "\<forall>x. res = Inr x \<longrightarrow> PatchChecked # evs = [PatchChecked, ApplyStarted, ApplyEnded]"
      using evs(1) r(2) by (cases res2) (auto split: sum.split)
    with evs(2) show ?thesis by blast
  qed
qed

lemma comes_to_patch_call:
  assumes i: "idle sys" and c: "comes_to h r sys (ApplyPatch patch) g st Submitted []"
    and ok: "check_authority h (ts_world st) g = Inr ()"
    and a: "apply_patch_authorized h r st patch g = (st', res)"
  shows "\<exists>evs. comes_to h r sys (ApplyPatch patch) g st' (ToolDone res) evs \<and>
    (\<forall>x. res = Inr x \<longrightarrow> evs = [PatchChecked, ApplyStarted, ApplyEnded])"
proof -
  have begun: "comes_to h r sys (ApplyPatch patch) g st (begin_patch r patch) []"
    using comes_to_work [OF i c, of st "begin_patch r patch" "[]"] ok
    by (simp add: tool_work_def runnable_def begin_tool_def)
  show ?thesis
  proof (cases "length patch > max_patch_input_bytes (rn_limits r)")
    case True
    then show ?thesis
      using begun a by (intro exI [of _ "[]"]) (auto simp: begin_patch_def apply_patch_authorized_def)
  next
    case False
    with begun have "comes_to h r sys (ApplyPatch patch) g st (WaitPermit []) []" by (simp add: begin_patch_def)
    then show ?thesis by (rule comes_to_patch [OF i _ False a])
  qed
qed

section \<open>Git calls of interleaved tasks\<close>

definition call_list :: "'w tool_system \<Rightarrow> (authority_guard \<times> tool_request) list" where
  "call_list sys = map (\<lambda>t. (tt_guard t, tt_request t)) (sys_tasks sys)"

definition task_calls :: "'w tool_system \<Rightarrow> (authority_guard \<times> tool_request) set" where
  "task_calls sys = set (call_list sys)"

lemma set_phase_call_list [simp]: "call_list (set_phase i ph sys) = call_list sys"
  by (cases "i < length (sys_tasks sys)")
     (simp_all add: call_list_def set_phase_def map_update list_update_same_conv list_update_beyond)

lemma set_phase_calls [simp]: "task_calls (set_phase i ph sys) = task_calls sys"
  by (simp add: task_calls_def)

lemma call_list_simps [simp]:
  "call_list (release old new sys) = call_list sys" "call_list (sys\<lparr>sys_tools := st\<rparr>) = call_list sys"
  "call_list (sys\<lparr>sys_permits := n\<rparr>) = call_list sys" "call_list (sys\<lparr>sys_lock := l\<rparr>) = call_list sys"
  "call_list (sys\<lparr>sys_history := evs\<rparr>) = call_list sys"
  "call_list (sys\<lparr>sys_tasks := sys_tasks sys @ [t]\<rparr>) = call_list sys @ [(tt_guard t, tt_request t)]"
  "length (call_list sys) = length (sys_tasks sys)"
  by (simp_all add: call_list_def)

lemma task_moves_call_list: "task_moves h r sys sys' \<Longrightarrow> call_list sys' = call_list sys"
  by (cases rule: task_moves.cases) (auto simp: work_def Let_def split: prod.split)

lemma task_calls_simps [simp]:
  "task_calls (release old new sys) = task_calls sys" "task_calls (sys\<lparr>sys_tools := st\<rparr>) = task_calls sys"
  "task_calls (sys\<lparr>sys_permits := n\<rparr>) = task_calls sys" "task_calls (sys\<lparr>sys_lock := l\<rparr>) = task_calls sys"
  "task_calls (sys\<lparr>sys_history := evs\<rparr>) = task_calls sys"
  "task_calls (sys\<lparr>sys_tasks := sys_tasks sys @ [t]\<rparr>) = insert (tt_guard t, tt_request t) (task_calls sys)"
  by (simp_all add: task_calls_def)

definition granted :: "'w tool_host \<Rightarrow> 'w tool_system \<Rightarrow> 'w \<times> git_call \<Rightarrow> bool" where
  "granted h sys c \<longleftrightarrow> (\<exists>(g, request) \<in> task_calls sys. permitted h g request c)"

lemma preflight_step_inspects: "preflight_step h r st patch g = (st', ph) \<Longrightarrow> extends inspects st st'"
  by (auto simp: preflight_step_def patch_paths_def split: prod.splits sum.splits dest!: git_with_limit_inspects)

lemma check_step_inspects: "check_step h r st patch g paths = (st', ph) \<Longrightarrow> extends inspects st st'"
  by (auto simp: check_step_def git_with_input_def split: prod.splits sum.splits dest!: git_with_limit_inspects)

lemma start_command_git: "start_command h r st command cwd timeout_ms g = (st', res) \<Longrightarrow> ts_git st' = ts_git st"
  by (auto simp: start_command_def Let_def suspend_def split: sum.splits prod.splits)

lemma begin_tool_git: "ts_git (fst (begin_tool h r st request g)) = ts_git st"
proof (cases request)
  case (StartCommand command cwd timeout_ms)
  then show ?thesis
    using start_command_git [of h r st command cwd timeout_ms g]
    by (cases "start_command h r st command cwd timeout_ms g") (simp add: begin_tool_def split: sum.split)
qed (auto simp: begin_tool_def begin_stop_def poll_command_def split: sum.split)

lemma tool_work_permitted:
  assumes "tool_work h r st t = ((st', ph'), evs)"
  shows "extends (permitted h (tt_guard t) (tt_request t)) st st'"
proof -
  have idle: "extends (permitted h (tt_guard t) (tt_request t)) st st'" if "st' = st" using that by simp
  have reads: "extends (permitted h (tt_guard t) (tt_request t)) st st'"
    if "execute_blocking h r st (tt_request t) (tt_guard t) = (st', res)" for res
    using execute_blocking_inspects [OF that] by (rule inspects_permitted)
  have spawns: "extends (permitted h g (ApplyPatch patch)) st st'"
    if "apply_spawn h st patch g paths = (st', ph)" for g patch paths ph
    using that by (auto simp: apply_spawn_def Let_def extends_def permitted_def split: sum.splits prod.splits)
  have quiet: "extends P st st'"
    if "apply_finish h r st g paths run = (st', ph) \<or> replace_write h r st relative old new = (st', ph)"
    for P g paths run ph relative old new
    using that by (auto simp: apply_finish_def replace_write_def Let_def extends_def split: sum.splits prod.splits)
  show ?thesis
  proof (cases "tt_phase t")
    case Submitted
    then show ?thesis using assms begin_tool_git [of h r st "tt_request t" "tt_guard t"]
      by (simp add: tool_work_def extends_same)
  next
    case Reading
    then show ?thesis using assms reads
      by (cases "execute_blocking h r st (tt_request t) (tt_guard t)") (simp add: tool_work_def)
  qed (use assms in \<open>cases "tt_request t"; auto simp: tool_work_def Let_def
        intro: inspects_permitted preflight_step_inspects check_step_inspects spawns quiet\<close>)+
qed

text \<open>The Git calls a system has made were granted to its calls.\<close>

definition git_ok :: "'w tool_host \<Rightarrow> 'w tool_state \<Rightarrow> 'w tool_system \<Rightarrow> bool" where
  "git_ok h st sys \<longleftrightarrow> extends (granted h sys) st (sys_tools sys)"

lemma git_ok_mono:
  assumes "git_ok h st sys" "task_calls sys \<subseteq> task_calls sys'"
    and "extends (granted h sys') (sys_tools sys) (sys_tools sys')"
  shows "git_ok h st sys'"
proof -
  have "extends (granted h sys') st (sys_tools sys)"
    using assms(1) unfolding git_ok_def by (rule extends_mono) (use assms(2) in \<open>auto simp: granted_def\<close>)
  with assms(3) show ?thesis unfolding git_ok_def by (rule extends_trans [rotated])
qed

lemma task_moves_git:
  assumes "task_moves h r sys sys'" "git_ok h st sys"
  shows "git_ok h st sys'"
  using assms(1)
proof cases
  case (move_work i)
  let ?t = "sys_tasks sys ! i"
  obtain s ph evs where w: "tool_work h r (sys_tools sys) ?t = ((s, ph), evs)" by (metis prod.collapse)
  have same: "task_calls sys' = task_calls sys" "sys_tools sys' = s"
    by (simp_all add: move_work(1) work_def w)
  have "(tt_guard ?t, tt_request ?t) \<in> task_calls sys" using move_work(2) by (auto simp: task_calls_def call_list_def)
  then have "extends (granted h sys') (sys_tools sys) s"
    unfolding granted_def same(1) by (intro extends_mono [OF tool_work_permitted [OF w]]) blast
  then show ?thesis by (intro git_ok_mono [OF assms(2)]) (simp_all add: same)
qed (use git_ok_mono [OF assms(2)] in \<open>simp_all\<close>)

lemma tool_run_git: "tool_run h r sys sys' \<Longrightarrow> git_ok h st sys \<Longrightarrow> git_ok h st sys'"
proof (induction rule: tool_run.induct)
  case (tool_next sys sys' sys'')
  from tool_next.hyps(2) show ?case
  proof cases
    case tool_moves
    then show ?thesis using task_moves_git tool_next by blast
  next
    case tool_submit
    then show ?thesis using tool_next by (intro git_ok_mono [of h st sys' sys'']) auto
  next
    case tool_world
    then show ?thesis using tool_next by (intro git_ok_mono [of h st sys' sys'']) (auto intro: extends_same)
  qed
qed

lemma tool_run_granted:
  assumes "tool_run h r (init_tools r st) sys" "c \<in> set (ts_git (sys_tools sys))" "c \<notin> set (ts_git st)"
  shows "granted h sys c"
proof -
  have "git_ok h st sys" by (rule tool_run_git [OF assms(1)]) (simp add: git_ok_def init_tools_def)
  then obtain calls where "ts_git (sys_tools sys) = ts_git st @ calls" "list_all (granted h sys) calls"
    by (auto simp: git_ok_def extends_def)
  with assms(2,3) show ?thesis by (auto simp: list_all_iff)
qed

section \<open>Properties\<close>

text \<open>C8.  A patch is applied exactly as it was checked.  However tool calls interleave, in the
  sequence of checks and mutations each start of \<^verbatim>\<open>git apply\<close> directly follows the successful check of
  the same call, and its end directly follows its start: no other patch and no replacement of
  this runner comes in between.  Each call changes the worktree at most once: it starts \<^verbatim>\<open>git apply\<close>
  or it replaces text, and never again.\<close>

theorem patch_applied_as_checked:
  assumes "tools_reachable h r sys"
  shows "(\<forall>k i. k < length (sys_history sys) \<and> sys_history sys ! k = (i, ApplyStarted) \<longrightarrow>
      0 < k \<and> sys_history sys ! (k - 1) = (i, PatchChecked)) \<and>
    (\<forall>k i. k < length (sys_history sys) \<and> sys_history sys ! k = (i, ApplyEnded) \<longrightarrow>
      0 < k \<and> sys_history sys ! (k - 1) = (i, ApplyStarted)) \<and>
    (\<forall>i. changes_by i (sys_history sys) \<le> 1)"
proof -
  have H: "history_ok sys" using tools_reachable_inv [OF assms] by (simp add: scheduler_inv_def)
  then have own: "follows_own (sys_history sys) ApplyStarted PatchChecked"
    "follows_own (sys_history sys) ApplyEnded ApplyStarted" by (simp_all add: history_ok_def)
  have "\<forall>i. changes_by i (sys_history sys) \<le> 1" using history_ok_once [OF H] by blast
  moreover have "0 < k \<and> sys_history sys ! (k - 1) = (i, PatchChecked)"
    if "k < length (sys_history sys)" "sys_history sys ! k = (i, ApplyStarted)" for k i
    using own(1) that by (simp add: follows_own_def)
  moreover have "0 < k \<and> sys_history sys ! (k - 1) = (i, ApplyStarted)"
    if "k < length (sys_history sys)" "sys_history sys ! k = (i, ApplyEnded)" for k i
    using own(2) that by (simp add: follows_own_def)
  ultimately show ?thesis by blast
qed

text \<open>C12.  Mutations exclude each other and the cap on blocking tools holds: at any time at most one
  call is between the acquisition of the mutation lock and its end, and the calls that hold a
  permit and the free permits together are exactly the configured number.\<close>

theorem mutations_exclusive:
  assumes "tools_reachable h r sys"
  shows "(\<forall>i < length (sys_tasks sys). \<forall>j < length (sys_tasks sys).
      holds_lock (tt_phase (sys_tasks sys ! i)) \<and> holds_lock (tt_phase (sys_tasks sys ! j)) \<longrightarrow> i = j) \<and>
    sys_permits sys + length (filter (\<lambda>t. holds_permit (tt_phase t)) (sys_tasks sys)) =
      max_blocking_tools (rn_limits r)"
proof -
  have "lock_ok sys" "permits_ok r sys" using tools_reachable_inv [OF assms] by (simp_all add: scheduler_inv_def)
  then show ?thesis by (auto simp: lock_ok_def permits_ok_def comp_def)
qed

text \<open>C13.  Tool calls never deadlock and no permit is lost.  Left to themselves, the calls that have
  arrived make at most eight moves each, in any order.  The only states in which none of them can
  move are those in which every call has returned, except the stops whose command the process
  table still shows as running: such a stop polls on, and its polls change nothing until the
  supervisor has ended the command.\<close>

theorem tools_terminate:
  assumes "tools_reachable h r sys" "0 < max_blocking_tools (rn_limits r)"
    and "(task_moves h r ^^ n) sys sys'"
  shows "n \<le> 8 * length (sys_tasks sys) \<and>
    ((\<nexists>sys''. task_moves h r sys' sys'') \<longleftrightarrow>
     (\<forall>t \<in> set (sys_tasks sys'). (\<exists>result. tt_phase t = ToolDone result) \<or>
        (\<exists>process_id after p. tt_request t = StopCommand process_id after \<and> tt_phase t = Stopping process_id after \<and>
           poll (ts_processes (sys_tools sys')) process_id after = Inr p \<and> poll_status p = Running)))"
proof -
  have "scheduler_inv r sys' \<and> n + remaining sys' \<le> remaining sys" using assms(3)
  proof (induction n arbitrary: sys')
    case 0
    then show ?case using tools_reachable_inv [OF assms(1)] by simp
  next
    case (Suc n)
    then obtain v where v: "scheduler_inv r v" "n + remaining v \<le> remaining sys" "task_moves h r v sys'" by auto
    then obtain i ph evs where "moves_along i ph evs v sys'"
      using task_moves_along by (metis scheduler_inv_def)
    with moves_remaining v moves_inv show ?case by fastforce
  qed
  with stuck_returned [OF _ assms(2)] returned_stays
  have "(\<nexists>sys''. task_moves h r sys' sys'') \<longleftrightarrow> returned_or_waiting sys'" and n: "n \<le> remaining sys" by fastforce+
  moreover have "still_running polled \<longleftrightarrow> (\<exists>p. polled = Inr p \<and> poll_status p = Running)" for polled
    by (auto simp: still_running_def split: sum.split)
  ultimately show ?thesis
    using remaining_bounded [of sys] by (simp add: returned_or_waiting_def awaits_command_def)
qed

text \<open>However calls interleave, nothing is applied that no call was granted: every \<^verbatim>\<open>git apply\<close> made
  since the runner started applies the patch of an \<open>ApplyPatch\<close> call that has arrived, in a world in which the
  authority of that very call is valid.\<close>

theorem interleaved_applies_granted:
  assumes "tool_run h r (init_tools r st) sys" "(w, GitApply patch) \<in> set (ts_git (sys_tools sys))"
    and "(w, GitApply patch) \<notin> set (ts_git st)"
  shows "\<exists>t \<in> set (sys_tasks sys). tt_request t = ApplyPatch patch \<and> check_authority h w (tt_guard t) = Inr ()"
proof -
  from tool_run_granted [OF assms] show ?thesis by (auto simp: granted_def task_calls_def call_list_def permitted_def split: prod.splits)
qed

section \<open>A patch, from the submission to the result\<close>

definition demo_tools :: "demo_dir tool_system" where
  "demo_tools = init_tools demo_runner demo_state"

lemma demo_tools_idle: "idle demo_tools"
  by (simp add: demo_tools_def idle_def init_tools_def demo_runner_def standalone_def)

definition demo_tools_end :: "demo_dir tool_system" where
  "demo_tools_end = call_state demo_tools (ApplyPatch ''p'') demo_guard demo_patched
     (ToolDone (Inr (FilesChanged [''f'']))) [PatchChecked, ApplyStarted, ApplyEnded]"

lemma demo_comes_to:
  "comes_to demo_host demo_runner demo_tools (ApplyPatch ''p'') demo_guard demo_patched
     (ToolDone (Inr (FilesChanged [''f'']))) [PatchChecked, ApplyStarted, ApplyEnded]"
proof -
  have "sys_tools demo_tools = demo_state" by (simp add: demo_tools_def init_tools_def)
  then show ?thesis
    using comes_to_patch_call [OF demo_tools_idle comes_to_submit, of demo_host demo_guard demo_runner "''p''"]
      demo_apply [of demo_guard] by simp
qed

lemma demo_tools_run: "tool_run demo_host demo_runner demo_tools demo_tools_end"
  unfolding demo_tools_end_def by (rule comes_to_run [OF demo_tools_idle demo_comes_to])

lemma demo_tools_reachable: "tools_reachable demo_host demo_runner demo_tools_end"
  using demo_tools_run unfolding tools_reachable_def demo_tools_def by blast

lemma demo_tools_end_simps [simp]:
  "sys_history demo_tools_end = [(0, PatchChecked), (0, ApplyStarted), (0, ApplyEnded)]"
  "sys_tools demo_tools_end = demo_patched"
  "sys_tasks demo_tools_end = [\<lparr>tt_request = ApplyPatch ''p'', tt_guard = demo_guard,
     tt_phase = ToolDone (Inr (FilesChanged [''f'']))\<rparr>]"
  "sys_permits demo_tools_end = max_blocking_tools standalone"
  by (simp_all add: demo_tools_end_def call_state_def demo_tools_def init_tools_def demo_runner_def)

theorem patch_applied_as_checked_witness:
  "tools_reachable demo_host demo_runner demo_tools_end \<and>
   sys_history demo_tools_end ! 1 = (0, ApplyStarted) \<and> sys_history demo_tools_end ! 0 = (0, PatchChecked)"
proof -
  have "sys_history demo_tools_end ! 1 = (0, ApplyStarted) \<and> 1 < length (sys_history demo_tools_end)" by simp
  with patch_applied_as_checked [OF demo_tools_reachable] have "sys_history demo_tools_end ! (1 - 1) = (0, PatchChecked)"
    by blast
  then show ?thesis using demo_tools_reachable by simp
qed

theorem mutations_exclusive_witness:
  "tools_reachable demo_host demo_runner demo_tools_end \<and>
   sys_permits demo_tools_end = max_blocking_tools (rn_limits demo_runner)"
  using mutations_exclusive [OF demo_tools_reachable] demo_tools_reachable by simp

text \<open>A stop whose command does not end: it sends its request and then waits, while the patch of
  another call is long applied.\<close>

definition demo_stop_sent :: "demo_dir tool_system" where
  "demo_stop_sent = demo_tools_end\<lparr>sys_tools := demo_patched\<lparr>ts_processes := manager demo_running\<rparr>,
     sys_tasks := sys_tasks demo_tools_end @ [\<lparr>tt_request = StopCommand 7 0, tt_guard = unmanaged, tt_phase = Submitted\<rparr>]\<rparr>"

definition demo_stop_waits :: "demo_dir tool_system" where
  "demo_stop_waits = demo_stop_sent\<lparr>sys_tools := demo_patched\<lparr>ts_processes := manager demo_stopping\<rparr>,
     sys_tasks := sys_tasks demo_tools_end @ [\<lparr>tt_request = StopCommand 7 0, tt_guard = unmanaged, tt_phase = Stopping 7 0\<rparr>]\<rparr>"

lemma demo_stop_sent_reachable: "tools_reachable demo_host demo_runner demo_stop_sent"
proof -
  let ?w = "demo_tools_end\<lparr>sys_tools := (sys_tools demo_tools_end)\<lparr>ts_world := ts_world demo_patched,
      ts_processes := manager demo_running\<rparr>\<rparr>"
  have "tool_run demo_host demo_runner demo_tools ?w" by (rule tool_next [OF demo_tools_run tool_world])
  from tool_next [OF this tool_submit [of _ _ _ "StopCommand 7 0" unmanaged]]
  show ?thesis unfolding tools_reachable_def demo_tools_def by (auto simp: demo_stop_sent_def)
qed

lemma demo_stop_waits_move: "task_moves demo_host demo_runner demo_stop_sent demo_stop_waits"
proof -
  have "work demo_host demo_runner 1 demo_stop_sent = demo_stop_waits"
    by (simp add: work_def demo_stop_sent_def demo_stop_waits_def tool_work_def begin_tool_def begin_stop_def demo_stop
        set_phase_def release_def)
  then show ?thesis using move_work [of 1 demo_stop_sent demo_host demo_runner]
    by (simp add: demo_stop_sent_def runnable_def)
qed

lemma demo_stop_polled: "\<exists>p. poll (manager demo_stopping) 7 0 = Inr p \<and> poll_status p = Running"
  by (simp add: demo_stopping_def poll_def poll_state_def new_entry_def new_process_state_def lookup_update Let_def)

theorem tools_terminate_witness:
  "tools_reachable demo_host demo_runner demo_stop_sent \<and> task_moves demo_host demo_runner demo_stop_sent demo_stop_waits \<and>
   (\<nexists>sys. task_moves demo_host demo_runner demo_stop_waits sys)"
proof -
  have "0 < max_blocking_tools (rn_limits demo_runner)" by (simp add: demo_runner_def standalone_def)
  moreover have "(task_moves demo_host demo_runner ^^ 1) demo_stop_sent demo_stop_waits"
    using demo_stop_waits_move by (simp add: OO_def eq_OO)
  ultimately have "(\<nexists>sys. task_moves demo_host demo_runner demo_stop_waits sys)"
    using tools_terminate [OF demo_stop_sent_reachable, of 1 demo_stop_waits] demo_stop_polled
    by (simp add: demo_stop_waits_def)
  then show ?thesis using demo_stop_sent_reachable demo_stop_waits_move by blast
qed

theorem interleaved_applies_granted_witness:
  "(demo_files, GitApply ''p'') \<in> set (ts_git (sys_tools demo_tools_end)) \<and>
   (\<exists>t \<in> set (sys_tasks demo_tools_end). tt_request t = ApplyPatch ''p'' \<and>
      check_authority demo_host demo_files (tt_guard t) = Inr ())"
proof
  show m: "(demo_files, GitApply ''p'') \<in> set (ts_git (sys_tools demo_tools_end))"
    by (simp add: demo_patched_def)
  have "(demo_files, GitApply ''p'') \<notin> set (ts_git demo_state)" by (simp add: demo_state_def)
  from interleaved_applies_granted [OF demo_tools_run [unfolded demo_tools_def] m this]
  show "\<exists>t \<in> set (sys_tasks demo_tools_end). tt_request t = ApplyPatch ''p'' \<and>
      check_authority demo_host demo_files (tt_guard t) = Inr ()" .
qed

end
