(* ===== verification/Web_Values.thy ===== *)
theory Web_Values
  imports Kodo_Prelude Rust_Str
begin

text \<open>
  What the two clients of the control plane, the channel of the runner and the session
  client, share: the JSON values they take apart, and the libraries they call.  The source matches
  on the constructors of \<open>serde_json::Value\<close>, so these are a datatype; its accessors are the
  partial projections.  Parsing and printing JSON, URLs, identifiers, HTTP and WebSockets
  are libraries and enter as records of functions.  An error of a library is its rendered
  message.
\<close>

section \<open>JSON values\<close>

text \<open>A number is only asked for its integer value or printed, so a decimal is its rendering.
  The entries of an object are listed in the order the map iterates them.\<close>

datatype json_number = Integer int | Decimal string

datatype json =
    JNull
  | JBool bool
  | JNumber json_number
  | JString string
  | JArray "json list"
  | JObject "(string \<times> json) list"

fun json_get :: "json \<Rightarrow> string \<Rightarrow> json option" where
  "json_get (JObject kvs) key = map_of kvs key"
| "json_get _ key = None"

fun as_str :: "json \<Rightarrow> string option" where
  "as_str (JString s) = Some s"
| "as_str _ = None"

fun as_bool :: "json \<Rightarrow> bool option" where
  "as_bool (JBool b) = Some b"
| "as_bool _ = None"

fun as_i64 :: "json \<Rightarrow> int option" where
  "as_i64 (JNumber (Integer i)) = (if - (2 ^ 63) \<le> i \<and> i < 2 ^ 63 then Some i else None)"
| "as_i64 _ = None"

text \<open>The chain \<open>get(key).and_then(Value::as_str)\<close>.\<close>

definition get_str :: "json \<Rightarrow> string \<Rightarrow> string option" where
  "get_str v key = Option.bind (json_get v key) as_str"

text \<open>\<open>unwrap_or\<close>, and the index operator of a value, which is null where there is nothing.\<close>

definition unwrap_or :: "'a option \<Rightarrow> 'a \<Rightarrow> 'a" where
  "unwrap_or x d = (case x of None \<Rightarrow> d | Some y \<Rightarrow> y)"

definition json_index :: "json \<Rightarrow> string \<Rightarrow> json" where
  "json_index v key = unwrap_or (json_get v key) JNull"

definition show_int :: "int \<Rightarrow> string" where
  "show_int i = (if i < 0 then CHR ''-'' # show_nat (nat (- i)) else show_nat (nat i))"

section \<open>Libraries\<close>

datatype url_host = Domain string | Ipv4 "32 word" | Ipv6 "128 word"

text \<open>The crate \<^verbatim>\<open>url\<close>: parsing, the parts of a URL, and the setters.\<close>

record 'u url_ops =
  url_parse :: "string \<Rightarrow> string + 'u"
  url_scheme :: "'u \<Rightarrow> string"
  url_cannot_be_a_base :: "'u \<Rightarrow> bool"
  url_host :: "'u \<Rightarrow> url_host option"
  url_path :: "'u \<Rightarrow> string"
  url_query :: "'u \<Rightarrow> string option"
  url_fragment :: "'u \<Rightarrow> string option"
  url_username :: "'u \<Rightarrow> string"
  url_password :: "'u \<Rightarrow> string option"
  url_join :: "'u \<Rightarrow> string \<Rightarrow> string + 'u"
  url_set_scheme :: "'u \<Rightarrow> string \<Rightarrow> 'u option"
  url_set_path :: "'u \<Rightarrow> string \<Rightarrow> 'u"
  url_clear_query :: "'u \<Rightarrow> 'u"
  url_append_pair :: "'u \<Rightarrow> string \<Rightarrow> string \<Rightarrow> 'u"
  url_as_str :: "'u \<Rightarrow> string"

text \<open>The crate \<^verbatim>\<open>uuid\<close>.\<close>

record uuid_ops =
  uuid_parse_str :: "string \<Rightarrow> uuid option"
  uuid_to_string :: "uuid \<Rightarrow> string"

text \<open>
  HTTP: a request with its bearer token and its JSON body, and a response whose body arrives
  in chunks, each of which may fail; the body ends with the list.
\<close>

datatype http_method = Get | Post

record 'u http_request =
  http_method :: http_method
  http_url :: 'u
  http_bearer :: string
  http_json :: "json option"

record http_response =
  http_status :: u16
  http_content_length :: "u64 option"
  http_chunks :: "(string + bytes) list"

definition is_success :: "u16 \<Rightarrow> bool" where
  "is_success status \<longleftrightarrow> 200 \<le> status \<and> status < 300"

section \<open>Collecting a bounded body\<close>

text \<open>
  Both clients collect a response body chunk by chunk and give up as soon as it would exceed a
  limit.  The contract is the equations of such a loop; the conclusions are what its
  callers rely on.
\<close>

locale bounded_collect =
  fixes limit :: usize
    and transport :: "string \<Rightarrow> 'e"
    and too_large :: 'e
    and collect :: "bytes \<Rightarrow> (string + bytes) list \<Rightarrow> 'e + bytes"
  assumes collect_end: "collect body [] = Inr body"
    and collect_failed: "collect body (Inl e # rest) = Inl (transport e)"
    and collect_chunk: "collect body (Inr chunk # rest) =
      (if saturating_add (length body) (length chunk) > limit then Inl too_large
       else collect (body @ chunk) rest)"
    and limit_fits: "limit < usize_max"
begin

lemma over_limit: "saturating_add n m > limit \<longleftrightarrow> n + m > limit"
  using limit_fits by (auto simp: saturating_add_def)

lemma collect_whole:
  "collect body chunks = Inr result \<Longrightarrow> length body \<le> limit \<Longrightarrow>
   \<exists>parts. chunks = map Inr parts \<and> result = body @ concat parts \<and> length result \<le> limit"
proof (induction chunks arbitrary: body)
  case (Cons c chunks)
  show ?case
  proof (cases c)
    case (Inr chunk)
    with Cons.prems have "collect (body @ chunk) chunks = Inr result" "length (body @ chunk) \<le> limit"
      by (auto simp: collect_chunk over_limit split: if_splits)
    then obtain parts where "chunks = map Inr parts" "result = (body @ chunk) @ concat parts"
      "length result \<le> limit" using Cons.IH by blast
    with Inr show ?thesis by (intro exI [of _ "chunk # parts"]) simp
  qed (use Cons.prems in \<open>simp add: collect_failed\<close>)
qed (simp add: collect_end)

lemma collect_fits:
  "length (body @ concat parts) \<le> limit \<Longrightarrow> collect body (map Inr parts) = Inr (body @ concat parts)"
  by (induction parts arbitrary: body) (simp_all add: collect_end collect_chunk over_limit)

lemma collect_too_large:
  "length (body @ concat parts) > limit \<Longrightarrow> length body \<le> limit \<Longrightarrow>
   collect body (map Inr parts) = Inl too_large"
proof (induction parts arbitrary: body)
  case (Cons part parts)
  then show ?case by (cases "length (body @ part) \<le> limit") (simp_all add: collect_chunk over_limit)
qed simp

text \<open>A body that arrives completely is returned whole exactly if it fits.\<close>

lemma collect_exact:
  "collect [] (map Inr parts) =
     (if length (concat parts) \<le> limit then Inr (concat parts) else Inl too_large)"
  using collect_fits [of "[]" parts] collect_too_large [of "[]" parts] by auto

end

section \<open>Redaction\<close>

definition REDACTED :: string where
  "REDACTED = ''[REDACTED]''"

text \<open>Replacing a secret removes it, unless the secret shares characters with the brackets of the
  replacement or is a part of it.\<close>

lemma redaction_removes:
  assumes "secret \<noteq> []" "CHR ''['' \<notin> set secret" "CHR '']'' \<notin> set secret"
    "\<not> str_contains secret ''REDACTED''"
  shows "\<not> str_contains secret (str_replace secret REDACTED message)"
  using replace_matches_removes [OF assms, of message] assms(1)
  by (simp add: str_replace_def REDACTED_def)

end
