(* ===== verification/Runner_System.thy ===== *)
theory Runner_System
  imports Dispatcher Tool_Scheduler Web_Values
begin

text \<open>
  The dispatcher and the tool calls together (\<^verbatim>\<open>dispatcher.rs\<close> with \<^verbatim>\<open>runner.rs\<close>).  Each execution the
  dispatcher elects is a call of \<^verbatim>\<open>Tool_Scheduler\<close> with the request and the guard it was spawned with,
  and the response that is published is made from the result of that call.  Slots, elections and
  calls are numbered alike: an election allocates the next slot of the heap and spawns the
  next call.
\<close>

section \<open>Error messages\<close>

fun process_error_to_string :: "uuid_ops \<Rightarrow> process_error \<Rightarrow> string" where
  "process_error_to_string u (Start e) = ''failed to start command: '' @ io_message e"
| "process_error_to_string u (Unknown process_id) = ''unknown process: '' @ uuid_to_string u process_id"
| "process_error_to_string u (SupervisorStopped process_id) =
     ''process supervisor for '' @ uuid_to_string u process_id @ '' stopped unexpectedly''"
| "process_error_to_string u (Capacity limit) =
     ''runner already retains the maximum of '' @ show_nat limit @ '' processes''"
| "process_error_to_string u (ProcessAuthority m) = m"

fun runner_error_to_string :: "uuid_ops \<Rightarrow> runner_error \<Rightarrow> string" where
  "runner_error_to_string u (WorkspaceFailed e) = workspace_error_to_string e"
| "runner_error_to_string u (GitIo e) = ''failed to run Git: '' @ io_message e"
| "runner_error_to_string u (Git m) = ''Git command failed: '' @ m"
| "runner_error_to_string u (Patch m) = ''patch is invalid: '' @ m"
| "runner_error_to_string u (Replace m) = ''text replacement is invalid: '' @ m"
| "runner_error_to_string u (NonUtf8Path p) = ''path is not valid UTF-8: '' @ from_utf8_lossy p"
| "runner_error_to_string u (OutputLimit m) = m"
| "runner_error_to_string u (Task m) = ''runner task failed: '' @ m"
| "runner_error_to_string u (AuthorityFailed m) = m"
| "runner_error_to_string u (ProcessFailed e) = process_error_to_string u e"

section \<open>The system\<close>

text \<open>\<open>rs_requests\<close> records, for the statements only, the request of each election.\<close>

record 'w runner_system =
  rs_dispatch :: dispatch_world
  rs_tools :: "'w tool_system"
  rs_requests :: "request_envelope list"

definition submit_call :: "execution option \<Rightarrow> 'w tool_system \<Rightarrow> 'w tool_system" where
  "submit_call ex sys =
     (case ex of
        None \<Rightarrow> sys
      | Some t \<Rightarrow> sys\<lparr>sys_tasks := sys_tasks sys @
          [\<lparr>tt_request = task_request t, tt_guard = task_authority t, tt_phase = Submitted\<rparr>]\<rparr>)"

definition receive ::
  "wire_codec \<Rightarrow> request_envelope \<Rightarrow> 'w runner_system \<Rightarrow> 'w runner_system \<times> dispatch_reply" where
  "receive cx request sys =
     (let w = rs_dispatch sys;
          (_, _, ex) = dispatch_connected cx (wclock w) (disp w) request;
          (w', reply) = arrive cx w request
      in (sys\<lparr>rs_dispatch := w', rs_tools := submit_call ex (rs_tools sys),
             rs_requests := rs_requests sys @ (case ex of None \<Rightarrow> [] | Some _ \<Rightarrow> [request])\<rparr>, reply))"

text \<open>The response of an execution whose call has returned.\<close>

definition call_response ::
  "wire_codec \<Rightarrow> uuid_ops \<Rightarrow> usize \<Rightarrow> uuid \<Rightarrow> runner_error + tool_result \<Rightarrow> string" where
  "call_response cx u error_limit request_id result =
     execution_response cx error_limit request_id (map_sum (runner_error_to_string u) id result)"

definition publish_call :: "wire_codec \<Rightarrow> uuid_ops \<Rightarrow> nat \<Rightarrow> runner_error + tool_result \<Rightarrow> dispatch_world \<Rightarrow> dispatch_world" where
  "publish_call cx u i result w =
     (let ex = executions w ! i;
          response = call_response cx u (max_error_bytes (disp w)) (task_request_id ex) result
      in w\<lparr>disp := publish_response (disp w) (task_slot ex) response,
           executions := (executions w)[i := ex\<lparr>task_response := Some response\<rparr>]\<rparr>)"

text \<open>
  Steps of the tools and of the dispatcher interleave.  A step of the dispatcher that leaves all
  slots as they are is none of the two that concern calls: notifying, accounting, polling or
  dropping a waiter, a lease, the clock, a request that elects nothing.
\<close>

inductive runner_step ::
  "wire_codec \<Rightarrow> uuid_ops \<Rightarrow> 'w tool_host \<Rightarrow> runner \<Rightarrow> 'w runner_system \<Rightarrow> 'w runner_system \<Rightarrow> bool" for cx u h r where
  runner_receive: "receive cx request sys = (sys', reply) \<Longrightarrow> runner_step cx u h r sys sys'"
| runner_tools: "task_moves h r (rs_tools sys) tools \<Longrightarrow> runner_step cx u h r sys (sys\<lparr>rs_tools := tools\<rparr>)"
| runner_world: "runner_step cx u h r sys (sys\<lparr>rs_tools := (rs_tools sys)\<lparr>sys_tools :=
    (sys_tools (rs_tools sys))\<lparr>ts_world := w, ts_processes := m\<rparr>\<rparr>\<rparr>)"
| runner_publish: "i < length (executions (rs_dispatch sys)) \<Longrightarrow> ex = executions (rs_dispatch sys) ! i \<Longrightarrow>
    task_response ex = None \<Longrightarrow> tt_phase (sys_tasks (rs_tools sys) ! task_slot ex) = ToolDone result \<Longrightarrow>
    runner_step cx u h r sys (sys\<lparr>rs_dispatch := publish_call cx u i result (rs_dispatch sys)\<rparr>)"
| runner_quiet: "dispatch_step cx (rs_dispatch sys) w \<Longrightarrow>
    slot_heap (disp w) = slot_heap (disp (rs_dispatch sys)) \<Longrightarrow>
    runner_step cx u h r sys (sys\<lparr>rs_dispatch := w\<rparr>)"

inductive runner_run ::
  "wire_codec \<Rightarrow> uuid_ops \<Rightarrow> 'w tool_host \<Rightarrow> runner \<Rightarrow> 'w runner_system \<Rightarrow> 'w runner_system \<Rightarrow> bool" for cx u h r where
  runner_refl: "runner_run cx u h r sys sys"
| runner_next: "runner_run cx u h r sys sys' \<Longrightarrow> runner_step cx u h r sys' sys'' \<Longrightarrow> runner_run cx u h r sys sys''"

definition init_runner :: "runner \<Rightarrow> 'w tool_state \<Rightarrow> 'w runner_system" where
  "init_runner r st =
     \<lparr>rs_dispatch = initial_world (rn_limits r), rs_tools = init_tools r st, rs_requests = []\<rparr>"

section \<open>Both components keep their own histories\<close>

lemma publish_call_step:
  assumes "i < length (executions w)" "task_response (executions w ! i) = None"
  shows "dispatch_step cx w (publish_call cx u i result w)"
  unfolding publish_call_def Let_def call_response_def
  by (rule step_task, rule task_publish) (use assms in simp_all)

lemma receive_facts:
  assumes "receive cx request sys = (sys', reply)"
  obtains d ex where
    "dispatch_connected cx (wclock (rs_dispatch sys)) (disp (rs_dispatch sys)) request = (d, reply, ex)"
    "arrive cx (rs_dispatch sys) request = (rs_dispatch sys', reply)"
    "rs_tools sys' = submit_call ex (rs_tools sys)"
    "rs_requests sys' = rs_requests sys @ (case ex of None \<Rightarrow> [] | Some _ \<Rightarrow> [request])"
  using assms
  by (cases "dispatch_connected cx (wclock (rs_dispatch sys)) (disp (rs_dispatch sys)) request")
     (auto simp: receive_def arrive_def Let_def)

lemma submit_call_run: "tool_run h r tools0 tools \<Longrightarrow> tool_run h r tools0 (submit_call ex tools)"
  by (auto simp: submit_call_def intro: tool_next tool_submit split: option.split)

lemma runner_step_parts:
  assumes "runner_step cx u h r sys sys'"
  shows "dispatch_run cx (rs_dispatch sys) (rs_dispatch sys') \<and> tool_run h r (rs_tools sys) (rs_tools sys')"
  using assms
proof cases
  case (runner_receive request reply)
  then obtain ex where "arrive cx (rs_dispatch sys) request = (rs_dispatch sys', reply)"
    "rs_tools sys' = submit_call ex (rs_tools sys)" by (elim receive_facts) blast
  then show ?thesis by (simp add: dispatch_run_single step_arrive submit_call_run tool_refl)
next
  case (runner_publish i ex result)
  then show ?thesis by (simp add: dispatch_run_single publish_call_step tool_refl)
qed (auto intro: dispatch_refl tool_refl dispatch_run_single tool_next tool_moves tool_world)

lemma tool_run_trans: "tool_run h r v x \<Longrightarrow> tool_run h r w v \<Longrightarrow> tool_run h r w x"
  by (induction rule: tool_run.induct) (auto intro: tool_next)

lemma runner_run_parts:
  "runner_run cx u h r sys sys' \<Longrightarrow>
   dispatch_run cx (rs_dispatch sys) (rs_dispatch sys') \<and> tool_run h r (rs_tools sys) (rs_tools sys')"
proof (induction rule: runner_run.induct)
  case (runner_next sys sys' sys'')
  with runner_step_parts [OF runner_next(2)] show ?case
    using dispatch_run_trans tool_run_trans by blast
qed (simp add: dispatch_refl tool_refl)

section \<open>Slots, elections and calls are numbered alike\<close>

definition made_for :: "authority_guard \<times> tool_request \<Rightarrow> request_envelope \<Rightarrow> bool" where
  "made_for call request \<longleftrightarrow>
     snd call = req_request request \<and>
     (\<exists>lease. req_authority request = Some lease \<and> guard_registry (fst call) \<and>
        guard_session_id (fst call) = lease_session_id lease \<and>
        guard_ownership_epoch (fst call) = lease_ownership_epoch lease)"

definition aligned :: "wire_codec \<Rightarrow> 'w runner_system \<Rightarrow> bool" where
  "aligned cx sys \<longleftrightarrow>
     length (slot_heap (disp (rs_dispatch sys))) = length (rs_requests sys) \<and>
     elections (rs_dispatch sys) =
       map (\<lambda>q. (req_request_id q, envelope_fingerprint cx q)) (rs_requests sys) \<and>
     list_all2 made_for (call_list (rs_tools sys)) (rs_requests sys) \<and>
     (\<forall>(request_id, sid) \<in> flight (rs_dispatch sys).
        sid < length (rs_requests sys) \<and> request_id = req_request_id (rs_requests sys ! sid))"

definition answered :: "wire_codec \<Rightarrow> uuid_ops \<Rightarrow> 'w runner_system \<Rightarrow> bool" where
  "answered cx u sys \<longleftrightarrow>
     (\<forall>k < length (rs_requests sys). \<forall>response.
        slot_response (slot_heap (disp (rs_dispatch sys)) ! k) = Some response \<longrightarrow>
        (\<exists>result. tt_phase (sys_tasks (rs_tools sys) ! k) = ToolDone result \<and>
           response = call_response cx u (max_error_bytes (disp (rs_dispatch sys)))
             (req_request_id (rs_requests sys ! k)) result))"

lemma quiet_step:
  "dispatch_step cx w v \<Longrightarrow> slot_heap (disp v) = slot_heap (disp w) \<Longrightarrow>
   elections v = elections w \<and> flight v \<subseteq> flight w"
proof (induction rule: dispatch_step_induct)
  case (step_arrive w request v reply)
  obtain d ex where d: "dispatch_connected cx (wclock w) (disp w) request = (d, reply, ex)"
    using step_arrive by (cases "dispatch_connected cx (wclock w) (disp w) request") (auto simp: arrive_def)
  note v = step_arrive(1) [unfolded arrive_def d, simplified, symmetric]
  from d show ?case
    by (cases rule: dispatch_cases)
       (use v step_arrive(2) in \<open>auto simp: flight_def elected_dispatcher_def Let_def\<close>)
next
  case (step_publish i w ex response result)
  then have "ex \<in> set (executions w)" by simp
  then show ?case
    using set_update_subset_insert [of "executions w" i "ex\<lparr>task_response := Some response\<rparr>"]
    by (auto simp: flight_def)
next
  case (step_notify i w ex response)
  then have "ex \<in> set (executions w)" by simp
  then show ?case
    using set_update_subset_insert [of "executions w" i "ex\<lparr>task_notified := True\<rparr>"]
    by (auto simp: flight_def)
qed (auto simp: flight_def)

lemma submit_call_list:
  "call_list (submit_call ex tools) =
     call_list tools @ (case ex of None \<Rightarrow> [] | Some t \<Rightarrow> [(task_authority t, task_request t)])"
  by (simp add: submit_call_def split: option.split)

lemma spawned_made_for:
  assumes "dispatch_connected cx t d request = (d', reply, Some ex)"
  shows "made_for (task_authority ex, task_request ex) request"
  using dispatch_spawns [OF assms] by (auto simp: made_for_def elim!: grant_InrE)

lemma receive_aligned:
  assumes "receive cx request sys = (sys', reply)" "aligned cx sys"
  shows "aligned cx sys'"
proof -
  let ?w = "rs_dispatch sys"
  obtain d ex where d: "dispatch_connected cx (wclock ?w) (disp ?w) request = (d, reply, ex)"
    and a: "arrive cx ?w request = (rs_dispatch sys', reply)" and t: "rs_tools sys' = submit_call ex (rs_tools sys)"
    and q: "rs_requests sys' = rs_requests sys @ (case ex of None \<Rightarrow> [] | Some _ \<Rightarrow> [request])"
    by (rule receive_facts [OF assms(1)])
  note v = a [unfolded arrive_def d, simplified, symmetric]
  show ?thesis
  proof (cases ex)
    case None
    with d have "slot_heap d = slot_heap (disp ?w)" by (cases rule: dispatch_cases) auto
    then show ?thesis using assms(2) None v q t
      by (auto simp: aligned_def submit_call_list flight_def split: dispatch_reply.splits)
  next
    case (Some t)
    with d obtain g r where e: "t = spawn_execution request g (length (slot_heap (disp ?w)))"
      "d = elected_dispatcher (disp ?w) r (envelope_fingerprint cx request) (req_request_id request)"
      "reply = AwaitSlot (length (slot_heap (disp ?w)))"
      by (cases rule: dispatch_cases) auto
    have fl: "flight (rs_dispatch sys') = insert (req_request_id request, length (rs_requests sys)) (flight ?w)"
      using assms(2) unfolding v e(1) Some by (auto simp: flight_def aligned_def spawn_execution_def)
    have "made_for (task_authority t, task_request t) request" using spawned_made_for d Some by blast
    then have "list_all2 made_for (call_list (rs_tools sys')) (rs_requests sys')"
      using assms(2) \<open>rs_tools sys' = _\<close> q Some by (simp add: aligned_def submit_call_list list_all2_appendI)
    moreover have "length (slot_heap (disp (rs_dispatch sys'))) = length (rs_requests sys')"
      "elections (rs_dispatch sys') = map (\<lambda>q. (req_request_id q, envelope_fingerprint cx q)) (rs_requests sys')"
      using assms(2) v q Some e
      by (simp_all add: aligned_def elected_dispatcher_def Let_def spawn_execution_def)
    moreover have "\<forall>(request_id, sid) \<in> flight (rs_dispatch sys').
        sid < length (rs_requests sys') \<and> request_id = req_request_id (rs_requests sys' ! sid)"
      using assms(2) q Some unfolding fl by (auto simp: aligned_def nth_append)
    ultimately show ?thesis unfolding aligned_def by blast
  qed
qed

lemma publish_call_flight: 
  assumes "i < length (executions w)"
  shows "flight (publish_call cx u i result w) = flight w"
proof -
  have "map (\<lambda>ex. (task_request_id ex, task_slot ex)) (executions (publish_call cx u i result w)) =
      map (\<lambda>ex. (task_request_id ex, task_slot ex)) (executions w)"
    by (simp add: publish_call_def Let_def map_project_update [OF assms])
  then show ?thesis by (simp only: flight_def set_map [symmetric])
qed

lemma runner_step_aligned:
  assumes "runner_step cx u h r sys sys'" "aligned cx sys"
  shows "aligned cx sys'"
  using assms(1)
proof cases
  case (runner_receive request reply)
  then show ?thesis using receive_aligned assms(2) by blast
next
  case (runner_tools tools)
  then show ?thesis using assms(2) by (simp add: aligned_def task_moves_call_list)
next
  case (runner_world w m)
  then show ?thesis using assms(2) by (simp add: aligned_def)
next
  case (runner_publish i ex result)
  then have "flight (rs_dispatch sys') = flight (rs_dispatch sys)" by (simp add: publish_call_flight)
  then show ?thesis using assms(2) runner_publish(1)
    by (simp add: aligned_def publish_call_def Let_def publish_response_def)
next
  case (runner_quiet w)
  with quiet_step [OF runner_quiet(2,3)] show ?thesis using assms(2) by (auto simp: aligned_def)
qed

section \<open>What is published is what the call returned\<close>

lemma task_moves_done:
  assumes "task_moves h r tools tools'" "k < length (sys_tasks tools)"
    and "tt_phase (sys_tasks tools ! k) = ToolDone res"
  shows "tt_phase (sys_tasks tools' ! k) = ToolDone res"
proof -
  have phases: "task_phases tools' = (task_phases tools)[i := ph] \<Longrightarrow> i \<noteq> k \<Longrightarrow> ?thesis" for i ph
    using assms(2,3) by (metis length_list_update length_map nth_list_update_neq nth_map)
  have "\<exists>i ph. task_phases tools' = (task_phases tools)[i := ph] \<and> i \<noteq> k" using assms(1)
  proof cases
    case (move_work i)
    obtain st ph evs where "tool_work h r (sys_tools tools) (sys_tasks tools ! i) = ((st, ph), evs)"
      by (metis prod.collapse)
    then have "task_phases tools' = (task_phases tools)[i := ph]" by (simp add: move_work(1) work_def)
    then show ?thesis using move_work(3) assms(3) by (auto simp: runnable_def)
  qed (use assms(3) in \<open>auto intro!: exI\<close>)
  with phases show ?thesis by blast
qed

lemma submit_call_tasks:
  "sys_tasks (submit_call ex tools) = sys_tasks tools @
     (case ex of None \<Rightarrow> [] | Some t \<Rightarrow> [\<lparr>tt_request = task_request t, tt_guard = task_authority t, tt_phase = Submitted\<rparr>])"
  by (simp add: submit_call_def split: option.split)

lemma aligned_length: "aligned cx sys \<Longrightarrow> length (sys_tasks (rs_tools sys)) = length (rs_requests sys)"
  unfolding aligned_def using list_all2_lengthD call_list_simps(7) by metis

lemma arrive_heap:
  assumes "arrive cx w request = (v, reply)"
  shows "slot_heap (disp v) = slot_heap (disp w) \<or>
    (\<exists>fp. slot_heap (disp v) = slot_heap (disp w) @ [\<lparr>slot_fingerprint = fp, slot_response = None\<rparr>])"
proof -
  obtain d ex where d: "dispatch_connected cx (wclock w) (disp w) request = (d, reply, ex)"
    using assms by (cases "dispatch_connected cx (wclock w) (disp w) request") (auto simp: arrive_def)
  note v = assms [unfolded arrive_def d, simplified, symmetric]
  from d show ?thesis
    by (cases rule: dispatch_cases) (use v in \<open>auto simp: elected_dispatcher_def Let_def\<close>)
qed

lemma receive_answered:
  assumes "receive cx request sys = (sys', reply)" "aligned cx sys" "answered cx u sys"
  shows "answered cx u sys'"
proof -
  obtain d ex where a: "arrive cx (rs_dispatch sys) request = (rs_dispatch sys', reply)"
    and t: "rs_tools sys' = submit_call ex (rs_tools sys)"
    and q: "rs_requests sys' = rs_requests sys @ (case ex of None \<Rightarrow> [] | Some _ \<Rightarrow> [request])"
    by (rule receive_facts [OF assms(1)])
  have limit: "max_error_bytes (disp (rs_dispatch sys')) = max_error_bytes (disp (rs_dispatch sys))"
    using step_limits [OF step_arrive [OF a]] by simp
  have lens: "length (slot_heap (disp (rs_dispatch sys))) = length (rs_requests sys)"
    "length (sys_tasks (rs_tools sys)) = length (rs_requests sys)"
    "length (slot_heap (disp (rs_dispatch sys'))) = length (rs_requests sys')"
    using assms(2) aligned_length receive_aligned [OF assms(1,2)] by (auto simp: aligned_def)
  show ?thesis unfolding answered_def
  proof (intro allI impI)
    fix k response assume k: "k < length (rs_requests sys')"
      "slot_response (slot_heap (disp (rs_dispatch sys')) ! k) = Some response"
    have old: "k < length (rs_requests sys)"
      "slot_response (slot_heap (disp (rs_dispatch sys)) ! k) = Some response"
      using arrive_heap [OF a] k lens(1,3) by (auto simp: nth_append less_Suc_eq split: if_splits)
    then show "\<exists>result. tt_phase (sys_tasks (rs_tools sys') ! k) = ToolDone result \<and>
        response = call_response cx u (max_error_bytes (disp (rs_dispatch sys')))
          (req_request_id (rs_requests sys' ! k)) result"
      using assms(3) lens(2) by (auto simp: answered_def limit t q submit_call_tasks nth_append)
  qed
qed

lemma publish_answered:
  assumes "aligned cx sys" "answered cx u sys" "i < length (executions (rs_dispatch sys))"
    and "ex = executions (rs_dispatch sys) ! i" "tt_phase (sys_tasks (rs_tools sys) ! task_slot ex) = ToolDone result"
  shows "answered cx u (sys\<lparr>rs_dispatch := publish_call cx u i result (rs_dispatch sys)\<rparr>)"
proof -
  have "(task_request_id ex, task_slot ex) \<in> flight (rs_dispatch sys)"
    using assms(3,4) by (force simp: flight_def)
  then have id: "task_slot ex < length (rs_requests sys)" "task_request_id ex = req_request_id (rs_requests sys ! task_slot ex)"
    and len: "length (slot_heap (disp (rs_dispatch sys))) = length (rs_requests sys)"
    using assms(1) by (auto simp: aligned_def)
  show ?thesis unfolding answered_def
  proof (intro allI impI)
    let ?sys = "sys\<lparr>rs_dispatch := publish_call cx u i result (rs_dispatch sys)\<rparr>"
    fix k response assume k: "k < length (rs_requests ?sys)"
      "slot_response (slot_heap (disp (rs_dispatch ?sys)) ! k) = Some response"
    show "\<exists>result. tt_phase (sys_tasks (rs_tools ?sys) ! k) = ToolDone result \<and>
        response = call_response cx u (max_error_bytes (disp (rs_dispatch ?sys)))
          (req_request_id (rs_requests ?sys ! k)) result"
    proof (cases "k = task_slot ex")
      case True
      with k id len assms(4,5) show ?thesis by (simp add: publish_call_def Let_def publish_response_def)
    next
      case False
      with k assms(2,4) show ?thesis
        by (simp add: publish_call_def Let_def publish_response_def answered_def)
    qed
  qed
qed

lemma runner_step_answered:
  assumes "runner_step cx u h r sys sys'" "aligned cx sys" "answered cx u sys"
  shows "answered cx u sys'"
  using assms(1)
proof cases
  case (runner_receive request reply)
  then show ?thesis using receive_answered assms(2,3) by blast
next
  case (runner_tools tools)
  then show ?thesis
    using assms(3) aligned_length [OF assms(2)] task_moves_done [OF runner_tools(2)]
    by (fastforce simp: answered_def)
next
  case (runner_world w m)
  then show ?thesis using assms(3) by (simp add: answered_def)
next
  case (runner_publish i ex result)
  then show ?thesis using publish_answered [OF assms(2,3)] by simp
next
  case (runner_quiet w)
  then show ?thesis using assms(3) step_limits [OF runner_quiet(2)] by (simp add: answered_def)
qed

definition runner_reachable ::
  "wire_codec \<Rightarrow> uuid_ops \<Rightarrow> 'w tool_host \<Rightarrow> runner \<Rightarrow> 'w tool_state \<Rightarrow> 'w runner_system \<Rightarrow> bool" where
  "runner_reachable cx u h r st sys \<longleftrightarrow> runner_run cx u h r (init_runner r st) sys"

lemma runner_run_inv:
  "runner_run cx u h r sys sys' \<Longrightarrow> aligned cx sys \<Longrightarrow> answered cx u sys \<Longrightarrow>
   aligned cx sys' \<and> answered cx u sys'"
  by (induction rule: runner_run.induct) (auto intro: runner_step_aligned runner_step_answered)

lemma runner_reachable_inv:
  assumes "runner_reachable cx u h r st sys"
  shows "aligned cx sys" "answered cx u sys" "dispatch_reachable cx (rn_limits r) (rs_dispatch sys)"
    "tool_run h r (init_tools r st) (rs_tools sys)" "tools_reachable h r (rs_tools sys)"
proof -
  have "aligned cx (init_runner r st)" "answered cx u (init_runner r st)"
    by (simp_all add: aligned_def answered_def init_runner_def initial_world_def new_dispatcher_def
        init_tools_def call_list_def flight_def)
  with assms show "aligned cx sys" "answered cx u sys"
    unfolding runner_reachable_def using runner_run_inv by blast+
  have "dispatch_run cx (rs_dispatch (init_runner r st)) (rs_dispatch sys) \<and>
      tool_run h r (rs_tools (init_runner r st)) (rs_tools sys)"
    using assms unfolding runner_reachable_def by (rule runner_run_parts)
  then show "dispatch_reachable cx (rn_limits r) (rs_dispatch sys)" "tool_run h r (init_tools r st) (rs_tools sys)"
    by (simp_all add: init_runner_def dispatch_reachable_def)
  then show "tools_reachable h r (rs_tools sys)" unfolding tools_reachable_def by blast
qed

section \<open>A published response reaches its waiters\<close>

abbreviation waiter_at :: "'w runner_system \<Rightarrow> nat \<Rightarrow> slot_waiter" where
  "waiter_at sys i \<equiv> waiters (rs_dispatch sys) ! i"

definition is_served ::
  "wire_codec \<Rightarrow> uuid_ops \<Rightarrow> 'w tool_host \<Rightarrow> runner \<Rightarrow> 'w runner_system \<Rightarrow> nat \<Rightarrow> string \<Rightarrow> bool" where
  "is_served cx u h r sys i response \<longleftrightarrow>
     (\<exists>sys'. runner_run cx u h r sys sys' \<and> i < length (waiters (rs_dispatch sys')) \<and>
        waiter_phase (waiter_at sys' i) = WaitReturned response)"

lemma runner_run_trans: "runner_run cx u h r v x \<Longrightarrow> runner_run cx u h r w v \<Longrightarrow> runner_run cx u h r w x"
  by (induction rule: runner_run.induct) (auto intro: runner_next)

lemma is_served_before:
  "runner_run cx u h r sys sys' \<Longrightarrow> is_served cx u h r sys' i response \<Longrightarrow> is_served cx u h r sys i response"
  unfolding is_served_def using runner_run_trans by blast

text \<open>Polling a waiter.\<close>

definition poll_waiter :: "nat \<Rightarrow> dispatch_world \<Rightarrow> dispatch_world" where
  "poll_waiter i w = w\<lparr>waiters := (waiters w)[i := (waiters w ! i)\<lparr>waiter_phase :=
     wait_for_response (slot_heap (disp w) ! waiter_slot (waiters w ! i)) (waiter_phase (waiters w ! i))\<rparr>]\<rparr>"

lemma poll_waiter_run:
  assumes "i < length (waiters (rs_dispatch sys))"
  shows "runner_run cx u h r sys (sys\<lparr>rs_dispatch := poll_waiter i (rs_dispatch sys)\<rparr>)"
  unfolding poll_waiter_def
  by (rule runner_next [OF runner_refl], rule runner_quiet, rule step_task, rule task_wait) (use assms in simp_all)

lemma quiet_tasks_runner:
  "(quiet_task_step cx)\<^sup>*\<^sup>* (rs_dispatch sys) w \<Longrightarrow> runner_run cx u h r sys (sys\<lparr>rs_dispatch := w\<rparr>)"
proof (induction rule: rtranclp_induct)
  case base
  show ?case using runner_refl [of cx u h r sys] by simp
next
  case (step y z)
  then have "runner_step cx u h r (sys\<lparr>rs_dispatch := y\<rparr>) (sys\<lparr>rs_dispatch := z\<rparr>)"
    using runner_quiet [of cx "sys\<lparr>rs_dispatch := y\<rparr>" z u h r] step_task by (simp add: quiet_task_step_def)
  with step(3) show ?case by (rule runner_next)
qed

lemma tool_moves_run:
  "(task_moves h r)\<^sup>*\<^sup>* (rs_tools sys) tools \<Longrightarrow> runner_run cx u h r sys (sys\<lparr>rs_tools := tools\<rparr>)"
proof (induction rule: rtranclp_induct)
  case base
  show ?case using runner_refl [of cx u h r sys] by simp
next
  case (step y z)
  then show ?case using runner_tools [of h r "sys\<lparr>rs_tools := y\<rparr>" z cx u] by (auto intro: runner_next)
qed

text \<open>Left to themselves the calls finish, and so does the one that a slot waits for.\<close>

lemma pending_call_completes:
  assumes "runner_reachable cx u h r st sys" "0 < max_blocking_tools (rn_limits r)"
    and k: "k < length (slot_heap (disp (rs_dispatch sys)))" "slot_response (slot_heap (disp (rs_dispatch sys)) ! k) = None"
    and stop: "\<nexists>process_id after. tt_request (sys_tasks (rs_tools sys) ! k) = StopCommand process_id after"
  obtains j tools result where "j < length (executions (rs_dispatch sys))" "task_slot (executions (rs_dispatch sys) ! j) = k"
    "task_response (executions (rs_dispatch sys) ! j) = None" "(task_moves h r)\<^sup>*\<^sup>* (rs_tools sys) tools"
    "tt_phase (sys_tasks tools ! k) = ToolDone result"
proof -
  note inv = runner_reachable_inv [OF assms(1)]
  note winv = reachable_world_inv [OF inv(3)] and sinv = tools_reachable_inv [OF inv(5)]
  obtain j where j: "j < length (executions (rs_dispatch sys))" "task_slot (executions (rs_dispatch sys) ! j) = k"
    "task_response (executions (rs_dispatch sys) ! j) = None"
    using winv(2) k unfolding pending_part_def by (metis in_set_conv_nth)
  obtain tools where tools: "(task_moves h r)\<^sup>*\<^sup>* (rs_tools sys) tools" "returned_or_waiting tools"
    using moves_to_done [OF sinv assms(2)] by blast
  have calls: "call_list tools = call_list (rs_tools sys)" using tools(1)
    by (induction rule: rtranclp_induct) (auto dest: task_moves_call_list)
  have len: "length (sys_tasks tools) = length (sys_tasks (rs_tools sys))"
    using arg_cong [OF calls, of length] by simp
  have kt: "k < length (sys_tasks tools)"
    using k inv(1) aligned_length [OF inv(1)] len by (simp add: aligned_def)
  have same: "tt_request (sys_tasks tools ! k) = tt_request (sys_tasks (rs_tools sys) ! k)"
    using arg_cong [OF calls, of "\<lambda>xs. snd (xs ! k)"] kt len by (simp add: call_list_def)
  obtain result where "tt_phase (sys_tasks tools ! k) = ToolDone result"
    using tools(2) kt same stop unfolding returned_or_waiting_def awaits_command_def by (metis nth_mem)
  with j tools(1) that show ?thesis by blast
qed

lemma publish_call_finds:
  assumes "world_inv w" "j < length (executions w)" "task_response (executions w ! j) = None"
    and "i < length (waiters w)" "waiter_phase (waiters w ! i) \<noteq> WaitDropped"
    and "waiter_slot (waiters w ! i) = task_slot (executions w ! j)" "task_slot (executions w ! j) < length (slot_heap (disp w))"
  shows "finds_response cx (publish_call cx u j result w) i
    (call_response cx u (max_error_bytes (disp w)) (task_request_id (executions w ! j)) result)"
  using world_inv_step [OF publish_call_step [OF assms(2,3)] assms(1)]
  by (rule published_finds) (use assms(4-) in \<open>simp_all add: publish_call_def Let_def publish_response_def\<close>)

lemma finds_served: "finds_response cx (rs_dispatch sys) i response \<Longrightarrow> is_served cx u h r sys i response"
  unfolding finds_response_def is_served_def using quiet_tasks_runner by fastforce

lemma at_most_once_index:
  assumes "changes_by a H \<le> 1" "j < length H" "k < length H" "H ! j = (a, x)" "H ! k = (a, y)"
    and "x \<in> {ApplyStarted, TextReplaced}" "y \<in> {ApplyStarted, TextReplaced}"
  shows "j = k"
proof -
  let ?S = "{i. i < length H \<and> (case H ! i of (j, e) \<Rightarrow> j = a \<and> e \<in> {ApplyStarted, TextReplaced})}"
  have "card ?S \<le> 1" using assms(1) by (simp add: changes_by_def length_filter_conv_card)
  moreover have "finite ?S" "j \<in> ?S" "k \<in> ?S" using assms(2-) by auto
  ultimately show ?thesis using card_le_Suc0_iff_eq [of ?S] by simp
qed

section \<open>Properties\<close>

text \<open>C3.  End to end, a request changes the worktree at most once.  Whatever is received, retried,
  evicted or disconnected, and however calls interleave: if two starts of \<^verbatim>\<open>git apply\<close> or
  replacements of text belong to requests with the same identifier, they are one and the same event, and
  every such event belongs to a request that was received.\<close>

theorem request_changes_once:
  assumes "runner_reachable cx u h r st sys" "H = sys_history (rs_tools sys)"
    and "j < length H" "H ! j = (a, x)" "x \<in> {ApplyStarted, TextReplaced}"
    and "k < length H" "H ! k = (b, y)" "y \<in> {ApplyStarted, TextReplaced}"
    and "req_request_id (rs_requests sys ! a) = req_request_id (rs_requests sys ! b)"
  shows "j = k \<and> a < length (rs_requests sys)"
proof -
  note inv = runner_reachable_inv [OF assms(1)]
  have H: "history_ok (rs_tools sys)" using tools_reachable_inv [OF inv(5)] by (simp add: scheduler_inv_def)
  have ab: "a < length (rs_requests sys)" "b < length (rs_requests sys)"
    using history_known [OF H] assms aligned_length [OF inv(1)] by metis+
  have "map fst (elections (rs_dispatch sys)) = map req_request_id (rs_requests sys)"
    using inv(1) by (simp add: aligned_def)
  moreover have "distinct (map fst (elections (rs_dispatch sys)))"
    using reachable_world_inv(1) [OF inv(3)] by (simp add: world_inv_def execution_part_def)
  ultimately have "a = b" using ab assms(9) by (metis length_map nth_eq_iff_index_eq nth_map)
  with at_most_once_index [OF history_ok_once [OF H]] assms ab show ?thesis by metis
qed

text \<open>C9.  What a client receives is what its request did: a waiter that has returned holds the
  serialized result of the one call that was made for the request it joined, under that
  request's identifier; the call ran the tool of the request, with a guard for the lease it came with.\<close>

theorem returned_response_is_result:
  assumes "runner_reachable cx u h r st sys" "i < length (waiters (rs_dispatch sys))"
    and "waiter_phase (waiter_at sys i) = WaitReturned response" "k = waiter_slot (waiter_at sys i)"
  shows "\<exists>result. tt_phase (sys_tasks (rs_tools sys) ! k) = ToolDone result \<and>
    response = call_response cx u (max_error_bytes (disp (rs_dispatch sys))) (req_request_id (rs_requests sys ! k)) result \<and>
    tt_request (sys_tasks (rs_tools sys) ! k) = req_request (rs_requests sys ! k) \<and>
    (\<exists>lease. req_authority (rs_requests sys ! k) = Some lease \<and>
       guard_session_id (tt_guard (sys_tasks (rs_tools sys) ! k)) = lease_session_id lease \<and>
       guard_ownership_epoch (tt_guard (sys_tasks (rs_tools sys) ! k)) = lease_ownership_epoch lease)"
proof -
  note inv = runner_reachable_inv [OF assms(1)]
  have "waiter_ok (slot_heap (disp (rs_dispatch sys))) (unnotified (rs_dispatch sys)) (waiter_at sys i)"
    using reachable_world_inv(1) [OF inv(3)] assms(2) by (simp add: world_inv_def waiter_part_def)
  with assms(3,4) inv(1) have k: "k < length (rs_requests sys)"
    and s: "slot_response (slot_heap (disp (rs_dispatch sys)) ! k) = Some response"
    by (auto simp: waiter_ok_def aligned_def)
  have "made_for (call_list (rs_tools sys) ! k) (rs_requests sys ! k)"
    using inv(1) k by (simp add: aligned_def list_all2_conv_all_nth)
  then have "made_for (tt_guard (sys_tasks (rs_tools sys) ! k), tt_request (sys_tasks (rs_tools sys) ! k)) (rs_requests sys ! k)"
    using k aligned_length [OF inv(1)] by (simp add: call_list_def)
  with inv(2) k s show ?thesis by (auto simp: answered_def made_for_def)
qed

text \<open>Every request that waits is answered by what the system itself can do: from any reachable
  state the calls, left to themselves, finish, and a waiter that has not disconnected then gets the
  response of its request, except while a requested stop still waits for its command to end.\<close>

theorem waiting_request_answered:
  assumes "runner_reachable cx u h r st sys" "0 < max_blocking_tools (rn_limits r)"
    and "i < length (waiters (rs_dispatch sys))" "waiter_phase (waiter_at sys i) \<noteq> WaitDropped"
    and "\<nexists>process_id after. tt_request (sys_tasks (rs_tools sys) ! waiter_slot (waiter_at sys i)) = StopCommand process_id after"
  shows "\<exists>response. is_served cx u h r sys i response"
proof -
  let ?w = "rs_dispatch sys" and ?k = "waiter_slot (waiter_at sys i)"
  note winv = reachable_world_inv [OF runner_reachable_inv(3) [OF assms(1)]]
  have k: "?k < length (slot_heap (disp ?w))"
    using winv(1) assms(3) by (auto simp: world_inv_def waiter_part_def waiter_ok_def)
  show ?thesis
  proof (cases "slot_response (slot_heap (disp ?w) ! ?k)")
    case None
    obtain j tools result where j: "j < length (executions ?w)" "task_slot (executions ?w ! j) = ?k"
      "task_response (executions ?w ! j) = None" and tools: "(task_moves h r)\<^sup>*\<^sup>* (rs_tools sys) tools"
      and res: "tt_phase (sys_tasks tools ! ?k) = ToolDone result"
      by (rule pending_call_completes [OF assms(1,2) k None assms(5)])
    let ?sys = "sys\<lparr>rs_tools := tools\<rparr>" and ?pub = "publish_call cx u j result ?w"
    have "runner_step cx u h r ?sys (?sys\<lparr>rs_dispatch := publish_call cx u j result (rs_dispatch ?sys)\<rparr>)"
      by (rule runner_publish [OF _ HOL.refl]) (use j res in simp_all)
    then have "runner_run cx u h r sys (?sys\<lparr>rs_dispatch := ?pub\<rparr>)"
      using runner_next [OF tool_moves_run [OF tools]] by simp
    moreover have "finds_response cx ?pub i (call_response cx u (max_error_bytes (disp ?w))
        (task_request_id (executions ?w ! j)) result)"
      by (rule publish_call_finds [OF winv(1)]) (use assms(3,4) j k in simp_all)
    ultimately show ?thesis using is_served_before finds_served [of cx "?sys\<lparr>rs_dispatch := ?pub\<rparr>"] by fastforce
  qed (use finds_served published_finds [OF winv(1) assms(3,4)] in blast)
qed

section \<open>A patch, from the request to the response\<close>

lemma closed_run:
  "(closed_step h r)\<^sup>*\<^sup>* (rs_tools sys) tools \<Longrightarrow> runner_run cx u h r sys (sys\<lparr>rs_tools := tools\<rparr>)"
proof (induction rule: rtranclp_induct)
  case base
  show ?case using runner_refl [of cx u h r sys] by simp
next
  case (step y z)
  from step(2) have "runner_step cx u h r (sys\<lparr>rs_tools := y\<rparr>) (sys\<lparr>rs_tools := z\<rparr>)"
    using runner_tools [of h r "sys\<lparr>rs_tools := y\<rparr>" z cx u] runner_world [of cx u h r "sys\<lparr>rs_tools := y\<rparr>"]
    by (auto simp: closed_step_def)
  with step(3) show ?case by (rule runner_next)
qed

definition demo_patch_request :: request_envelope where
  "demo_patch_request = demo_request (ApplyPatch ''p'')"

definition demo_waiting :: dispatch_world where
  "demo_waiting = fst (arrive demo_codec (initial_world standalone) demo_patch_request)"

lemma demo_patch_dispatch:
  "dispatch_connected demo_codec 0 (new_dispatcher standalone) demo_patch_request =
     (disp demo_waiting, AwaitSlot 0, Some (spawn_execution demo_patch_request demo_guard 0))"
  "wclock (initial_world standalone) = 0" "disp (initial_world standalone) = new_dispatcher standalone"
  by (simp_all add: demo_waiting_def arrive_def initial_world_def dispatch_connected_def demo_patch_request_def
      demo_request_def demo_grant new_dispatcher_def dispatch_with_authority_def response_cache_default_def
      evict_requests.simps requests_full_def standalone_def join_slot_def envelope_fingerprint_def
      request_fingerprint_def Mapping.lookup_empty Let_def)

lemma demo_waiting_simps [simp]:
  "executions demo_waiting = [spawn_execution demo_patch_request demo_guard 0]"
  "waiters demo_waiting = [\<lparr>waiter_slot = 0, waiter_phase = WaitStart\<rparr>]"
  "length (slot_heap (disp demo_waiting)) = 1"
  by (simp_all add: demo_waiting_def arrive_def initial_world_def dispatch_connected_def demo_patch_request_def
      demo_request_def demo_grant new_dispatcher_def dispatch_with_authority_def response_cache_default_def
      evict_requests.simps requests_full_def standalone_def join_slot_def envelope_fingerprint_def
      request_fingerprint_def Mapping.lookup_empty Let_def)

definition demo_received :: "demo_dir runner_system" where
  "demo_received = \<lparr>rs_dispatch = demo_waiting,
     rs_tools = call_state demo_tools (ApplyPatch ''p'') demo_guard (sys_tools demo_tools) Submitted [],
     rs_requests = [demo_patch_request]\<rparr>"

definition demo_applied :: "demo_dir runner_system" where
  "demo_applied = demo_received\<lparr>rs_tools := demo_tools_end\<rparr>"

definition demo_answered :: "uuid_ops \<Rightarrow> demo_dir runner_system" where
  "demo_answered u = demo_applied\<lparr>rs_dispatch := poll_waiter 0 (poll_waiter 0
     (publish_call demo_codec u 0 (Inr (FilesChanged [''f''])) demo_waiting))\<rparr>"

lemma demo_receive:
  "receive demo_codec demo_patch_request (init_runner demo_runner demo_state) = (demo_received, AwaitSlot 0)"
proof -
  have "submit_call (Some (spawn_execution demo_patch_request demo_guard 0)) (init_tools demo_runner demo_state) =
      call_state demo_tools (ApplyPatch ''p'') demo_guard (sys_tools demo_tools) Submitted []"
    using submit_call_state [OF demo_tools_idle, of "ApplyPatch ''p''" demo_guard]
    by (simp add: submit_call_def spawn_execution_def demo_patch_request_def demo_request_def demo_tools_def)
  moreover have "arrive demo_codec (initial_world standalone) demo_patch_request = (demo_waiting, AwaitSlot 0)"
    by (simp add: demo_waiting_def) (simp add: arrive_def demo_patch_dispatch)
  ultimately show ?thesis
    by (simp add: receive_def init_runner_def demo_patch_dispatch demo_received_def demo_runner_def)
qed

lemma demo_applied_reachable: "runner_reachable demo_codec u demo_host demo_runner demo_state demo_applied"
proof -
  have "runner_run demo_codec u demo_host demo_runner (init_runner demo_runner demo_state) demo_received"
    by (rule runner_next [OF runner_refl runner_receive [OF demo_receive]])
  moreover have "runner_run demo_codec u demo_host demo_runner demo_received demo_applied"
    unfolding demo_applied_def
    by (rule closed_run) (use demo_comes_to in \<open>simp add: comes_to_def demo_received_def demo_tools_end_def\<close>)
  ultimately show ?thesis unfolding runner_reachable_def using runner_run_trans by blast
qed

lemma demo_applied_simps [simp]:
  "rs_dispatch demo_applied = demo_waiting" "rs_tools demo_applied = demo_tools_end"
  "rs_requests demo_applied = [demo_patch_request]"
  by (simp_all add: demo_applied_def demo_received_def)

lemma demo_answered_reachable: "runner_reachable demo_codec u demo_host demo_runner demo_state (demo_answered u)"
proof -
  let ?run = "runner_run demo_codec u demo_host demo_runner"
  define sys1 where "sys1 = demo_applied\<lparr>rs_dispatch := publish_call demo_codec u 0 (Inr (FilesChanged [''f''])) demo_waiting\<rparr>"
  define sys2 where "sys2 = sys1\<lparr>rs_dispatch := poll_waiter 0 (rs_dispatch sys1)\<rparr>"
  have "runner_step demo_codec u demo_host demo_runner demo_applied sys1"
    unfolding sys1_def using runner_publish [of 0 demo_applied "executions demo_waiting ! 0" _ demo_codec u demo_host demo_runner]
    by (simp add: spawn_execution_def)
  moreover have "?run sys1 sys2" unfolding sys2_def
    by (rule poll_waiter_run) (simp add: sys1_def publish_call_def Let_def)
  moreover have "?run sys2 (sys2\<lparr>rs_dispatch := poll_waiter 0 (rs_dispatch sys2)\<rparr>)"
    by (rule poll_waiter_run) (simp add: sys2_def sys1_def poll_waiter_def publish_call_def Let_def)
  moreover have "sys2\<lparr>rs_dispatch := poll_waiter 0 (rs_dispatch sys2)\<rparr> = demo_answered u"
    by (simp add: demo_answered_def sys2_def sys1_def)
  ultimately show ?thesis
    using demo_applied_reachable [of u] runner_run_trans runner_next unfolding runner_reachable_def by metis
qed

lemma demo_answered_waiters:
  "waiters (rs_dispatch (demo_answered u)) = [\<lparr>waiter_slot = 0, waiter_phase = WaitReturned ''ok''\<rparr>]"
  by (simp add: demo_answered_def poll_waiter_def publish_call_def Let_def publish_response_def call_response_def
      execution_response_def serialize_response_def demo_codec_def spawn_execution_def)

definition demo_uuids :: uuid_ops where
  "demo_uuids = \<lparr>uuid_parse_str = (\<lambda>_. None), uuid_to_string = (\<lambda>_. [])\<rparr>"

theorem request_changes_once_witness:
  "runner_reachable demo_codec demo_uuids demo_host demo_runner demo_state demo_applied \<and>
   sys_history (rs_tools demo_applied) ! 1 = (0, ApplyStarted) \<and> 0 < length (rs_requests demo_applied)"
proof -
  have "0 < length (rs_requests demo_applied)"
    using request_changes_once [OF demo_applied_reachable HOL.refl, of 1 0 ApplyStarted 1 0 ApplyStarted] by simp
  then show ?thesis using demo_applied_reachable by simp
qed

theorem returned_response_is_result_witness:
  "\<exists>result. tt_phase (sys_tasks (rs_tools (demo_answered demo_uuids)) ! 0) = ToolDone result \<and>
     ''ok'' = call_response demo_codec demo_uuids (max_error_bytes (disp (rs_dispatch (demo_answered demo_uuids))))
       (req_request_id (rs_requests (demo_answered demo_uuids) ! 0)) result"
  using returned_response_is_result [OF demo_answered_reachable, of 0 demo_uuids "''ok''" 0]
  by (auto simp: demo_answered_waiters)

theorem waiting_request_answered_witness:
  "\<exists>response. is_served demo_codec demo_uuids demo_host demo_runner demo_applied 0 response"
proof -
  have "0 < max_blocking_tools (rn_limits demo_runner)" by (simp add: demo_runner_def standalone_def)
  from waiting_request_answered [OF demo_applied_reachable this, of 0] show ?thesis by simp
qed

end
