(* ===== verification/Lease_Fencing.thy ===== *)
theory Lease_Fencing
  imports Runner_System
begin

text \<open>
  One lease registry for the dispatcher and the tools.  The guards that \<open>grant\<close> issues hold a clone of the
  dispatcher's \<open>AuthorityRegistry\<close> (\<^verbatim>\<open>src/crates/kodo/src/authority.rs\<close>), so what a tool reads through its guard is
  what \<open>renew_authority\<close> and \<open>dispatch_connected\<close> have written.  \<^verbatim>\<open>Runner_System\<close> leaves open what the tools read; here
  the two are the same map and the same clock.  A tool may run for a while in one step, and leases may be
  renewed meanwhile, so they agree again after the dispatcher has taken those steps.
\<close>

section \<open>Runs that share the registry\<close>

definition shares_registry :: "'w tool_host \<Rightarrow> 'w runner_system \<Rightarrow> bool" where
  "shares_registry h sys \<longleftrightarrow>
     host_authority h (ts_world (sys_tools (rs_tools sys))) =
       (authorities (disp (rs_dispatch sys)), wclock (rs_dispatch sys))"

text \<open>A step, and then what the rest of the system did meanwhile; it starts and ends no mutation.\<close>

inductive shared_run ::
  "wire_codec \<Rightarrow> uuid_ops \<Rightarrow> 'w tool_host \<Rightarrow> runner \<Rightarrow> 'w runner_system \<Rightarrow> 'w runner_system \<Rightarrow> bool" for cx u h r where
  shared_refl: "shares_registry h sys \<Longrightarrow> shared_run cx u h r sys sys"
| shared_next: "shared_run cx u h r sys sys1 \<Longrightarrow> runner_step cx u h r sys1 sys2 \<Longrightarrow>
    runner_run cx u h r sys2 sys3 \<Longrightarrow> sys_history (rs_tools sys3) = sys_history (rs_tools sys2) \<Longrightarrow>
    shares_registry h sys3 \<Longrightarrow> shared_run cx u h r sys sys3"

lemma shared_run_runner: "shared_run cx u h r sys sys' \<Longrightarrow> runner_run cx u h r sys sys' \<and> shares_registry h sys'"
proof (induction rule: shared_run.induct)
  case (shared_next sys sys1 sys2 sys3)
  then show ?case using runner_run_trans runner_next by blast
qed (simp add: runner_refl)

section \<open>Epochs never fall, histories and requests only grow\<close>

definition owned_since :: "authority_registry \<Rightarrow> uuid \<Rightarrow> u64 \<Rightarrow> bool" where
  "owned_since reg session_id epoch \<longleftrightarrow> (\<exists>state. reg session_id = Some state \<and> epoch \<le> ownership_epoch state)"

lemma grant_owned:
  assumes "grant reg t lease = Inr (reg', g)" "owned_since reg session_id epoch"
  shows "owned_since reg' session_id epoch"
  using assms(1)
proof (cases rule: grant_InrE)
  case (1 st)
  show ?thesis
  proof (cases "lease_session_id lease = session_id")
    case True
    with assms(2) 1(1,8) show ?thesis by (auto simp: owned_since_def intro: order_trans)
  next
    case False
    with assms(2) 1(1) show ?thesis by (simp add: owned_since_def)
  qed
qed

lemma arrive_owned:
  assumes "arrive cx w request = (v, reply)" "owned_since (authorities (disp w)) session_id epoch"
  shows "owned_since (authorities (disp v)) session_id epoch"
proof -
  obtain d ex where d: "dispatch_connected cx (wclock w) (disp w) request = (d, reply, ex)"
    using assms(1) by (cases "dispatch_connected cx (wclock w) (disp w) request") (auto simp: arrive_def)
  have v: "disp v = d" using assms(1) by (auto simp: arrive_def d)
  have dwa: "authorities (fst (dispatch_with_authority cx d' request g)) = authorities d'" for d' g
    by (auto simp: dispatch_with_authority_def join_slot_def Let_def split: option.splits prod.splits bool.splits)
  show ?thesis
  proof (cases "\<exists>lease r g. req_authority request = Some lease \<and> grant (authorities (disp w)) (wclock w) lease = Inr (r, g) \<and>
      dispatch_connected cx (wclock w) (disp w) request = dispatch_with_authority cx ((disp w)\<lparr>authorities := r\<rparr>) request g")
    case True
    then obtain lease r g where g: "grant (authorities (disp w)) (wclock w) lease = Inr (r, g)"
      "dispatch_with_authority cx ((disp w)\<lparr>authorities := r\<rparr>) request g = (d, reply, ex)" using d by auto
    then have "authorities d = r" using dwa [of "(disp w)\<lparr>authorities := r\<rparr>" g] by simp
    then show ?thesis using grant_owned [OF g(1) assms(2)] v by simp
  next
    case False
    then have "d = disp w"
      using d by (auto simp: dispatch_connected_def split: if_splits option.splits sum.splits)
    then show ?thesis using assms(2) v by simp
  qed
qed

lemma owned_step:
  "dispatch_step cx w v \<Longrightarrow> owned_since (authorities (disp w)) session_id epoch \<Longrightarrow>
   owned_since (authorities (disp v)) session_id epoch"
proof (induction rule: dispatch_step_induct)
  case (step_renew w lease d)
  then show ?case by (auto simp: renew_authority_def split: sum.splits dest: grant_owned)
next
  case (step_arrive w request v reply)
  then show ?case using arrive_owned by blast
qed (simp_all add: publish_response_def account_response_def)

lemma owned_run:
  "dispatch_run cx w v \<Longrightarrow> owned_since (authorities (disp w)) session_id epoch \<Longrightarrow>
   owned_since (authorities (disp v)) session_id epoch"
  by (induction rule: dispatch_run.induct) (auto intro: owned_step)

lemma submit_call_history [simp]: "sys_history (submit_call ex tools) = sys_history tools"
  by (simp add: submit_call_def split: option.split)

lemma runner_step_requests: "runner_step cx u h r sys sys' \<Longrightarrow> prefix (rs_requests sys) (rs_requests sys')"
proof (cases rule: runner_step.cases, assumption)
  fix request reply
  assume "receive cx request sys = (sys', reply)"
  then show ?thesis by (elim receive_facts) simp
qed simp_all

lemma runner_run_requests: "runner_run cx u h r sys sys' \<Longrightarrow> prefix (rs_requests sys) (rs_requests sys')"
  by (induction rule: runner_run.induct) (auto intro: runner_step_requests prefix_order.trans)

text \<open>The only step that adds to the history is the work of a call.\<close>

lemma runner_step_history:
  assumes "runner_step cx u h r sys sys'"
  shows "sys_history (rs_tools sys') = sys_history (rs_tools sys) \<or>
    (\<exists>i st ph evs. i < length (sys_tasks (rs_tools sys)) \<and>
       tool_work h r (sys_tools (rs_tools sys)) (sys_tasks (rs_tools sys) ! i) = ((st, ph), evs) \<and>
       sys_history (rs_tools sys') = sys_history (rs_tools sys) @ map (Pair i) evs)"
  using assms
proof cases
  case (runner_receive request reply)
  then show ?thesis by (elim receive_facts) simp
next
  case (runner_tools tools)
  from runner_tools(2) show ?thesis
  proof cases
    case (move_work i)
    obtain st ph evs where w: "tool_work h r (sys_tools (rs_tools sys)) (sys_tasks (rs_tools sys) ! i) = ((st, ph), evs)"
      by (metis prod.collapse)
    then have "sys_history tools = sys_history (rs_tools sys) @ map (Pair i) evs"
      by (simp add: move_work(1) work_def)
    then show ?thesis using w move_work(2) runner_tools(1) by auto
  qed (simp_all add: runner_tools(1))
qed simp_all

lemma runner_run_history:
  "runner_run cx u h r sys sys' \<Longrightarrow> prefix (sys_history (rs_tools sys)) (sys_history (rs_tools sys'))"
proof (induction rule: runner_run.induct)
  case (runner_next sys sys' sys'')
  then show ?case using runner_step_history [OF runner_next(2)] by (auto intro: prefix_order.trans)
qed simp

section \<open>A call that starts a mutation owns its session\<close>

text \<open>The guard of call \<open>k\<close> was issued for the lease of request \<open>k\<close>, so it is valid only while the registry
  has the epoch of that lease.\<close>

lemma valid_guard_epoch:
  assumes "aligned cx sys" "shares_registry h sys" "k < length (sys_tasks (rs_tools sys))"
    and "check_authority h (ts_world (sys_tools (rs_tools sys))) (tt_guard (sys_tasks (rs_tools sys) ! k)) = Inr ()"
    and "req_authority (rs_requests sys ! k) = Some lease"
  shows "\<exists>state. authorities (disp (rs_dispatch sys)) (lease_session_id lease) = Some state \<and>
    ownership_epoch state = lease_ownership_epoch lease \<and> wclock (rs_dispatch sys) < expires_at state"
proof -
  let ?g = "tt_guard (sys_tasks (rs_tools sys) ! k)"
  have "made_for (call_list (rs_tools sys) ! k) (rs_requests sys ! k)"
    using assms(1,3) by (simp add: aligned_def list_all2_conv_all_nth)
  then have g: "guard_registry ?g" "guard_session_id ?g = lease_session_id lease"
    "guard_ownership_epoch ?g = lease_ownership_epoch lease"
    using assms(3,5) by (auto simp: made_for_def call_list_def)
  have "ensure_valid (authorities (disp (rs_dispatch sys))) (wclock (rs_dispatch sys)) ?g = Inr ()"
    using assms(2,4) by (auto simp: check_authority_def shares_registry_def split: sum.splits)
  with g show ?thesis using ensure_valid_iff [OF g(1)] by (auto simp: state_matches_def)
qed

definition current_owners :: "uuid \<Rightarrow> u64 \<Rightarrow> nat \<Rightarrow> 'w runner_system \<Rightarrow> bool" where
  "current_owners session_id epoch n sys \<longleftrightarrow>
     (\<forall>j k x lease. n \<le> j \<longrightarrow> j < length (sys_history (rs_tools sys)) \<longrightarrow> sys_history (rs_tools sys) ! j = (k, x) \<longrightarrow>
        x \<in> {ApplyStarted, ReplaceStarted} \<longrightarrow> k < length (rs_requests sys) \<longrightarrow>
        req_authority (rs_requests sys ! k) = Some lease \<longrightarrow> lease_session_id lease = session_id \<longrightarrow>
        epoch \<le> lease_ownership_epoch lease)"

lemma current_owners_step:
  assumes step: "runner_step cx u h r sys1 sys2" and run: "runner_run cx u h r sys2 sys3"
    and same: "sys_history (rs_tools sys3) = sys_history (rs_tools sys2)"
    and inv: "aligned cx sys1" "history_ok (rs_tools sys1)" "shares_registry h sys1"
    and owned: "owned_since (authorities (disp (rs_dispatch sys1))) session_id epoch"
    and old: "current_owners session_id epoch n sys1"
  shows "current_owners session_id epoch n sys3"
  unfolding current_owners_def
proof (intro allI impI)
  let ?H = "sys_history (rs_tools sys1)"
  fix j k x lease
  assume j: "n \<le> j" "j < length (sys_history (rs_tools sys3))" "sys_history (rs_tools sys3) ! j = (k, x)"
    and x: "x \<in> {ApplyStarted, ReplaceStarted}" and lease: "req_authority (rs_requests sys3 ! k) = Some lease"
      "lease_session_id lease = session_id"
  have "runner_run cx u h r sys1 sys3" using step run runner_run_trans runner_next runner_refl by blast
  then have pre: "prefix (rs_requests sys1) (rs_requests sys3)" by (rule runner_run_requests)
  have len: "length (sys_tasks (rs_tools sys1)) = length (rs_requests sys1)" by (rule aligned_length [OF inv(1)])
  have at: "rs_requests sys3 ! k = rs_requests sys1 ! k" if "k < length (rs_requests sys1)"
    using pre that by (auto simp: prefix_def nth_append)
  show "epoch \<le> lease_ownership_epoch lease"
  proof (cases "j < length ?H")
    case True
    have "?H ! j = (k, x)"
      using runner_step_history [OF step] j same True by (auto simp: nth_append)
    moreover from this have k: "k < length (rs_requests sys1)"
      using history_known [OF inv(2) True] len by simp
    ultimately show ?thesis using old j(1) True x lease at [OF k] unfolding current_owners_def by metis
  next
    case False
    then obtain i st ph evs where w: "i < length (sys_tasks (rs_tools sys1))"
      "tool_work h r (sys_tools (rs_tools sys1)) (sys_tasks (rs_tools sys1) ! i) = ((st, ph), evs)"
      "sys_history (rs_tools sys3) = ?H @ map (Pair i) evs"
      using runner_step_history [OF step] j(2) same by auto
    have "(k, x) \<in> set (map (Pair i) evs)"
      using j(2,3) False unfolding w(3) by (metis in_set_conv_nth length_append nat_add_left_cancel_less
          le_add_diff_inverse not_le nth_append)
    then have e: "k = i" "x \<in> set evs" by auto
    have "check_authority h (ts_world (sys_tools (rs_tools sys1))) (tt_guard (sys_tasks (rs_tools sys1) ! k)) = Inr ()"
      using tool_work_authorized [OF w(2) e(2) x] e(1) by simp
    moreover have "req_authority (rs_requests sys1 ! k) = Some lease" using lease(1) at w(1) len e(1) by simp
    ultimately obtain state where "authorities (disp (rs_dispatch sys1)) session_id = Some state"
      "ownership_epoch state = lease_ownership_epoch lease"
      using valid_guard_epoch [OF inv(1,3)] w(1) e(1) lease(2) by blast
    with owned show ?thesis by (auto simp: owned_since_def)
  qed
qed

lemma shared_run_owners:
  assumes "shared_run cx u h r sys sys'" "runner_reachable cx u h r st sys"
    and "owned_since (authorities (disp (rs_dispatch sys))) session_id epoch"
  shows "current_owners session_id epoch (length (sys_history (rs_tools sys))) sys'"
  using assms
proof (induction rule: shared_run.induct)
  case (shared_next sys sys1 sys2 sys3)
  have run: "runner_run cx u h r sys sys1" and shares: "shares_registry h sys1"
    using shared_run_runner [OF shared_next(1)] by simp_all
  then have reach: "runner_reachable cx u h r st sys1"
    using shared_next(7) runner_run_trans unfolding runner_reachable_def by blast
  note inv = runner_reachable_inv [OF reach]
  have "owned_since (authorities (disp (rs_dispatch sys1))) session_id epoch"
    using owned_run runner_run_parts [OF run] shared_next(8) by blast
  moreover have "history_ok (rs_tools sys1)" using tools_reachable_inv [OF inv(5)] by (simp add: scheduler_inv_def)
  moreover have "current_owners session_id epoch (length (sys_history (rs_tools sys))) sys1" using shared_next by blast
  ultimately show ?case using current_owners_step [OF shared_next(2-4) inv(1) _ shares] by blast
qed (simp add: current_owners_def)

section \<open>Properties\<close>

text \<open>C4.  A superseded owner is fenced off.  From the moment the dispatcher has accepted a lease of a session
  with some ownership epoch, whatever arrives or is retried, no call made for a request under an older epoch of
  that session passes the last check before \<^verbatim>\<open>git apply\<close> or the last check before a replacement of text, which
  is where a mutation starts here.  A mutation that had passed its last check before may still complete, for
  nothing is checked again before the file is written, and a \<^verbatim>\<open>git apply\<close> already started ends by itself or is
  killed.  At most one mutation can be in that position: its end is the first event after the acceptance, and
  its start the last event before it.
  Every other end of \<^verbatim>\<open>git apply\<close> and every other replacement belongs to a current owner too.\<close>

theorem superseded_owner_fenced:
  assumes "runner_reachable cx u h r st sys" "shared_run cx u h r sys sys'"
    and "authorities (disp (rs_dispatch sys)) session_id = Some state"
    and "H = sys_history (rs_tools sys')" "n = length (sys_history (rs_tools sys))"
    and "n \<le> j" "j < length H" "H ! j = (k, x)"
    and "x \<in> {ApplyStarted, ApplyEnded, ReplaceStarted, TextReplaced}"
  shows "k < length (rs_requests sys') \<and> (\<exists>lease. req_authority (rs_requests sys' ! k) = Some lease \<and>
    (lease_session_id lease = session_id \<longrightarrow>
       ownership_epoch state \<le> lease_ownership_epoch lease \<or>
       j = n \<and> n \<noteq> 0 \<and>
       (x = ApplyEnded \<and> last (sys_history (rs_tools sys)) = (k, ApplyStarted) \<or>
        x = TextReplaced \<and> last (sys_history (rs_tools sys)) = (k, ReplaceStarted))))"
proof -
  have run: "runner_run cx u h r sys sys'" using shared_run_runner [OF assms(2)] by simp
  have reach: "runner_reachable cx u h r st sys'"
    using assms(1) run runner_run_trans unfolding runner_reachable_def by blast
  note inv = runner_reachable_inv [OF reach]
  have ok: "history_ok (rs_tools sys')" using tools_reachable_inv [OF inv(5)] by (simp add: scheduler_inv_def)
  then have k: "k < length (rs_requests sys')"
    using history_known [of "rs_tools sys'" j k x] assms(4-8) aligned_length [OF inv(1)] by simp
  have "made_for (call_list (rs_tools sys') ! k) (rs_requests sys' ! k)"
    using inv(1) k by (simp add: aligned_def list_all2_conv_all_nth)
  then obtain lease where l: "req_authority (rs_requests sys' ! k) = Some lease" by (auto simp: made_for_def)
  have "current_owners session_id (ownership_epoch state) n sys'"
    unfolding assms(5) by (rule shared_run_owners [OF assms(2,1)]) (use assms(3) in \<open>simp add: owned_since_def\<close>)
  then have owner: "ownership_epoch state \<le> lease_ownership_epoch lease"
    if "lease_session_id lease = session_id" "n \<le> i" "i < length H" "H ! i = (k, y)" "y \<in> {ApplyStarted, ReplaceStarted}"
    for i y using assms(4) k l that unfolding current_owners_def by blast
  have pre: "prefix (sys_history (rs_tools sys)) H" using runner_run_history [OF run] assms(4) by simp
  have ended: "ownership_epoch state \<le> lease_ownership_epoch lease \<or>
      j = n \<and> n \<noteq> 0 \<and> last (sys_history (rs_tools sys)) = (k, y)"
    if "lease_session_id lease = session_id" "follows_own H x y" "y \<in> {ApplyStarted, ReplaceStarted}" for y
  proof -
    have before: "0 < j" "H ! (j - 1) = (k, y)" using that(2) assms(7,8) by (auto simp: follows_own_def)
    show ?thesis
    proof (cases "n \<le> j - 1")
      case True
      then show ?thesis using owner [OF that(1) True _ before(2) that(3)] assms(7) by simp
    next
      case False
      then have "j = n" "n \<noteq> 0" using assms(6) before(1) by simp_all
      moreover have "last (sys_history (rs_tools sys)) = H ! (n - 1)"
        using pre \<open>n \<noteq> 0\<close> assms(5) by (auto simp: prefix_def last_conv_nth nth_append)
      ultimately show ?thesis using before(2) by simp
    qed
  qed
  have "follows_own H ApplyEnded ApplyStarted" "follows_own H TextReplaced ReplaceStarted"
    using ok assms(4) by (simp_all add: history_ok_def)
  with ended owner assms(6-9) k l show ?thesis by blast
qed

lemma demo_shares: "rs_dispatch sys = demo_waiting \<Longrightarrow> shares_registry demo_host sys"
  by (simp add: shares_registry_def demo_waiting_def arrive_def initial_world_def dispatch_connected_def
      demo_patch_request_def demo_request_def demo_grant new_dispatcher_def dispatch_with_authority_def
      response_cache_default_def evict_requests.simps requests_full_def standalone_def join_slot_def
      envelope_fingerprint_def request_fingerprint_def Mapping.lookup_empty Let_def)

lemma closed_shared_run:
  "(closed_step demo_host r)\<^sup>*\<^sup>* (rs_tools sys) tools \<Longrightarrow> rs_dispatch sys = demo_waiting \<Longrightarrow>
   shared_run cx u demo_host r sys (sys\<lparr>rs_tools := tools\<rparr>)"
proof (induction rule: rtranclp_induct)
  case base
  then show ?case using shared_refl [OF demo_shares] by simp
next
  case (step y z)
  from step(2) have "runner_step cx u demo_host r (sys\<lparr>rs_tools := y\<rparr>) (sys\<lparr>rs_tools := z\<rparr>)"
    using runner_tools [of demo_host r "sys\<lparr>rs_tools := y\<rparr>" z cx u] runner_world [of cx u demo_host r "sys\<lparr>rs_tools := y\<rparr>"]
    by (auto simp: closed_step_def)
  with step(3) [OF step(4)] show ?case
    by (rule shared_next) (use step(4) in \<open>simp_all add: runner_refl demo_shares\<close>)
qed

theorem superseded_owner_fenced_witness:
  "shared_run demo_codec demo_uuids demo_host demo_runner demo_received demo_applied \<and>
   sys_history (rs_tools demo_applied) ! 2 = (0, ApplyEnded) \<and>
   (\<exists>lease. req_authority (rs_requests demo_applied ! 0) = Some lease \<and>
      (lease_session_id lease = lease_session_id (demo_lease 1) \<longrightarrow> 1 \<le> lease_ownership_epoch lease))"
proof -
  have reach: "runner_reachable demo_codec demo_uuids demo_host demo_runner demo_state demo_received"
    unfolding runner_reachable_def by (rule runner_next [OF runner_refl runner_receive [OF demo_receive]])
  have run: "shared_run demo_codec demo_uuids demo_host demo_runner demo_received demo_applied"
    unfolding demo_applied_def
    by (rule closed_shared_run) (use demo_comes_to in \<open>simp_all add: comes_to_def demo_received_def demo_tools_end_def\<close>)
  have "shares_registry demo_host demo_received" by (rule demo_shares) (simp add: demo_received_def)
  then have "authorities (disp (rs_dispatch demo_received)) = demo_registry" by (simp add: shares_registry_def)
  then have "authorities (disp (rs_dispatch demo_received)) (lease_session_id (demo_lease 1)) =
      Some \<lparr>ownership_epoch = 1, generation = 0, expires_at = 1000000\<rparr>"
    by (simp add: demo_registry_def demo_lease_def)
  moreover have "length (sys_history (rs_tools demo_received)) = 0"
    by (simp add: demo_received_def call_state_def demo_tools_def init_tools_def)
  ultimately show ?thesis
    using superseded_owner_fenced [OF reach run _ HOL.refl HOL.refl, of _ _ 2 0 ApplyEnded] run by fastforce
qed

end
