(* ===== verification/Runner_Lock.thy ===== *)
theory Runner_Lock
  imports Workspace
begin

text \<open>
  The runner lock over the lifetimes of runners (\<^verbatim>\<open>src/crates/kodo/src/workspace.rs\<close>, \<open>RunnerLock\<close>): locks
  are acquired with \<open>lock_runner\<close> and released when they are dropped, by any number of runners on one
  machine.  File locks are those of the fs2 library: \<open>flock_ops\<close> has its two calls with the state of
  the system they act on, and \<open>flock_laws\<close> what its documentation promises of an exclusive lock.
  The lock file lies in \<open>std::env::temp_dir()\<close>, which each process takes from its environment: all runners
  here have the same temporary directory, and nothing is said of runners with different values of \<open>TMPDIR\<close>.
\<close>

record 'l flock_ops =
  flock_held :: "'l \<Rightarrow> string \<Rightarrow> bool"
  try_lock_exclusive :: "'l \<Rightarrow> string \<Rightarrow> 'l \<times> (io_error + unit)"
  flock_unlock :: "'l \<Rightarrow> string \<Rightarrow> 'l"

definition flock_laws :: "'l flock_ops \<Rightarrow> bool" where
  "flock_laws ops \<longleftrightarrow> (\<forall>s p.
     (case try_lock_exclusive ops s p of
        (s', Inr _) \<Rightarrow> \<not> flock_held ops s p \<and> flock_held ops s' = (flock_held ops s)(p := True)
      | (s', Inl e) \<Rightarrow> flock_held ops s p \<longrightarrow> io_kind_of e = WouldBlock) \<and>
     flock_held ops (flock_unlock ops s p) = (flock_held ops s)(p := False))"

text \<open>A live lock: the root of the workspace it was taken for and the path of the locked file.\<close>

record runner_lock =
  lock_root :: string
  lock_file :: string

record 'l lock_system =
  os_locks :: 'l
  live_locks :: "runner_lock list"

definition acquire ::
  "'l flock_ops \<Rightarrow> string \<Rightarrow> (string \<Rightarrow> string) \<Rightarrow> (string \<Rightarrow> io_error + unit) \<Rightarrow> (string \<Rightarrow> io_error + unit) \<Rightarrow>
   'd workspace \<Rightarrow> 'l lock_system \<Rightarrow> 'l lock_system \<times> (workspace_error + runner_lock)" where
  "acquire ops temp_dir hex_digest create_dir_all open_lock ws sys =
     (case lock_runner temp_dir hex_digest create_dir_all open_lock
             (\<lambda>path. snd (try_lock_exclusive ops (os_locks sys) path)) ws of
        Inl e \<Rightarrow> (sys, Inl e)
      | Inr path \<Rightarrow>
          (let new = \<lparr>lock_root = ws_root ws, lock_file = path\<rparr>
           in (sys\<lparr>os_locks := fst (try_lock_exclusive ops (os_locks sys) path),
                  live_locks := live_locks sys @ [new]\<rparr>, Inr new)))"

text \<open>\<open>RunnerLock::drop\<close>; the descriptor of a process that dies is closed, which releases its lock too.\<close>

definition drop_lock :: "'l flock_ops \<Rightarrow> nat \<Rightarrow> 'l lock_system \<Rightarrow> 'l lock_system" where
  "drop_lock ops i sys =
     sys\<lparr>os_locks := flock_unlock ops (os_locks sys) (lock_file (live_locks sys ! i)),
        live_locks := take i (live_locks sys) @ drop (Suc i) (live_locks sys)\<rparr>"

text \<open>The directory capability of the workspace plays no part.\<close>

inductive lock_step ::
  "'l flock_ops \<Rightarrow> string \<Rightarrow> (string \<Rightarrow> string) \<Rightarrow> 'l lock_system \<Rightarrow> 'l lock_system \<Rightarrow> bool" for ops temp_dir hex_digest where
  lock_acquire: "acquire ops temp_dir hex_digest create_dir_all open_lock (ws :: unit workspace) sys = (sys', result) \<Longrightarrow>
    lock_step ops temp_dir hex_digest sys sys'"
| lock_drop: "i < length (live_locks sys) \<Longrightarrow> lock_step ops temp_dir hex_digest sys (drop_lock ops i sys)"

inductive lock_reachable ::
  "'l flock_ops \<Rightarrow> string \<Rightarrow> (string \<Rightarrow> string) \<Rightarrow> 'l lock_system \<Rightarrow> bool" for ops temp_dir hex_digest where
  lock_init: "live_locks sys = [] \<Longrightarrow> lock_reachable ops temp_dir hex_digest sys"
| lock_next: "lock_reachable ops temp_dir hex_digest sys \<Longrightarrow> lock_step ops temp_dir hex_digest sys sys' \<Longrightarrow>
    lock_reachable ops temp_dir hex_digest sys'"

definition lock_path_of :: "string \<Rightarrow> (string \<Rightarrow> string) \<Rightarrow> string \<Rightarrow> string" where
  "lock_path_of temp_dir hex_digest root =
     path_join (path_join temp_dir ''kodo-workspace-locks'') (hex_digest root @ ''.lock'')"

definition locks_inv :: "'l flock_ops \<Rightarrow> string \<Rightarrow> (string \<Rightarrow> string) \<Rightarrow> 'l lock_system \<Rightarrow> bool" where
  "locks_inv ops temp_dir hex_digest sys \<longleftrightarrow>
     distinct (map lock_file (live_locks sys)) \<and>
     (\<forall>l \<in> set (live_locks sys). lock_file l = lock_path_of temp_dir hex_digest (lock_root l) \<and>
        flock_held ops (os_locks sys) (lock_file l))"

lemma lock_runner_path:
  assumes "lock_runner temp_dir hex_digest create_dir_all open_lock try_lock ws = Inr path"
  shows "path = lock_path_of temp_dir hex_digest (ws_root ws)" "try_lock path = Inr ()"
  using assms by (auto simp: lock_runner_def lock_path_of_def Let_def split: sum.splits if_splits)

lemma acquire_inv:
  assumes "flock_laws ops" "locks_inv ops temp_dir hex_digest sys"
    and "acquire ops temp_dir hex_digest create_dir_all open_lock ws sys = (sys', result)"
  shows "locks_inv ops temp_dir hex_digest sys'"
proof (cases "\<exists>path. lock_runner temp_dir hex_digest create_dir_all open_lock
    (\<lambda>path. snd (try_lock_exclusive ops (os_locks sys) path)) ws = Inr path")
  case True
  then obtain path where path: "lock_runner temp_dir hex_digest create_dir_all open_lock
    (\<lambda>path. snd (try_lock_exclusive ops (os_locks sys) path)) ws = Inr path" by blast
  note p = lock_runner_path [OF path]
  obtain s where s: "try_lock_exclusive ops (os_locks sys) path = (s, Inr ())"
    using p(2) by (metis prod.collapse)
  with assms(1) have "\<not> flock_held ops (os_locks sys) path" "flock_held ops s = (flock_held ops (os_locks sys))(path := True)"
    unfolding flock_laws_def by (auto dest!: spec [of _ "os_locks sys"] spec [of _ path])
  moreover have "sys' = sys\<lparr>os_locks := s, live_locks := live_locks sys @ [\<lparr>lock_root = ws_root ws, lock_file = path\<rparr>]\<rparr>"
    using assms(3) path s by (simp add: acquire_def Let_def)
  ultimately show ?thesis using assms(2) p(1) unfolding locks_inv_def by (auto simp del: fun_upd_apply) auto
next
  case False
  then show ?thesis using assms(2,3) by (auto simp: acquire_def split: sum.splits)
qed

lemma drop_inv:
  assumes "flock_laws ops" "locks_inv ops temp_dir hex_digest sys" "i < length (live_locks sys)"
  shows "locks_inv ops temp_dir hex_digest (drop_lock ops i sys)"
proof -
  let ?l = "live_locks sys ! i" and ?rest = "take i (live_locks sys) @ drop (Suc i) (live_locks sys)"
  have split: "live_locks sys = take i (live_locks sys) @ ?l # drop (Suc i) (live_locks sys)"
    using assms(3) by (rule id_take_nth_drop)
  have "distinct (map lock_file (take i (live_locks sys) @ ?l # drop (Suc i) (live_locks sys)))"
    by (rule subst [OF split, of "\<lambda>ls. distinct (map lock_file ls)"]) (use assms(2) in \<open>simp add: locks_inv_def\<close>)
  moreover have "distinct (map lock_file (xs @ l # ys)) \<Longrightarrow>
      distinct (map lock_file (xs @ ys)) \<and> (\<forall>k \<in> set (xs @ ys). lock_file k \<noteq> lock_file l)" for xs ys l
    by (auto simp: image_iff)
  ultimately have rest: "distinct (map lock_file ?rest)" "\<forall>l \<in> set ?rest. lock_file l \<noteq> lock_file ?l" by blast+
  have "set ?rest \<subseteq> set (live_locks sys)" using set_take_subset set_drop_subset by fastforce
  moreover have "flock_held ops (flock_unlock ops (os_locks sys) (lock_file ?l)) =
      (flock_held ops (os_locks sys))(lock_file ?l := False)"
    using assms(1) unfolding flock_laws_def by blast
  ultimately show ?thesis using assms(2) rest unfolding locks_inv_def drop_lock_def by auto
qed

lemma lock_reachable_inv:
  "lock_reachable ops temp_dir hex_digest sys \<Longrightarrow> flock_laws ops \<Longrightarrow> locks_inv ops temp_dir hex_digest sys"
proof (induction rule: lock_reachable.induct)
  case (lock_next sys sys')
  from lock_next(2) show ?case
    by cases (use lock_next acquire_inv drop_inv in blast)+
qed (simp add: locks_inv_def)

section \<open>Properties\<close>

text \<open>C22.  One runner per workspace: in any sequence of acquisitions and releases by runners with the same
  temporary directory, live locks are for different workspaces, and while one is live, another attempt for the same root is refused, as
  soon as it gets to the lock file, with \<open>RunnerAlreadyActive\<close>, and changes nothing.\<close>

theorem one_runner_per_workspace:
  assumes "flock_laws ops" "lock_reachable ops temp_dir hex_digest sys"
    and "l \<in> set (live_locks sys)" "ws_root ws = lock_root l"
    and "\<And>p. create_dir_all p = Inr ()" "\<And>p. open_lock p = Inr ()"
  shows "distinct (map lock_root (live_locks sys)) \<and>
    acquire ops temp_dir hex_digest create_dir_all open_lock ws sys = (sys, Inl (RunnerAlreadyActive (lock_root l)))"
proof
  note inv = lock_reachable_inv [OF assms(2,1)]
  have "map lock_file (live_locks sys) = map (lock_path_of temp_dir hex_digest) (map lock_root (live_locks sys))"
    using inv by (simp add: locks_inv_def)
  with inv show "distinct (map lock_root (live_locks sys))" unfolding locks_inv_def by (metis distinct_map)
  let ?path = "lock_path_of temp_dir hex_digest (lock_root l)"
  have "flock_held ops (os_locks sys) ?path" using inv assms(3) by (auto simp: locks_inv_def)
  with assms(1) obtain e where "snd (try_lock_exclusive ops (os_locks sys) ?path) = Inl e" "io_kind_of e = WouldBlock"
    unfolding flock_laws_def
    by (cases "try_lock_exclusive ops (os_locks sys) ?path" rule: prod.exhaust) (fastforce split: sum.splits)
  then show "acquire ops temp_dir hex_digest create_dir_all open_lock ws sys = (sys, Inl (RunnerAlreadyActive (lock_root l)))"
    using assms(4-6) by (simp add: acquire_def lock_runner_def lock_path_of_def Let_def)
qed

text \<open>Locks that are a set of paths.\<close>

definition demo_flock :: "string set flock_ops" where
  "demo_flock =
     \<lparr>flock_held = (\<lambda>s p. p \<in> s),
      try_lock_exclusive = (\<lambda>s p. if p \<in> s then (s, Inl (IoError WouldBlock ''held'')) else (insert p s, Inr ())),
      flock_unlock = (\<lambda>s p. s - {p})\<rparr>"

definition demo_root :: "unit workspace" where
  "demo_root = \<lparr>ws_root = ''/w'', ws_root_dir = ()\<rparr>"

definition demo_lock_system :: "string set lock_system" where
  "demo_lock_system = fst (acquire demo_flock ''/tmp'' (\<lambda>root. ''d'') (\<lambda>_. Inr ()) (\<lambda>_. Inr ()) demo_root
     \<lparr>os_locks = {}, live_locks = []\<rparr>)"

lemma demo_flock_laws: "flock_laws demo_flock"
  by (auto simp: flock_laws_def demo_flock_def fun_eq_iff)

theorem one_runner_per_workspace_witness:
  "acquire demo_flock ''/tmp'' (\<lambda>root. ''d'') (\<lambda>_. Inr ()) (\<lambda>_. Inr ()) demo_root demo_lock_system =
     (demo_lock_system, Inl (RunnerAlreadyActive (ws_root demo_root)))"
proof -
  let ?sys = "\<lparr>os_locks = {} :: string set, live_locks = []\<rparr>"
  let ?path = "lock_path_of ''/tmp'' (\<lambda>root. ''d'') (ws_root demo_root)"
  have a: "acquire demo_flock ''/tmp'' (\<lambda>root. ''d'') (\<lambda>_. Inr ()) (\<lambda>_. Inr ()) demo_root ?sys =
      (\<lparr>os_locks = {?path}, live_locks = [\<lparr>lock_root = ws_root demo_root, lock_file = ?path\<rparr>]\<rparr>,
       Inr \<lparr>lock_root = ws_root demo_root, lock_file = ?path\<rparr>)"
    by (simp add: acquire_def lock_runner_def lock_path_of_def Let_def demo_flock_def)
  then have live: "live_locks demo_lock_system = [\<lparr>lock_root = ws_root demo_root, lock_file = ?path\<rparr>]"
    by (simp add: demo_lock_system_def)
  have "lock_reachable demo_flock ''/tmp'' (\<lambda>root. ''d'') demo_lock_system"
    by (rule lock_next [OF lock_init lock_acquire]) (use a in \<open>simp_all add: demo_lock_system_def\<close>)
  from one_runner_per_workspace [OF demo_flock_laws this, of "\<lparr>lock_root = ws_root demo_root, lock_file = ?path\<rparr>"
      demo_root "\<lambda>_. Inr ()" "\<lambda>_. Inr ()"]
  show ?thesis using live by simp
qed

end
