(* ===== verification/Control_Plane.thy ===== *)
theory Control_Plane
  imports Protocol Web_Values
begin

text \<open>
  The connection to the control plane, \<^verbatim>\<open>src/crates/kodo/src/control_plane.rs\<close>, up to the point
  where the channel is joined: the base URL, registration over HTTP, Phoenix frames, and the
  join that delivers the execution limits.  The loop of a joined channel is in
  \<^verbatim>\<open>Channel\<close>, the reconnecting server in \<^verbatim>\<open>Serve\<close>.
\<close>

section \<open>Constants and errors\<close>

definition MAX_WIRE_BYTES :: usize where "MAX_WIRE_BYTES = 4 * 1024 * 1024"
definition MAX_REGISTRATION_BYTES :: usize where "MAX_REGISTRATION_BYTES = 256 * 1024"

text \<open>Durations are nanoseconds, as instants are.\<close>

definition from_secs :: "nat \<Rightarrow> nat" where "from_secs s = s * 1000000000"
definition INITIAL_RECONNECT_DELAY :: nat where "INITIAL_RECONNECT_DELAY = from_secs 1"
definition MAX_RECONNECT_DELAY :: nat where "MAX_RECONNECT_DELAY = from_secs 30"
definition HEARTBEAT_INTERVAL :: nat where "HEARTBEAT_INTERVAL = from_secs 30"
definition PHOENIX_SERIALIZER_VERSION :: string where "PHOENIX_SERIALIZER_VERSION = ''2.0.0''"
definition JOIN_REFERENCE :: string where "JOIN_REFERENCE = ''1''"
definition FIRST_HEARTBEAT_REFERENCE :: u64 where "FIRST_HEARTBEAT_REFERENCE = 2"
definition REGISTRATION_PATH :: string where "REGISTRATION_PATH = ''api/runners''"

definition RUNNER_CAPABILITIES :: "string list" where
  "RUNNER_CAPABILITIES =
     [''list_files'', ''search_code'', ''read_file'', ''git_status'', ''git_diff'', ''apply_patch'',
      ''replace_text'', ''start_command'', ''poll_command'', ''stop_command'']"

datatype control_plane_error =
    InvalidUrl string
  | Registration string
  | Transport string
  | Configuration string
  | PolicyChanged

fun control_plane_error_to_string :: "control_plane_error \<Rightarrow> string" where
  "control_plane_error_to_string (InvalidUrl e) = ''invalid control-plane URL: '' @ e"
| "control_plane_error_to_string (Registration e) = ''control-plane registration failed: '' @ e"
| "control_plane_error_to_string (Transport e) = ''control-plane transport failed: '' @ e"
| "control_plane_error_to_string (Configuration e) =
     ''control-plane supplied invalid runner limits: '' @ e"
| "control_plane_error_to_string PolicyChanged =
     ''runner limits changed; restart Kodo to begin a new policy epoch''"

section \<open>Data\<close>

record registration =
  runner_id :: string
  token :: string
  socket_path :: string
  topic :: string
  reg_protocol_version :: u16
  token_expires_in :: u64

record frame =
  join_ref :: "string option"
  frame_reference :: "string option"
  frame_topic :: string
  frame_event :: string
  frame_payload :: json

text \<open>
  The JSON decodings the module uses, each at its type; \<open>frame_from_str\<close> decodes an array of
  exactly five values.
\<close>

record json_codec =
  frame_from_str :: "string \<Rightarrow> string + (json \<times> json \<times> json \<times> json \<times> json)"
  value_from_str :: "string \<Rightarrow> string + json"
  value_to_string :: "json \<Rightarrow> string + string"
  registration_from_slice :: "bytes \<Rightarrow> string + registration"
  limits_from_value :: "json \<Rightarrow> string + execution_limits"
  request_from_value :: "json \<Rightarrow> string + request_envelope"
  lease_from_value :: "json \<Rightarrow> string + authority_lease"

section \<open>Frames\<close>

fun optional_string :: "json \<Rightarrow> control_plane_error + string option" where
  "optional_string JNull = Inr None"
| "optional_string (JString s) = Inr (Some s)"
| "optional_string _ = Inl (Transport ''Phoenix reference must be a string or null'')"

definition required_string :: "json \<Rightarrow> string \<Rightarrow> control_plane_error + string" where
  "required_string value field =
     (case as_str value of
        Some s \<Rightarrow> Inr s
      | None \<Rightarrow> Inl (Transport (''Phoenix '' @ field @ '' must be a string'')))"

definition frame_parse :: "json_codec \<Rightarrow> string \<Rightarrow> control_plane_error + frame" where
  "frame_parse jc str =
     (if length str > MAX_WIRE_BYTES then Inl (Transport ''WebSocket message exceeds 4 MiB'')
      else case frame_from_str jc str of
        Inl e \<Rightarrow> Inl (Transport (''invalid Phoenix frame: '' @ e))
      | Inr (jref, ref, tp, ev, payload) \<Rightarrow>
          (case optional_string jref of Inl e \<Rightarrow> Inl e | Inr jref \<Rightarrow>
          (case optional_string ref of Inl e \<Rightarrow> Inl e | Inr ref \<Rightarrow>
          (case required_string tp ''topic'' of Inl e \<Rightarrow> Inl e | Inr tp \<Rightarrow>
          (case required_string ev ''event'' of Inl e \<Rightarrow> Inl e | Inr ev \<Rightarrow>
             Inr \<lparr>join_ref = jref, frame_reference = ref, frame_topic = tp, frame_event = ev,
                  frame_payload = payload\<rparr>)))))"

text \<open>The value of the macro \<open>json!\<close> for an optional string, and for a frame.\<close>

definition json_optional :: "string option \<Rightarrow> json" where
  "json_optional s = (case s of None \<Rightarrow> JNull | Some s \<Rightarrow> JString s)"

definition frame_value :: "frame \<Rightarrow> json" where
  "frame_value f =
     JArray [json_optional (join_ref f), json_optional (frame_reference f), JString (frame_topic f),
       JString (frame_event f), frame_payload f]"

definition frame_serialize :: "json_codec \<Rightarrow> frame \<Rightarrow> control_plane_error + string" where
  "frame_serialize jc f =
     (case value_to_string jc (frame_value f) of
        Inl e \<Rightarrow> Inl (Transport e)
      | Inr str \<Rightarrow>
          if length str > MAX_WIRE_BYTES then Inl (Transport ''outbound frame exceeds 4 MiB'')
          else Inr str)"

section \<open>The base URL\<close>

text \<open>\<open>IpAddr::is_loopback\<close>: 127.0.0.0/8, and ::1.\<close>

definition ipv4_is_loopback :: "32 word \<Rightarrow> bool" where
  "ipv4_is_loopback ip \<longleftrightarrow> drop_bit 24 ip = 127"

definition ipv6_is_loopback :: "128 word \<Rightarrow> bool" where
  "ipv6_is_loopback ip \<longleftrightarrow> ip = 1"

fun host_is_loopback :: "url_host option \<Rightarrow> bool" where
  "host_is_loopback (Some (Domain d)) = (d = ''localhost'')"
| "host_is_loopback (Some (Ipv4 ip)) = ipv4_is_loopback ip"
| "host_is_loopback (Some (Ipv6 ip)) = ipv6_is_loopback ip"
| "host_is_loopback None = False"

definition validate_base_url :: "'u url_ops \<Rightarrow> string \<Rightarrow> control_plane_error + 'u" where
  "validate_base_url uo input =
     (case url_parse uo input of
        Inl e \<Rightarrow> Inl (InvalidUrl e)
      | Inr url \<Rightarrow>
          if url_scheme uo url \<notin> {''http'', ''https''} \<or> url_cannot_be_a_base uo url \<or>
             url_query uo url \<noteq> None \<or> url_fragment uo url \<noteq> None then
            Inl (InvalidUrl ''expected an http(s) base URL without query or fragment'')
          else if \<not> host_is_loopback (url_host uo url) then
            Inl (InvalidUrl ''host must be loopback'')
          else Inr url)"

section \<open>Registration\<close>

text \<open>What the build and the platform contribute to a registration.\<close>

record build_info =
  platform :: string
  architecture :: string
  pkg_version :: string

text \<open>The JSON of \<open>RegistrationRequest\<close>.\<close>

definition registration_request :: "build_info \<Rightarrow> string \<Rightarrow> json" where
  "registration_request build root =
     JObject [(''workspace_root'', JString root), (''name'', JString ''kodo''),
       (''platform'', JString (platform build)), (''architecture'', JString (architecture build)),
       (''runner_version'', JString (pkg_version build)),
       (''protocol_version'', JNumber (Integer (uint PROTOCOL_VERSION))),
       (''capabilities'', JArray (map JString RUNNER_CAPABILITIES))]"

definition validate_registration :: "uuid_ops \<Rightarrow> registration \<Rightarrow> control_plane_error + unit" where
  "validate_registration ids r =
     (if runner_id r = [] \<or> token r = [] \<or> topic r = [] \<or> socket_path r = [] \<or>
         token_expires_in r = 0 \<or> reg_protocol_version r \<noteq> PROTOCOL_VERSION \<or>
         \<not> starts_with ''/'' (socket_path r) \<or> topic r \<noteq> ''runner:'' @ runner_id r \<or>
         uuid_parse_str ids (runner_id r) = None then
        Inl (Registration ''response contains invalid or unsupported fields'')
      else Inr ())"

fun registration_body :: "bytes \<Rightarrow> (string + bytes) list \<Rightarrow> control_plane_error + bytes" where
  "registration_body body [] = Inr body"
| "registration_body body (Inl e # _) = Inl (Registration e)"
| "registration_body body (Inr chunk # rest) =
     (if saturating_add (length body) (length chunk) > MAX_REGISTRATION_BYTES then
        Inl (Registration ''response exceeds size limit'')
      else registration_body (body @ chunk) rest)"

text \<open>\<open>client\<close> sends one request; \<open>status_text\<close> renders an HTTP status.\<close>

definition register ::
  "'u url_ops \<Rightarrow> uuid_ops \<Rightarrow> json_codec \<Rightarrow> build_info \<Rightarrow> (u16 \<Rightarrow> string) \<Rightarrow>
   ('u http_request \<Rightarrow> string + http_response) \<Rightarrow> 'u \<Rightarrow> string \<Rightarrow> string \<Rightarrow>
   control_plane_error + registration" where
  "register uo ids jc build status_text client base root agent_token =
     (case url_join uo base (trim_end_matches (url_path uo base) (CHR ''/'') @ ''/'' @ REGISTRATION_PATH) of
        Inl e \<Rightarrow> Inl (InvalidUrl e)
      | Inr endpoint \<Rightarrow>
          (case client \<lparr>http_method = Post, http_url = endpoint, http_bearer = agent_token,
                        http_json = Some (registration_request build root)\<rparr> of
             Inl e \<Rightarrow> Inl (Registration e)
           | Inr response \<Rightarrow>
               if \<not> is_success (http_status response) then
                 Inl (Registration (''HTTP '' @ status_text (http_status response)))
               else if (case http_content_length response of None \<Rightarrow> False
                        | Some n \<Rightarrow> unat n > MAX_REGISTRATION_BYTES) then
                 Inl (Registration ''response exceeds size limit'')
               else case registration_body [] (http_chunks response) of
                 Inl e \<Rightarrow> Inl e
               | Inr body \<Rightarrow>
                   (case registration_from_slice jc body of
                      Inl e \<Rightarrow> Inl (Registration (''invalid response: '' @ e))
                    | Inr registration \<Rightarrow>
                        (case validate_registration ids registration of
                           Inl e \<Rightarrow> Inl e
                         | Inr _ \<Rightarrow> Inr registration))))"

section \<open>The socket\<close>

datatype ws_message = WsText string | WsOther

text \<open>
  A WebSocket: the messages and errors still to be received, after which the stream ends; the
  texts sent; and the error, if any, of the send after so many successful ones.
\<close>

record websocket =
  ws_incoming :: "(string + ws_message) list"
  ws_sent :: "string list"
  ws_send_error :: "nat \<Rightarrow> string option"

definition send_frame ::
  "json_codec \<Rightarrow> websocket \<Rightarrow> frame \<Rightarrow> websocket \<times> (control_plane_error + unit)" where
  "send_frame jc ws f =
     (case frame_serialize jc f of
        Inl e \<Rightarrow> (ws, Inl e)
      | Inr str \<Rightarrow>
          (case ws_send_error ws (length (ws_sent ws)) of
             Some e \<Rightarrow> (ws, Inl (Transport e))
           | None \<Rightarrow> (ws\<lparr>ws_sent := ws_sent ws @ [str]\<rparr>, Inr ())))"

section \<open>Joining the channel\<close>

definition parse_join_limits :: "json_codec \<Rightarrow> json \<Rightarrow> control_plane_error + execution_limits" where
  "parse_join_limits jc payload =
     (if get_str payload ''status'' \<noteq> Some ''ok'' then Inl (Transport ''channel join rejected'')
      else case Option.bind (json_get payload ''response'') (\<lambda>response. json_get response ''limits'') of
        None \<Rightarrow> Inl (Configuration ''join response omitted limits'')
      | Some value \<Rightarrow>
          (case limits_from_value jc value of
             Inl e \<Rightarrow> Inl (Configuration e)
           | Inr limits \<Rightarrow>
               (case validate limits of
                  Inl e \<Rightarrow> Inl (Configuration e)
                | Inr _ \<Rightarrow> Inr limits)))"

definition is_closing :: "string \<Rightarrow> bool" where
  "is_closing event \<longleftrightarrow> event = ''phx_error'' \<or> event = ''phx_close''"

text \<open>The loop of \<open>join\<close>: the messages that remain, and its result.\<close>

fun join_loop ::
  "json_codec \<Rightarrow> registration \<Rightarrow> (string + ws_message) list \<Rightarrow>
   (string + ws_message) list \<times> (control_plane_error + execution_limits)" where
  "join_loop jc reg [] =
     ([], Inl (Transport ''connection closed before channel join completed''))"
| "join_loop jc reg (Inl e # rest) = (rest, Inl (Transport e))"
| "join_loop jc reg (Inr WsOther # rest) = join_loop jc reg rest"
| "join_loop jc reg (Inr (WsText str) # rest) =
     (case frame_parse jc str of
        Inl e \<Rightarrow> (rest, Inl e)
      | Inr f \<Rightarrow>
          if frame_topic f = topic reg \<and> frame_event f = ''phx_reply'' \<and>
             frame_reference f = Some JOIN_REFERENCE then
            (rest, parse_join_limits jc (frame_payload f))
          else if is_closing (frame_event f) then (rest, Inl (Transport ''channel join rejected''))
          else join_loop jc reg rest)"

definition join_frame :: "registration \<Rightarrow> frame" where
  "join_frame reg =
     \<lparr>join_ref = Some JOIN_REFERENCE, frame_reference = Some JOIN_REFERENCE, frame_topic = topic reg,
      frame_event = ''phx_join'',
      frame_payload = JObject [(''protocol_version'', JNumber (Integer (uint PROTOCOL_VERSION)))]\<rparr>"

definition join ::
  "json_codec \<Rightarrow> websocket \<Rightarrow> registration \<Rightarrow> control_plane_error + websocket \<times> execution_limits" where
  "join jc ws reg =
     (case send_frame jc ws (join_frame reg) of
        (ws, Inl e) \<Rightarrow> Inl e
      | (ws, Inr _) \<Rightarrow>
          (case join_loop jc reg (ws_incoming ws) of
             (rest, Inl e) \<Rightarrow> Inl e
           | (rest, Inr limits) \<Rightarrow> Inr (ws\<lparr>ws_incoming := rest\<rparr>, limits)))"

section \<open>Connecting\<close>

definition redact_error :: "string \<Rightarrow> string \<Rightarrow> string" where
  "redact_error error tok = str_replace tok REDACTED error"

datatype connect_error = AuthRejected | ConnectFailed control_plane_error

text \<open>What the handshake reports: an HTTP status with the rendered error, or another error.\<close>

datatype handshake_error = HandshakeHttp u16 string | HandshakeFailed string

definition socket_url :: "'u url_ops \<Rightarrow> 'u \<Rightarrow> registration \<Rightarrow> 'u option" where
  "socket_url uo base reg =
     map_option (\<lambda>url.
         url_append_pair uo
           (url_append_pair uo (url_clear_query uo (url_set_path uo url (socket_path reg)))
             ''token'' (token reg))
           ''vsn'' PHOENIX_SERIALIZER_VERSION)
       (url_set_scheme uo base (if url_scheme uo base = ''https'' then ''wss'' else ''ws''))"

text \<open>\<open>connect\<close> is the handshake, for the largest message and frame and a URL.\<close>

definition connect_and_join ::
  "'u url_ops \<Rightarrow> json_codec \<Rightarrow> (usize \<Rightarrow> usize \<Rightarrow> string \<Rightarrow> handshake_error + websocket) \<Rightarrow> 'u \<Rightarrow>
   registration \<Rightarrow> connect_error + websocket \<times> execution_limits" where
  "connect_and_join uo jc connect base reg =
     (case socket_url uo base reg of
        None \<Rightarrow> Inl (ConnectFailed (InvalidUrl ''invalid socket scheme''))
      | Some url \<Rightarrow>
          (case connect MAX_WIRE_BYTES MAX_WIRE_BYTES (url_as_str uo url) of
             Inl (HandshakeHttp status e) \<Rightarrow>
               if status = 401 \<or> status = 403 then Inl AuthRejected
               else Inl (ConnectFailed (Transport (redact_error e (token reg))))
           | Inl (HandshakeFailed e) \<Rightarrow> Inl (ConnectFailed (Transport (redact_error e (token reg))))
           | Inr ws \<Rightarrow>
               (case join jc ws reg of
                  Inl e \<Rightarrow> Inl (ConnectFailed e)
                | Inr joined \<Rightarrow> Inr joined)))"

section \<open>Interfaces\<close>

interpretation registration_reader:
  bounded_collect MAX_REGISTRATION_BYTES Registration
    "Registration ''response exceeds size limit''" registration_body
  by unfold_locales (simp_all add: MAX_REGISTRATION_BYTES_def usize_max_def)

section \<open>Lemmas\<close>

lemma optional_string_roundtrip [simp]: "optional_string (json_optional s) = Inr s"
  by (cases s) (simp_all add: json_optional_def)

lemma frame_serialize_Inr:
  "frame_serialize jc f = Inr str \<longleftrightarrow>
     value_to_string jc (frame_value f) = Inr str \<and> length str \<le> MAX_WIRE_BYTES"
  by (auto simp: frame_serialize_def split: sum.splits)

lemma validate_registration_Inr:
  "validate_registration ids r = Inr () \<longleftrightarrow>
     token r \<noteq> [] \<and> token_expires_in r \<noteq> 0 \<and> reg_protocol_version r = PROTOCOL_VERSION \<and>
     starts_with ''/'' (socket_path r) \<and> runner_id r \<noteq> [] \<and> topic r = ''runner:'' @ runner_id r \<and>
     uuid_parse_str ids (runner_id r) \<noteq> None"
  by (auto simp: validate_registration_def)

lemma parse_join_limits_Inr:
  "parse_join_limits jc payload = Inr limits \<Longrightarrow> validate limits = Inr ()"
  by (auto simp: parse_join_limits_def split: if_splits option.splits sum.splits)

text \<open>Reading, sending and waiting fail as \<open>Transport\<close>; every other result of the join is that of the
  reply to its own reference.\<close>

lemma optional_string_Inl: "optional_string v = Inl e \<Longrightarrow> \<exists>m. e = Transport m"
  by (cases v) auto

lemma frame_parse_Inl: "frame_parse jc str = Inl e \<Longrightarrow> \<exists>m. e = Transport m"
  by (auto simp: frame_parse_def required_string_def split: if_splits sum.splits prod.splits option.splits
      dest: optional_string_Inl)

lemma join_loop_reply:
  "join_loop jc reg msgs = (rest, result) \<Longrightarrow> (\<forall>m. result \<noteq> Inl (Transport m)) \<Longrightarrow>
   \<exists>skipped str f. msgs = skipped @ Inr (WsText str) # rest \<and> frame_parse jc str = Inr f \<and>
     frame_topic f = topic reg \<and> frame_event f = ''phx_reply'' \<and> frame_reference f = Some JOIN_REFERENCE \<and>
     parse_join_limits jc (frame_payload f) = result"
proof (induction jc reg msgs rule: join_loop.induct)
  case (4 jc reg str msgs)
  then obtain f where f: "frame_parse jc str = Inr f" by (auto split: sum.splits dest: frame_parse_Inl)
  show ?case
  proof (cases "frame_topic f = topic reg \<and> frame_event f = ''phx_reply'' \<and> frame_reference f = Some JOIN_REFERENCE")
    case True
    with 4(2) f have "rest = msgs" "parse_join_limits jc (frame_payload f) = result" by simp_all
    with f True show ?thesis by (metis append_Nil)
  next
    case False
    with 4(2,3) f have "\<not> is_closing (frame_event f)" "join_loop jc reg msgs = (rest, result)"
      by (auto split: if_splits)
    with 4(1) [OF f False] 4(3) show ?thesis by (metis append_Cons)
  qed
next
  case (3 jc reg msgs)
  then show ?case by (simp, metis append_Cons)
qed auto

lemma join_loop_Inr: "join_loop jc reg msgs = (rest, Inr limits) \<Longrightarrow> validate limits = Inr ()"
  using join_loop_reply parse_join_limits_Inr by blast

lemma join_Inr:
  assumes "join jc ws reg = Inr (ws', limits)"
  shows "validate limits = Inr ()"
    "\<exists>str. frame_serialize jc (join_frame reg) = Inr str \<and> ws_sent ws' = ws_sent ws @ [str]"
  using assms
  by (auto simp: join_def send_frame_def split: prod.splits sum.splits option.splits dest!: join_loop_Inr)

section \<open>Properties\<close>

text \<open>Frames survive the wire: what \<open>frame_serialize\<close> produces is within the size limit and
  \<open>frame_parse\<close> reads it back as the same frame, for any JSON library that reads back the
  arrays it prints.\<close>

theorem frame_roundtrip:
  assumes "\<And>a b c d e str. value_to_string jc (JArray [a, b, c, d, e]) = Inr str \<Longrightarrow>
      frame_from_str jc str = Inr (a, b, c, d, e)"
    and "frame_serialize jc f = Inr str"
  shows "length str \<le> MAX_WIRE_BYTES \<and> frame_parse jc str = Inr f"
proof -
  have str: "value_to_string jc (frame_value f) = Inr str" "length str \<le> MAX_WIRE_BYTES"
    using assms(2) by (simp_all add: frame_serialize_Inr)
  have "frame_from_str jc str =
      Inr (json_optional (join_ref f), json_optional (frame_reference f), JString (frame_topic f),
        JString (frame_event f), frame_payload f)"
    by (rule assms(1)) (use str(1) in \<open>simp add: frame_value_def\<close>)
  with str(2) show ?thesis by (simp add: frame_parse_def required_string_def)
qed

text \<open>A JSON library that knows one text, the join frame of one registration.\<close>

definition demo_registration :: registration where
  "demo_registration =
     \<lparr>runner_id = ''r'', token = ''t0k3n'', socket_path = ''/runner/websocket'', topic = ''runner:r'',
      reg_protocol_version = 5, token_expires_in = 60\<rparr>"

definition demo_json :: json_codec where
  "demo_json =
     \<lparr>frame_from_str = (\<lambda>s. if s = ''join'' then
          Inr (JString ''1'', JString ''1'', JString ''runner:r'', JString ''phx_join'',
               JObject [(''protocol_version'', JNumber (Integer 5))])
        else if s = ''joined'' then
          Inr (JNull, JString ''1'', JString ''runner:r'', JString ''phx_reply'',
               JObject [(''status'', JString ''ok''), (''response'', JObject [(''limits'', JNull)])])
        else if s = ''bare'' then
          Inr (JNull, JString ''1'', JString ''runner:r'', JString ''phx_reply'',
               JObject [(''status'', JString ''ok'')])
        else Inl ''unknown''),
      value_from_str = (\<lambda>s. Inr (JString s)),
      value_to_string = (\<lambda>v. if v = JArray [JString ''1'', JString ''1'', JString ''runner:r'',
          JString ''phx_join'', JObject [(''protocol_version'', JNumber (Integer 5))]]
        then Inr ''join'' else Inl ''unknown''),
      registration_from_slice = (\<lambda>b. if b = ''body'' then Inr demo_registration else Inl ''unknown''),
      limits_from_value = (\<lambda>v. Inr standalone),
      request_from_value = (\<lambda>v. Inl ''unknown''), lease_from_value = (\<lambda>v. Inl ''unknown'')\<rparr>"

lemma demo_join_frame:
  "frame_value (join_frame demo_registration) =
     JArray [JString ''1'', JString ''1'', JString ''runner:r'', JString ''phx_join'',
       JObject [(''protocol_version'', JNumber (Integer 5))]]"
  by (simp add: frame_value_def join_frame_def json_optional_def JOIN_REFERENCE_def demo_registration_def
      PROTOCOL_VERSION_def)

theorem frame_roundtrip_witness:
  "frame_serialize demo_json (join_frame demo_registration) = Inr ''join'' \<and>
   frame_parse demo_json ''join'' = Inr (join_frame demo_registration)"
proof -
  have s: "frame_serialize demo_json (join_frame demo_registration) = Inr ''join''"
    by (simp add: frame_serialize_Inr demo_join_frame demo_json_def MAX_WIRE_BYTES_def)
  have law: "frame_from_str demo_json str = Inr (a, b, c, d, e)"
    if "value_to_string demo_json (JArray [a, b, c, d, e]) = Inr str" for a b c d e str
    using that by (auto simp: demo_json_def split: if_splits)
  from s frame_roundtrip [OF law s] show ?thesis by simp
qed


text \<open>C36.  A registration is accepted only as a whole and only if it is usable.  When \<open>register\<close>
  succeeds, the agent token was posted to the registration endpoint below the base URL, the
  status was a success, the body arrived completely within the limit and is what was
  decoded, and the registration has a non-empty unexpired token, this protocol version, an absolute
  socket path and the topic of its runner identifier, which is a UUID.\<close>

theorem register_accepts_only_usable:
  assumes "register uo ids jc build status_text client base root agent_token = Inr r"
  shows "\<exists>endpoint response parts.
    url_join uo base (trim_end_matches (url_path uo base) (CHR ''/'') @ ''/api/runners'') = Inr endpoint \<and>
    client \<lparr>http_method = Post, http_url = endpoint, http_bearer = agent_token,
            http_json = Some (registration_request build root)\<rparr> = Inr response \<and>
    is_success (http_status response) \<and> http_chunks response = map Inr parts \<and>
    length (concat parts) \<le> MAX_REGISTRATION_BYTES \<and> registration_from_slice jc (concat parts) = Inr r \<and>
    token r \<noteq> [] \<and> token_expires_in r \<noteq> 0 \<and> reg_protocol_version r = PROTOCOL_VERSION \<and>
    starts_with ''/'' (socket_path r) \<and> topic r = ''runner:'' @ runner_id r \<and>
    uuid_parse_str ids (runner_id r) \<noteq> None"
proof -
  obtain endpoint response body where r:
    "url_join uo base (trim_end_matches (url_path uo base) (CHR ''/'') @ ''/api/runners'') = Inr endpoint"
    "client \<lparr>http_method = Post, http_url = endpoint, http_bearer = agent_token,
            http_json = Some (registration_request build root)\<rparr> = Inr response"
    "is_success (http_status response)" "registration_body [] (http_chunks response) = Inr body"
    "registration_from_slice jc body = Inr r" "validate_registration ids r = Inr ()"
    using assms
    by (auto simp: register_def REGISTRATION_PATH_def split: sum.splits if_splits)
  obtain parts where "http_chunks response = map Inr parts" "body = concat parts"
    "length body \<le> MAX_REGISTRATION_BYTES"
    using registration_reader.collect_whole [OF r(4)] by auto
  with r(1-3,5) r(6) [unfolded validate_registration_Inr] show ?thesis by blast
qed

text \<open>URLs as strings, for the witnesses.\<close>

definition demo_urls :: "string url_ops" where
  "demo_urls =
     \<lparr>url_parse = Inr, url_scheme = (\<lambda>_. ''http''), url_cannot_be_a_base = (\<lambda>_. False),
      url_host = (\<lambda>_. Some (Domain ''localhost'')), url_path = (\<lambda>_. ''/''), url_query = (\<lambda>_. None),
      url_fragment = (\<lambda>_. None), url_username = (\<lambda>_. []), url_password = (\<lambda>_. None),
      url_join = (\<lambda>u p. Inr (u @ p)), url_set_scheme = (\<lambda>u s. Some u), url_set_path = (@),
      url_clear_query = (\<lambda>u. u), url_append_pair = (\<lambda>u k v. u @ ''&'' @ k @ ''='' @ v),
      url_as_str = (\<lambda>u. u)\<rparr>"

definition demo_ids :: uuid_ops where
  "demo_ids = \<lparr>uuid_parse_str = (\<lambda>s. if s = ''r'' then Some 7 else None), uuid_to_string = (\<lambda>_. ''r'')\<rparr>"

definition demo_build :: build_info where
  "demo_build = \<lparr>platform = ''linux'', architecture = ''x86_64'', pkg_version = ''0.1.0''\<rparr>"

definition demo_client :: "string http_request \<Rightarrow> string + http_response" where
  "demo_client request =
     Inr \<lparr>http_status = 200, http_content_length = None, http_chunks = [Inr ''bo'', Inr ''dy'']\<rparr>"

lemma demo_register:
  "register demo_urls demo_ids demo_json demo_build (\<lambda>_. []) demo_client ''http://localhost'' ''/w'' ''a'' =
     Inr demo_registration"
proof -
  have "registration_body [] [Inr ''bo'', Inr ''dy''] = Inr ''body''"
    by (simp add: MAX_REGISTRATION_BYTES_def saturating_add_def usize_max_def)
  moreover have "validate_registration demo_ids demo_registration = Inr ()"
    by (simp add: validate_registration_Inr demo_registration_def demo_ids_def PROTOCOL_VERSION_def)
  ultimately show ?thesis
    by (simp add: register_def demo_urls_def demo_client_def is_success_def demo_json_def)
qed

theorem register_accepts_only_usable_witness:
  "register demo_urls demo_ids demo_json demo_build (\<lambda>_. []) demo_client ''http://localhost'' ''/w'' ''a'' =
     Inr demo_registration \<and>
   topic demo_registration = ''runner:'' @ runner_id demo_registration"
  using demo_register register_accepts_only_usable [OF demo_register] by blast

text \<open>The channel token does not leak through a failed handshake: an error that is reported
  and not taken as a rejected token has the token removed, whatever message the library
  rendered, for every token without brackets that is not a part of the replacement text.\<close>

theorem handshake_error_redacted:
  assumes "socket_url uo base reg = Some url"
    and "connect MAX_WIRE_BYTES MAX_WIRE_BYTES (url_as_str uo url) = Inl e"
    and "connect_and_join uo jc connect base reg = Inl (ConnectFailed error)"
    and "validate_registration ids reg = Inr ()"
    and "CHR ''['' \<notin> set (token reg)" "CHR '']'' \<notin> set (token reg)"
    and "\<not> str_contains (token reg) ''REDACTED''"
  shows "\<exists>message. error = Transport message \<and> \<not> str_contains (token reg) message"
proof -
  have "token reg \<noteq> []" using assms(4) by (simp add: validate_registration_Inr)
  with redaction_removes assms(5-7) have "\<not> str_contains (token reg) (redact_error m (token reg))" for m
    by (simp add: redact_error_def)
  with assms(1-3) show ?thesis
    by (auto simp: connect_and_join_def split: handshake_error.splits if_splits)
qed

theorem handshake_error_redacted_witness:
  "\<exists>message. connect_and_join demo_urls demo_json (\<lambda>_ _ url. Inl (HandshakeFailed (''GET '' @ url)))
       ''ws://localhost'' demo_registration = Inl (ConnectFailed (Transport message)) \<and>
     \<not> str_contains ''t0k3n'' message"
proof -
  let ?c = "\<lambda>_ _ url. Inl (HandshakeFailed (''GET '' @ url))"
  let ?u = "''ws://localhost/runner/websocket&token=t0k3n&vsn=2.0.0''"
  have u: "socket_url demo_urls ''ws://localhost'' demo_registration = Some ?u"
    by (simp add: socket_url_def demo_urls_def demo_registration_def PHOENIX_SERIALIZER_VERSION_def)
  then obtain m where j: "connect_and_join demo_urls demo_json ?c ''ws://localhost'' demo_registration =
      Inl (ConnectFailed (Transport m))"
    by (simp add: connect_and_join_def)
  have t: "token demo_registration = ''t0k3n''" by (simp add: demo_registration_def)
  have v: "validate_registration demo_ids demo_registration = Inr ()"
    by (simp add: validate_registration_Inr demo_registration_def demo_ids_def PROTOCOL_VERSION_def)
  have n: "\<not> str_contains ''t0k3n'' ''REDACTED''" by code_simp
  have "\<exists>message. Transport m = Transport message \<and> \<not> str_contains (token demo_registration) message"
    by (rule handshake_error_redacted [OF u _ j v]) (use n in \<open>simp_all add: t\<close>)
  with j t show ?thesis by auto
qed

end
