(* ===== verification/Channel.thy ===== *)
theory Channel
  imports Dispatcher Control_Plane "HOL-Library.Multiset"
begin

text \<open>
  The loop of a joined channel, \<open>channel_loop\<close> of \<^verbatim>\<open>src/crates/kodo/src/control_plane.rs\<close>.  The
  three branches of its \<open>select!\<close> are three handlers; the step relation takes them in any order
  that the guards allow, interleaved with the polling of the request futures and with the
  tasks of the dispatcher.  A request future runs \<open>dispatch_connected\<close> when it is first polled,
  and then waits for its slot; leaving the loop drops the futures, and with them their waiters, but
  not the executions.
\<close>

section \<open>State\<close>

datatype request_future = Unpolled | Awaiting nat | Ready string

text \<open>
  \<open>ch_accepted\<close> and \<open>ch_answered\<close> record, for the statements only, the references of the tool
  requests that were accepted, and the responses that were sent.
\<close>

record channel =
  ch_socket :: websocket
  ch_next_ref :: u64
  ch_heartbeat :: instant
  ch_requests :: "(string option \<times> request_envelope \<times> request_future) list"
  ch_accepted :: "string option list"
  ch_answered :: "(string option \<times> request_envelope \<times> string) list"
  ch_heartbeats :: "string list"

record channel_world =
  cw_channel :: channel
  cw_dispatch :: dispatch_world
  cw_status :: "uuid set option"
  cw_reported :: "uuid list"
  cw_result :: "(control_plane_error + unit) option"

section \<open>Handlers\<close>

text \<open>\<open>HeadlessStatus::observe\<close>.\<close>

definition observe :: "uuid set \<Rightarrow> request_envelope \<Rightarrow> uuid set \<times> uuid option" where
  "observe reported request =
     (case req_authority request of
        None \<Rightarrow> (reported, None)
      | Some lease \<Rightarrow>
          (insert (lease_session_id lease) reported,
           if lease_session_id lease \<in> reported then None else Some (lease_session_id lease)))"

definition observe_request :: "request_envelope \<Rightarrow> channel_world \<Rightarrow> channel_world" where
  "observe_request request w =
     (case cw_status w of
        None \<Rightarrow> w
      | Some reported \<Rightarrow>
          (let (reported', session) = observe reported request
           in w\<lparr>cw_status := Some reported',
                cw_reported := cw_reported w @ (case session of None \<Rightarrow> [] | Some s \<Rightarrow> [s])\<rparr>))"

text \<open>Leaving the loop drops the futures: a waiter goes away, an unpolled request never starts.\<close>

definition drop_waiter :: "nat \<Rightarrow> dispatch_world \<Rightarrow> dispatch_world" where
  "drop_waiter k dw = dw\<lparr>waiters := (waiters dw)[k := (waiters dw ! k)\<lparr>waiter_phase := WaitDropped\<rparr>]\<rparr>"

definition drop_future :: "dispatch_world \<Rightarrow> string option \<times> request_envelope \<times> request_future \<Rightarrow> dispatch_world" where
  "drop_future dw fut = (case snd (snd fut) of Awaiting k \<Rightarrow> drop_waiter k dw | _ \<Rightarrow> dw)"

definition finish :: "control_plane_error + unit \<Rightarrow> channel_world \<Rightarrow> channel_world" where
  "finish result w =
     w\<lparr>cw_result := Some result,
       cw_dispatch := foldl drop_future (cw_dispatch w) (ch_requests (cw_channel w)),
       cw_channel := (cw_channel w)\<lparr>ch_requests := []\<rparr>\<rparr>"

definition push_request :: "string option \<Rightarrow> request_envelope \<Rightarrow> channel_world \<Rightarrow> channel_world" where
  "push_request ref request w =
     w\<lparr>cw_channel := (cw_channel w)\<lparr>
         ch_requests := ch_requests (cw_channel w) @ [(ref, request, Unpolled)],
         ch_accepted := ch_accepted (cw_channel w) @ [ref]\<rparr>\<rparr>"

definition handle_frame ::
  "json_codec \<Rightarrow> registration \<Rightarrow> frame \<Rightarrow> channel_world \<Rightarrow> channel_world" where
  "handle_frame jc reg f w =
     (if is_closing (frame_event f) then finish (Inr ()) w
      else if frame_topic f = topic reg \<and> frame_event f = ''tool_request'' then
        (case request_from_value jc (frame_payload f) of
           Inl e \<Rightarrow> finish (Inl (Transport (''invalid tool request: '' @ e))) w
         | Inr request \<Rightarrow> push_request (frame_reference f) request (observe_request request w))
      else if frame_topic f = topic reg \<and> frame_event f = ''authority_lease'' then
        (case lease_from_value jc (frame_payload f) of
           Inl e \<Rightarrow> finish (Inl (Transport (''invalid authority lease: '' @ e))) w
         | Inr lease \<Rightarrow>
             (case renew_authority (wclock (cw_dispatch w)) (disp (cw_dispatch w)) lease of
                Inl _ \<Rightarrow> w
              | Inr d \<Rightarrow> w\<lparr>cw_dispatch := (cw_dispatch w)\<lparr>disp := d\<rparr>\<rparr>))
      else w)"

definition set_socket :: "websocket \<Rightarrow> channel_world \<Rightarrow> channel_world" where
  "set_socket ws w = w\<lparr>cw_channel := (cw_channel w)\<lparr>ch_socket := ws\<rparr>\<rparr>"

definition receive_message :: "json_codec \<Rightarrow> registration \<Rightarrow> channel_world \<Rightarrow> channel_world" where
  "receive_message jc reg w =
     (let ws = ch_socket (cw_channel w) in
      case ws_incoming ws of
        [] \<Rightarrow> finish (Inr ()) w
      | message # rest \<Rightarrow>
          (let w = set_socket (ws\<lparr>ws_incoming := rest\<rparr>) w in
           case message of
             Inl e \<Rightarrow> finish (Inl (Transport e)) w
           | Inr WsOther \<Rightarrow> w
           | Inr (WsText str) \<Rightarrow>
               (case frame_parse jc str of
                  Inl e \<Rightarrow> finish (Inl e) w
                | Inr f \<Rightarrow> handle_frame jc reg f w)))"

text \<open>Polling a request future: the first poll dispatches, later ones look at the waiter.\<close>

definition set_future :: "nat \<Rightarrow> request_future \<Rightarrow> channel_world \<Rightarrow> channel_world" where
  "set_future i fut w =
     (let (ref, request, _) = ch_requests (cw_channel w) ! i
      in w\<lparr>cw_channel := (cw_channel w)\<lparr>
             ch_requests := (ch_requests (cw_channel w))[i := (ref, request, fut)]\<rparr>\<rparr>)"

definition poll_request :: "wire_codec \<Rightarrow> nat \<Rightarrow> channel_world \<Rightarrow> channel_world" where
  "poll_request cx i w =
     (let (ref, request, fut) = ch_requests (cw_channel w) ! i; dw = cw_dispatch w in
      case fut of
        Unpolled \<Rightarrow>
          (let (dw', reply) = arrive cx dw request
           in set_future i
                (case reply of Reply response \<Rightarrow> Ready response | AwaitSlot _ \<Rightarrow> Awaiting (length (waiters dw)))
                (w\<lparr>cw_dispatch := dw'\<rparr>))
      | Awaiting k \<Rightarrow>
          (case waiter_phase (waiters dw ! k) of
             WaitReturned response \<Rightarrow> set_future i (Ready response) w
           | _ \<Rightarrow> w)
      | Ready _ \<Rightarrow> w)"

definition tool_response_frame :: "registration \<Rightarrow> string option \<Rightarrow> json \<Rightarrow> frame" where
  "tool_response_frame reg ref payload =
     \<lparr>join_ref = Some JOIN_REFERENCE, frame_reference = ref, frame_topic = topic reg,
      frame_event = ''tool_response'', frame_payload = payload\<rparr>"

text \<open>\<open>requests.next()\<close> yields the future at \<open>i\<close>, which is ready with \<open>response\<close>.\<close>

definition complete_request ::
  "json_codec \<Rightarrow> registration \<Rightarrow> nat \<Rightarrow> string \<Rightarrow> channel_world \<Rightarrow> channel_world" where
  "complete_request jc reg i response w =
     (let ch = cw_channel w; (ref, request, _) = ch_requests ch ! i;
          w = w\<lparr>cw_channel := ch\<lparr>ch_requests := take i (ch_requests ch) @ drop (Suc i) (ch_requests ch)\<rparr>\<rparr>
      in case value_from_str jc response of
           Inl e \<Rightarrow> finish (Inl (Transport e)) w
         | Inr payload \<Rightarrow>
             (case send_frame jc (ch_socket ch) (tool_response_frame reg ref payload) of
                (ws, Inl e) \<Rightarrow> finish (Inl e) (set_socket ws w)
              | (ws, Inr _) \<Rightarrow>
                  (let w = set_socket ws w
                   in w\<lparr>cw_channel := (cw_channel w)\<lparr>
                         ch_answered := ch_answered (cw_channel w) @ [(ref, request, response)]\<rparr>\<rparr>)))"

definition heartbeat_frame :: "string \<Rightarrow> frame" where
  "heartbeat_frame ref =
     \<lparr>join_ref = None, frame_reference = Some ref, frame_topic = ''phoenix'',
      frame_event = ''heartbeat'', frame_payload = JObject []\<rparr>"

definition heartbeat_tick :: "json_codec \<Rightarrow> channel_world \<Rightarrow> channel_world" where
  "heartbeat_tick jc w =
     (let ch = cw_channel w; ref = show_nat (unat (ch_next_ref ch));
          w = w\<lparr>cw_channel := ch\<lparr>ch_next_ref := ch_next_ref ch + 1,
                ch_heartbeat := ch_heartbeat ch + HEARTBEAT_INTERVAL,
                ch_heartbeats := ch_heartbeats ch @ [ref]\<rparr>\<rparr>
      in case send_frame jc (ch_socket ch) (heartbeat_frame ref) of
           (ws, Inl e) \<Rightarrow> finish (Inl e) (set_socket ws w)
         | (ws, Inr _) \<Rightarrow> set_socket ws w)"

section \<open>The loop\<close>

definition new_channel :: "websocket \<Rightarrow> instant \<Rightarrow> channel" where
  "new_channel ws now =
     \<lparr>ch_socket = ws, ch_next_ref = FIRST_HEARTBEAT_REFERENCE, ch_heartbeat = now + HEARTBEAT_INTERVAL,
      ch_requests = [], ch_accepted = [], ch_answered = [], ch_heartbeats = []\<rparr>"

inductive channel_step ::
  "wire_codec \<Rightarrow> json_codec \<Rightarrow> registration \<Rightarrow> channel_world \<Rightarrow> channel_world \<Rightarrow> bool" for cx jc reg where
  ch_receive: "cw_result w = None \<Longrightarrow> length (ch_requests (cw_channel w)) < MAX_IN_FLIGHT_REQUESTS \<Longrightarrow>
    channel_step cx jc reg w (receive_message jc reg w)"
| ch_poll: "cw_result w = None \<Longrightarrow> i < length (ch_requests (cw_channel w)) \<Longrightarrow>
    channel_step cx jc reg w (poll_request cx i w)"
| ch_complete: "cw_result w = None \<Longrightarrow> i < length (ch_requests (cw_channel w)) \<Longrightarrow>
    ch_requests (cw_channel w) ! i = (ref, request, Ready response) \<Longrightarrow>
    channel_step cx jc reg w (complete_request jc reg i response w)"
| ch_tick: "cw_result w = None \<Longrightarrow> ch_heartbeat (cw_channel w) \<le> wclock (cw_dispatch w) \<Longrightarrow>
    channel_step cx jc reg w (heartbeat_tick jc w)"
| ch_task: "task_step cx (cw_dispatch w) dw \<Longrightarrow> channel_step cx jc reg w (w\<lparr>cw_dispatch := dw\<rparr>)"
| ch_clock: "wclock (cw_dispatch w) \<le> t \<Longrightarrow>
    channel_step cx jc reg w (w\<lparr>cw_dispatch := (cw_dispatch w)\<lparr>wclock := t\<rparr>\<rparr>)"

inductive channel_run ::
  "wire_codec \<Rightarrow> json_codec \<Rightarrow> registration \<Rightarrow> channel_world \<Rightarrow> channel_world \<Rightarrow> bool" for cx jc reg where
  ch_refl: "channel_run cx jc reg w w"
| ch_next: "channel_run cx jc reg w v \<Longrightarrow> channel_step cx jc reg v u \<Longrightarrow> channel_run cx jc reg w u"

section \<open>Worlds that evolve under a live waiter\<close>

text \<open>
  What every step of the dispatcher except the loss of a waiter guarantees to the waiters: the
  slots keep their fingerprints, responses and elections, and a waiter keeps its slot and is not dropped.
\<close>

definition dispatch_grows :: "dispatch_world \<Rightarrow> dispatch_world \<Rightarrow> bool" where
  "dispatch_grows dw dw' \<longleftrightarrow>
     heap_grows (slot_heap (disp dw)) (slot_heap (disp dw')) \<and> prefix (elections dw) (elections dw') \<and>
     length (waiters dw) \<le> length (waiters dw') \<and>
     (\<forall>k < length (waiters dw). waiter_slot (waiters dw' ! k) = waiter_slot (waiters dw ! k) \<and>
        (waiter_phase (waiters dw ! k) \<noteq> WaitDropped \<longrightarrow> waiter_phase (waiters dw' ! k) \<noteq> WaitDropped))"

lemma dispatch_growsI:
  assumes "heap_grows (slot_heap (disp dw)) (slot_heap (disp dw'))" "prefix (elections dw) (elections dw')"
    "waiters dw' = waiters dw @ vs"
  shows "dispatch_grows dw dw'"
  using assms by (auto simp: dispatch_grows_def nth_append)

lemma wait_keeps: "ph \<noteq> WaitDropped \<Longrightarrow> wait_for_response slot ph \<noteq> WaitDropped"
  by (cases ph) (auto split: option.splits)

lemma notify_keeps: "ph \<noteq> WaitDropped \<Longrightarrow> notify_phase ph \<noteq> WaitDropped"
  by (cases ph) auto

lemma task_grows:
  assumes "task_step cx dw dw'" "world_inv dw"
  shows "dispatch_grows dw dw'"
proof -
  have heap: "heap_grows (slot_heap (disp dw)) (slot_heap (disp dw'))"
    by (rule heap_grows_step [OF step_task [OF assms(1)] assms(2)])
  have pre: "prefix (elections dw) (elections dw')" by (rule elections_prefix_step [OF step_task [OF assms(1)]])
  from assms(1) show ?thesis
  proof cases
    case (task_notify i ex response)
    with heap pre show ?thesis by (auto simp: dispatch_grows_def notify_slot_def notify_keeps)
  next
    case (task_wait i v)
    with heap pre show ?thesis by (auto simp: dispatch_grows_def nth_list_update wait_keeps)
  qed (use heap pre in \<open>auto simp: dispatch_grows_def\<close>)
qed

lemma arrive_waiters:
  assumes "arrive cx dw request = (dw', reply)"
  shows "waiters dw' = waiters dw @
    (case reply of Reply _ \<Rightarrow> [] | AwaitSlot sid \<Rightarrow> [\<lparr>waiter_slot = sid, waiter_phase = WaitStart\<rparr>])"
  using assms by (auto simp: arrive_def split: prod.splits dispatch_reply.splits)

lemma arrive_dispatch_grows:
  "arrive cx dw request = (dw', reply) \<Longrightarrow> dispatch_grows dw dw'"
  by (rule dispatch_growsI [OF arrive_grows elections_prefix_step [OF step_arrive] arrive_waiters])

text \<open>The replies that are not the response of an execution.\<close>

definition refusal :: "wire_codec \<Rightarrow> request_envelope \<Rightarrow> string \<Rightarrow> bool" where
  "refusal cx request response \<longleftrightarrow>
     response = unsupported_protocol_response cx (req_request_id request) (req_protocol_version request) \<or>
     response = missing_authority_response cx (req_request_id request) \<or>
     (\<exists>e. response = authority_error_response cx (req_request_id request) e) \<or>
     (\<exists>same. response = expired_request_response cx (req_request_id request) same) \<or>
     response = cache_capacity_response cx (req_request_id request) \<or>
     response = mismatch_response cx (req_request_id request)"

lemma arrive_refusal:
  assumes "arrive cx dw request = (dw', Reply response)"
  shows "refusal cx request response"
proof -
  obtain d ex where "dispatch_connected cx (wclock dw) (disp dw) request = (d, Reply response, ex)"
    using assms by (cases "dispatch_connected cx (wclock dw) (disp dw) request") (auto simp: arrive_def)
  then show ?thesis
    by (auto simp: dispatch_connected_def dispatch_with_authority_def join_slot_def Let_def refusal_def
        split: if_splits option.splits sum.splits prod.splits bool.splits)
qed

section \<open>The invariant of the loop\<close>

definition answer_ok :: "wire_codec \<Rightarrow> dispatch_world \<Rightarrow> request_envelope \<Rightarrow> string \<Rightarrow> bool" where
  "answer_ok cx dw request response \<longleftrightarrow> refusal cx request response \<or>
     (\<exists>sid. slot_of cx dw request sid \<and> slot_response (slot_heap (disp dw) ! sid) = Some response)"

fun future_ok :: "wire_codec \<Rightarrow> dispatch_world \<Rightarrow> request_envelope \<Rightarrow> request_future \<Rightarrow> bool" where
  "future_ok cx dw request Unpolled = True"
| "future_ok cx dw request (Awaiting k) =
     (k < length (waiters dw) \<and> waiter_phase (waiters dw ! k) \<noteq> WaitDropped \<and>
      slot_of cx dw request (waiter_slot (waiters dw ! k)))"
| "future_ok cx dw request (Ready response) = answer_ok cx dw request response"

lemma answer_ok_grows: "dispatch_grows dw dw' \<Longrightarrow>
    answer_ok cx dw request response \<Longrightarrow> answer_ok cx dw' request response"
  unfolding answer_ok_def dispatch_grows_def using slot_of_grows
  by (metis heap_grows_def slot_of_def)

lemma future_ok_grows: "dispatch_grows dw dw' \<Longrightarrow> future_ok cx dw request fut \<Longrightarrow> future_ok cx dw' request fut"
  by (cases fut) (auto simp: dispatch_grows_def intro: slot_of_grows answer_ok_grows [unfolded dispatch_grows_def])

definition loop_inv :: "wire_codec \<Rightarrow> channel_world \<Rightarrow> bool" where
  "loop_inv cx w \<longleftrightarrow>
     dispatch_inv (cw_dispatch w) \<and>
     length (ch_requests (cw_channel w)) \<le> MAX_IN_FLIGHT_REQUESTS \<and>
     (\<forall>(ref, request, fut) \<in> set (ch_requests (cw_channel w)). future_ok cx (cw_dispatch w) request fut) \<and>
     (\<forall>(ref, request, response) \<in> set (ch_answered (cw_channel w)). answer_ok cx (cw_dispatch w) request response)"

text \<open>The references: every accepted request is in flight or answered while the loop runs.\<close>

definition books :: "channel_world \<Rightarrow> bool" where
  "books w \<longleftrightarrow>
     (let pending = mset (map fst (ch_requests (cw_channel w))) + mset (map fst (ch_answered (cw_channel w)))
      in if cw_result w = None then pending = mset (ch_accepted (cw_channel w))
         else pending \<subseteq># mset (ch_accepted (cw_channel w)))"

lemma drop_waiter_run: "k < length (waiters dw) \<Longrightarrow> dispatch_run cx dw (drop_waiter k dw)"
  unfolding drop_waiter_def by (rule dispatch_run_single [OF step_disconnect])

lemma drop_futures_run:
  "(\<forall>fut \<in> set futs. \<forall>k. snd (snd fut) = Awaiting k \<longrightarrow> k < length (waiters dw)) \<Longrightarrow>
   dispatch_run cx dw (foldl drop_future dw futs)"
proof (induction futs arbitrary: dw)
  case (Cons fut futs)
  have "dispatch_run cx dw (drop_future dw fut)"
    using Cons.prems drop_waiter_run by (auto simp: drop_future_def intro: dispatch_refl split: request_future.splits)
  moreover have "length (waiters (drop_future dw fut)) = length (waiters dw)"
    by (auto simp: drop_future_def drop_waiter_def split: request_future.splits)
  then have "dispatch_run cx (drop_future dw fut) (foldl drop_future (drop_future dw fut) futs)"
    by (intro Cons.IH) (use Cons.prems in auto)
  ultimately show ?case using dispatch_run_trans by simp
qed (simp add: dispatch_refl)

lemma finish_run:
  assumes "loop_inv cx w"
  shows "dispatch_run cx (cw_dispatch w) (cw_dispatch (finish r w))"
  using assms unfolding finish_def
  by (simp, intro drop_futures_run) (fastforce simp: loop_inv_def)

lemma drop_futures_heap [simp]:
  "disp (foldl drop_future dw futs) = disp dw \<and> elections (foldl drop_future dw futs) = elections dw"
proof (induction futs arbitrary: dw)
  case (Cons fut futs)
  have "disp (drop_future dw fut) = disp dw" "elections (drop_future dw fut) = elections dw"
    by (simp_all add: drop_future_def drop_waiter_def split: request_future.splits)
  with Cons show ?case by simp
qed simp

lemma finish_inv:
  assumes "loop_inv cx w"
  shows "loop_inv cx (finish r w)"
proof -
  have "dispatch_inv (cw_dispatch (finish r w))"
    using dispatch_inv_run [OF finish_run [OF assms]] assms by (simp add: loop_inv_def)
  moreover have "answer_ok cx (cw_dispatch (finish r w)) = answer_ok cx (cw_dispatch w)"
    by (intro ext) (simp add: answer_ok_def slot_of_def finish_def)
  ultimately show ?thesis using assms by (simp add: loop_inv_def) (simp add: finish_def)
qed

lemma finish_books:
  assumes "mset (map fst (ch_requests (cw_channel w))) + mset (map fst (ch_answered (cw_channel w)))
      \<subseteq># mset (ch_accepted (cw_channel w))"
  shows "books (finish r w)"
  using subset_mset.order_trans [OF mset_subset_eq_add_right assms] by (simp add: books_def finish_def)

text \<open>What each handler has to show: its dispatcher moves by steps of the dispatcher, and the
  invariant and the books are kept.\<close>

definition keeps :: "wire_codec \<Rightarrow> channel_world \<Rightarrow> channel_world \<Rightarrow> bool" where
  "keeps cx w v \<longleftrightarrow> dispatch_run cx (cw_dispatch w) (cw_dispatch v) \<and> loop_inv cx v \<and> books v"

named_theorems channel_keeps \<open>each handler of the channel keeps the invariant\<close>

lemma books_partial:
  "books w \<Longrightarrow> mset (map fst (ch_requests (cw_channel w))) + mset (map fst (ch_answered (cw_channel w)))
     \<subseteq># mset (ch_accepted (cw_channel w))"
  by (simp add: books_def Let_def split: if_splits)

lemma finish_keeps [channel_keeps]: "loop_inv cx w \<Longrightarrow> books w \<Longrightarrow> keeps cx w (finish r w)"
  unfolding keeps_def by (blast intro: finish_run finish_inv finish_books books_partial)

lemma books_dispatch [simp]: "books (w\<lparr>cw_dispatch := dw\<rparr>) = books w"
  by (simp add: books_def)

lemma set_socket_simps [simp]:
  "loop_inv cx (set_socket ws w) = loop_inv cx w" "books (set_socket ws w) = books w"
  "cw_dispatch (set_socket ws w) = cw_dispatch w" "cw_result (set_socket ws w) = cw_result w"
  by (simp_all add: set_socket_def loop_inv_def books_def)

lemma keeps_set_socket:
  "keeps cx (set_socket ws w) v = keeps cx w v" "keeps cx w (set_socket ws v) = keeps cx w v"
  by (simp_all add: keeps_def)

lemma observe_simps [simp]:
  "cw_channel (observe_request request w) = cw_channel w"
  "cw_dispatch (observe_request request w) = cw_dispatch w"
  "cw_result (observe_request request w) = cw_result w"
  by (simp_all add: observe_request_def split_beta split: option.splits)

lemma push_keeps [channel_keeps]:
  assumes "loop_inv cx w" "books w" "cw_result w = None"
    "length (ch_requests (cw_channel w)) < MAX_IN_FLIGHT_REQUESTS"
  shows "keeps cx w (push_request ref request (observe_request request w))"
  using assms by (auto simp: keeps_def push_request_def loop_inv_def books_def intro: dispatch_refl)

lemma grows_keeps:
  assumes "loop_inv cx w" "books w" "dispatch_run cx (cw_dispatch w) dw" "dispatch_grows (cw_dispatch w) dw"
  shows "keeps cx w (w\<lparr>cw_dispatch := dw\<rparr>)"
proof -
  have "dispatch_inv dw"
    using dispatch_inv_run [OF assms(3)] assms(1) by (simp add: loop_inv_def)
  moreover have "\<forall>(ref, request, fut) \<in> set (ch_requests (cw_channel w)). future_ok cx dw request fut"
    using assms(1) future_ok_grows [OF assms(4)] unfolding loop_inv_def by blast
  moreover have "\<forall>(ref, request, response) \<in> set (ch_answered (cw_channel w)). answer_ok cx dw request response"
    using assms(1) answer_ok_grows [OF assms(4)] unfolding loop_inv_def by blast
  ultimately show ?thesis
    using assms(1-3) by (simp add: keeps_def loop_inv_def)
qed

lemma renew_keeps [channel_keeps]:
  assumes "loop_inv cx w" "books w"
    "renew_authority (wclock (cw_dispatch w)) (disp (cw_dispatch w)) lease = Inr d"
  shows "keeps cx w (w\<lparr>cw_dispatch := (cw_dispatch w)\<lparr>disp := d\<rparr>\<rparr>)"
proof (rule grows_keeps [OF assms(1,2)])
  show "dispatch_run cx (cw_dispatch w) ((cw_dispatch w)\<lparr>disp := d\<rparr>)"
    by (rule dispatch_run_single [OF step_renew [OF assms(3)]])
  show "dispatch_grows (cw_dispatch w) ((cw_dispatch w)\<lparr>disp := d\<rparr>)"
    by (rule dispatch_growsI [where vs = "[]"])
       (use assms(3) in \<open>auto simp: renew_authority_def split: sum.splits\<close>)
qed

lemma keeps_refl: "loop_inv cx w \<Longrightarrow> books w \<Longrightarrow> keeps cx w w"
  by (simp add: keeps_def dispatch_refl)

lemma handle_frame_keeps [channel_keeps]:
  assumes "loop_inv cx w" "books w" "cw_result w = None"
    "length (ch_requests (cw_channel w)) < MAX_IN_FLIGHT_REQUESTS"
  shows "keeps cx w (handle_frame jc reg f w)"
  using assms unfolding handle_frame_def
  by (auto intro: channel_keeps keeps_refl split: sum.splits)

lemma receive_keeps:
  assumes "loop_inv cx w" "books w" "cw_result w = None"
    "length (ch_requests (cw_channel w)) < MAX_IN_FLIGHT_REQUESTS"
  shows "keeps cx w (receive_message jc reg w)"
proof (cases "ws_incoming (ch_socket (cw_channel w))")
  case Nil
  with assms show ?thesis by (simp add: receive_message_def finish_keeps)
next
  case (Cons m rest)
  let ?w = "set_socket ((ch_socket (cw_channel w))\<lparr>ws_incoming := rest\<rparr>) w"
  have k: "keeps cx ?w v \<Longrightarrow> keeps cx w v" for v by (simp add: keeps_set_socket)
  have w: "loop_inv cx ?w" "books ?w" "cw_result ?w = None"
    "length (ch_requests (cw_channel ?w)) < MAX_IN_FLIGHT_REQUESTS"
    using assms by (simp_all, simp add: set_socket_def)
  have e: "receive_message jc reg w = (case m of Inl e \<Rightarrow> finish (Inl (Transport e)) ?w
      | Inr WsOther \<Rightarrow> ?w
      | Inr (WsText str) \<Rightarrow> (case frame_parse jc str of Inl e \<Rightarrow> finish (Inl e) ?w
           | Inr f \<Rightarrow> handle_frame jc reg f ?w))"
    by (simp add: receive_message_def Cons Let_def)
  show ?thesis
    unfolding e by (rule k) (use w in \<open>auto intro: channel_keeps keeps_refl split: sum.splits ws_message.splits\<close>)
qed

lemma set_future_keeps:
  assumes "loop_inv cx w" "books w" "i < length (ch_requests (cw_channel w))"
    "ch_requests (cw_channel w) ! i = (ref, request, old)" "future_ok cx (cw_dispatch w) request fut"
  shows "keeps cx w (set_future i fut w)"
proof -
  let ?rs = "ch_requests (cw_channel w)"
  have "set (?rs[i := (ref, request, fut)]) \<subseteq> insert (ref, request, fut) (set ?rs)"
    by (rule set_update_subset_insert)
  moreover have "map fst (?rs[i := (ref, request, fut)]) = map fst ?rs"
    using assms(3,4) by (simp add: map_project_update)
  ultimately show ?thesis
    using assms unfolding keeps_def loop_inv_def books_def set_future_def Let_def
    by (auto intro: dispatch_refl simp flip: mset_map)
qed

lemma keeps_trans: "keeps cx w v \<Longrightarrow> keeps cx v u \<Longrightarrow> keeps cx w u"
  unfolding keeps_def using dispatch_run_trans by blast

lemma poll_keeps:
  assumes "loop_inv cx w" "books w" "i < length (ch_requests (cw_channel w))"
  shows "keeps cx w (poll_request cx i w)"
proof -
  let ?dw = "cw_dispatch w"
  obtain ref request fut where f: "ch_requests (cw_channel w) ! i = (ref, request, fut)" by (metis prod_cases3)
  have inv: "world_inv ?dw" "election_part ?dw" using assms(1) by (simp_all add: loop_inv_def dispatch_inv_def)
  have ok: "future_ok cx ?dw request fut"
    using assms(1) nth_mem [OF assms(3)] f by (auto simp: loop_inv_def)
  show ?thesis
  proof (cases fut)
    case Unpolled
    obtain dw' reply where a: "arrive cx ?dw request = (dw', reply)" by fastforce
    let ?v = "w\<lparr>cw_dispatch := dw'\<rparr>"
    let ?fut = "case reply of Reply response \<Rightarrow> Ready response | AwaitSlot _ \<Rightarrow> Awaiting (length (waiters ?dw))"
    have v: "keeps cx w ?v"
      using assms(1,2) dispatch_run_single [OF step_arrive [OF a]] arrive_dispatch_grows [OF a]
      by (rule grows_keeps)
    have "future_ok cx dw' request ?fut"
      using arrive_refusal arrive_slot [OF inv(2)] arrive_waiters [OF a] a
      by (auto simp: answer_ok_def split: dispatch_reply.splits)
    then have "keeps cx ?v (set_future i ?fut ?v)"
      using v assms(3) f by (intro set_future_keeps) (simp_all add: keeps_def)
    with v have "keeps cx w (set_future i ?fut ?v)" by (rule keeps_trans)
    then show ?thesis by (simp add: poll_request_def f Unpolled a)
  next
    case (Awaiting k)
    show ?thesis
    proof (cases "\<exists>response. waiter_phase (waiters ?dw ! k) = WaitReturned response")
      case True
      then obtain response where r: "waiter_phase (waiters ?dw ! k) = WaitReturned response" by blast
      have "waiter_ok (slot_heap (disp ?dw)) (unnotified ?dw) (waiters ?dw ! k)"
        using inv(1) ok Awaiting by (simp add: world_inv_def waiter_part_def)
      then have "future_ok cx ?dw request (Ready response)"
        using ok Awaiting r by (auto simp: answer_ok_def waiter_ok_def)
      with assms f have "keeps cx w (set_future i (Ready response) w)" by (intro set_future_keeps)
      then show ?thesis by (simp add: poll_request_def f Awaiting r)
    next
      case False
      then have "poll_request cx i w = w" by (simp add: poll_request_def f Awaiting split: wait_phase.splits)
      then show ?thesis using assms keeps_refl by simp
    qed
  next
    case (Ready response)
    with assms f show ?thesis by (simp add: poll_request_def keeps_refl)
  qed
qed

lemma complete_keeps:
  assumes "loop_inv cx w" "books w" "cw_result w = None" "i < length (ch_requests (cw_channel w))"
    "ch_requests (cw_channel w) ! i = (ref, request, Ready response)"
  shows "keeps cx w (complete_request jc reg i response w)"
proof -
  let ?ch = "cw_channel w" and ?rest = "take i (ch_requests (cw_channel w)) @ drop (Suc i) (ch_requests (cw_channel w))"
  let ?v = "w\<lparr>cw_channel := ?ch\<lparr>ch_requests := ?rest\<rparr>\<rparr>"
  have split: "ch_requests ?ch = take i (ch_requests ?ch) @ (ref, request, Ready response) # drop (Suc i) (ch_requests ?ch)"
    using id_take_nth_drop [OF assms(4)] assms(5) by simp
  have sub: "set ?rest \<subseteq> set (ch_requests ?ch)" by (auto dest: in_set_takeD in_set_dropD)
  have v: "loop_inv cx ?v" using assms(1,4) sub by (auto simp: loop_inv_def)
  have ok: "answer_ok cx (cw_dispatch w) request response"
    using assms(1) nth_mem [OF assms(4)] assms(5) by (auto simp: loop_inv_def)
  have m: "mset (map fst (ch_requests ?ch)) = add_mset ref (mset (map fst ?rest))" by (subst split) simp
  then have part: "mset (map fst ?rest) + mset (map fst (ch_answered ?ch)) \<subseteq># mset (ch_accepted ?ch)"
    using books_partial [OF assms(2)] by (metis (no_types) add_mset_add_single mset_subset_eq_add_left subset_mset.order_trans union_mset_add_mset_left)
  have fin: "keeps cx w (finish r (set_socket ws ?v))" for r ws
  proof -
    have "keeps cx w (finish r u)" if "loop_inv cx u" "cw_dispatch u = cw_dispatch w"
      "mset (map fst (ch_requests (cw_channel u))) + mset (map fst (ch_answered (cw_channel u)))
        \<subseteq># mset (ch_accepted (cw_channel u))" for u
      using finish_run [OF that(1), of r] finish_inv [OF that(1)] finish_books [OF that(3)] that(2)
      by (simp add: keeps_def)
    then show ?thesis using v part by (simp add: set_socket_def loop_inv_def)
  qed
  have fin': "keeps cx w (finish r ?v)" for r
    using fin [of r "ch_socket ?ch"] by (simp add: set_socket_def)
  have sent: "keeps cx w (let w = set_socket ws ?v in w\<lparr>cw_channel := (cw_channel w)\<lparr>
       ch_answered := ch_answered (cw_channel w) @ [(ref, request, response)]\<rparr>\<rparr>)" for ws
    using v ok m assms(2,3)
    by (auto simp: keeps_def Let_def set_socket_def loop_inv_def books_def intro: dispatch_refl)
  show ?thesis
    unfolding complete_request_def Let_def assms(5) prod.case
    using fin fin' sent [unfolded Let_def]
    by (auto split: sum.splits prod.splits)
qed

lemma tick_keeps:
  assumes "loop_inv cx w" "books w"
  shows "keeps cx w (heartbeat_tick jc w)"
proof -
  let ?ch = "cw_channel w" and ?ref = "show_nat (unat (ch_next_ref (cw_channel w)))"
  let ?v = "w\<lparr>cw_channel := ?ch\<lparr>ch_next_ref := ch_next_ref ?ch + 1,
    ch_heartbeat := ch_heartbeat ?ch + HEARTBEAT_INTERVAL, ch_heartbeats := ch_heartbeats ?ch @ [?ref]\<rparr>\<rparr>"
  have v: "loop_inv cx ?v" "books ?v" "cw_dispatch ?v = cw_dispatch w"
    using assms by (simp_all add: loop_inv_def books_def Let_def)
  have "keeps cx w (set_socket ws ?v)" "keeps cx w (finish r (set_socket ws ?v))" for ws r
    using v keeps_refl [of cx ?v] finish_keeps [of cx "set_socket ws ?v" r] by (simp_all add: keeps_def)
  then show ?thesis by (auto simp: heartbeat_tick_def Let_def split: sum.splits prod.splits)
qed

lemma channel_step_keeps:
  assumes "channel_step cx jc reg w v" "loop_inv cx w" "books w"
  shows "keeps cx w v"
  using assms(1)
proof cases
  case (ch_task dw)
  then show ?thesis
    using grows_keeps [OF assms(2,3)] dispatch_run_single [OF step_task] task_grows assms(2)
    by (simp add: loop_inv_def dispatch_inv_def)
next
  case (ch_clock t)
  then show ?thesis
    using grows_keeps [OF assms(2,3) dispatch_run_single [OF step_clock [OF ch_clock(2)]]]
    by (simp add: dispatch_growsI [where vs = "[]"])
qed (use assms receive_keeps poll_keeps complete_keeps tick_keeps in auto)

lemma channel_run_keeps:
  "channel_run cx jc reg w v \<Longrightarrow> loop_inv cx w \<Longrightarrow> books w \<Longrightarrow> keeps cx w v"
proof (induction rule: channel_run.induct)
  case (ch_next w v u)
  then have "keeps cx w v" by blast
  with ch_next(2) channel_step_keeps keeps_trans show ?case unfolding keeps_def by blast
qed (simp add: keeps_refl)

section \<open>Reachable worlds\<close>

text \<open>A channel starts on the dispatcher that earlier connections left behind.\<close>

definition start_channel ::
  "dispatch_world \<Rightarrow> websocket \<Rightarrow> uuid set option \<Rightarrow> uuid list \<Rightarrow> channel_world" where
  "start_channel dw ws status reported =
     \<lparr>cw_channel = new_channel ws (wclock dw), cw_dispatch = dw, cw_status = status,
      cw_reported = reported, cw_result = None\<rparr>"

definition channel_reachable ::
  "wire_codec \<Rightarrow> json_codec \<Rightarrow> registration \<Rightarrow> execution_limits \<Rightarrow> channel_world \<Rightarrow> bool" where
  "channel_reachable cx jc reg limits w \<longleftrightarrow>
     (\<exists>dw ws status reported. dispatch_reachable cx limits dw \<and>
        channel_run cx jc reg (start_channel dw ws status reported) w)"

lemma start_channel_inv:
  assumes "dispatch_inv dw"
  shows "loop_inv cx (start_channel dw ws status reported)" "books (start_channel dw ws status reported)"
  using assms by (simp_all add: start_channel_def new_channel_def loop_inv_def books_def)

lemma channel_reachable_inv:
  assumes "channel_reachable cx jc reg limits w"
  shows "loop_inv cx w" "books w" "dispatch_reachable cx limits (cw_dispatch w)"
proof -
  obtain dw ws status reported where d: "dispatch_reachable cx limits dw"
    "channel_run cx jc reg (start_channel dw ws status reported) w"
    using assms by (auto simp: channel_reachable_def)
  have "keeps cx (start_channel dw ws status reported) w"
    by (rule channel_run_keeps [OF d(2)]) (simp_all add: start_channel_inv reachable_dispatch_inv [OF d(1)])
  then show "loop_inv cx w" "books w" "dispatch_reachable cx limits (cw_dispatch w)"
    using d(1) dispatch_run_trans by (auto simp: keeps_def dispatch_reachable_def start_channel_def)
qed

section \<open>Progress of a request\<close>

lemma channel_run_trans: "channel_run cx jc reg v u \<Longrightarrow> channel_run cx jc reg w v \<Longrightarrow> channel_run cx jc reg w u"
  by (induction rule: channel_run.induct) (auto intro: ch_next)

lemma channel_run_single: "channel_step cx jc reg w v \<Longrightarrow> channel_run cx jc reg w v"
  by (rule ch_next [OF ch_refl])

text \<open>What a poll leaves alone, and what it sets.\<close>

lemma set_future_simps [simp]:
  "cw_result (set_future i fut w) = cw_result w" "cw_dispatch (set_future i fut w) = cw_dispatch w"
  "ch_socket (cw_channel (set_future i fut w)) = ch_socket (cw_channel w)"
  "ch_answered (cw_channel (set_future i fut w)) = ch_answered (cw_channel w)"
  "length (ch_requests (cw_channel (set_future i fut w))) = length (ch_requests (cw_channel w))"
  by (simp_all add: set_future_def split: prod.splits)

lemma set_future_nth:
  "i < length (ch_requests (cw_channel w)) \<Longrightarrow> ch_requests (cw_channel w) ! i = (ref, request, old) \<Longrightarrow>
   ch_requests (cw_channel (set_future i fut w)) ! i = (ref, request, fut)"
  by (simp add: set_future_def)

section \<open>Heartbeats\<close>

definition heartbeat_inv :: "channel \<Rightarrow> bool" where
  "heartbeat_inv ch \<longleftrightarrow>
     ch_next_ref ch = FIRST_HEARTBEAT_REFERENCE + of_nat (length (ch_heartbeats ch)) \<and>
     ch_heartbeats ch =
       map (\<lambda>k. show_nat (unat (FIRST_HEARTBEAT_REFERENCE + of_nat k))) [0..<length (ch_heartbeats ch)]"

lemma heartbeat_frame_rules [simp]:
  "heartbeat_inv (ch\<lparr>ch_requests := rs\<rparr>) = heartbeat_inv ch"
  "heartbeat_inv (ch\<lparr>ch_socket := ws\<rparr>) = heartbeat_inv ch"
  "heartbeat_inv (ch\<lparr>ch_accepted := acc\<rparr>) = heartbeat_inv ch"
  "heartbeat_inv (ch\<lparr>ch_answered := ans\<rparr>) = heartbeat_inv ch"
  by (simp_all add: heartbeat_inv_def)

lemma heartbeat_finish [simp]: "heartbeat_inv (cw_channel (finish r w)) = heartbeat_inv (cw_channel w)"
  by (simp add: finish_def)

lemma heartbeat_socket [simp]: "heartbeat_inv (cw_channel (set_socket ws w)) = heartbeat_inv (cw_channel w)"
  by (simp add: set_socket_def)

lemma heartbeat_tick_inv:
  assumes "heartbeat_inv (cw_channel w)"
  shows "heartbeat_inv (cw_channel (heartbeat_tick jc w))"
proof -
  let ?ch = "cw_channel w" and ?ref = "show_nat (unat (ch_next_ref (cw_channel w)))"
  have ch: "heartbeat_inv (?ch\<lparr>ch_next_ref := ch_next_ref ?ch + 1,
      ch_heartbeat := ch_heartbeat ?ch + HEARTBEAT_INTERVAL, ch_heartbeats := ch_heartbeats ?ch @ [?ref]\<rparr>)"
    using assms unfolding heartbeat_inv_def by (simp add: add.assoc)
  show ?thesis
    unfolding heartbeat_tick_def Let_def by (simp split: sum.splits prod.splits) (use ch in simp)
qed

lemma heartbeat_handle_frame:
  "heartbeat_inv (cw_channel w) \<Longrightarrow> heartbeat_inv (cw_channel (handle_frame jc reg f w))"
  unfolding handle_frame_def by (simp add: push_request_def split: sum.splits)

lemma heartbeat_set_future [simp]:
  "heartbeat_inv (cw_channel (set_future i fut w)) = heartbeat_inv (cw_channel w)"
  by (simp add: set_future_def split: prod.splits)

lemma heartbeat_poll:
  "heartbeat_inv (cw_channel w) \<Longrightarrow> heartbeat_inv (cw_channel (poll_request cx i w))"
  unfolding poll_request_def Let_def
  by (simp split: prod.splits request_future.splits wait_phase.splits)

lemma heartbeat_receive:
  "heartbeat_inv (cw_channel w) \<Longrightarrow> heartbeat_inv (cw_channel (receive_message jc reg w))"
  unfolding receive_message_def Let_def
  by (simp add: heartbeat_handle_frame split: list.splits sum.splits ws_message.splits)

lemma heartbeat_step:
  assumes "channel_step cx jc reg w v" "heartbeat_inv (cw_channel w)"
  shows "heartbeat_inv (cw_channel v)"
  using assms(1)
proof cases
  case ch_receive
  then show ?thesis using assms(2) by (simp add: heartbeat_receive)
next
  case (ch_poll i)
  then show ?thesis using assms(2) by (simp add: heartbeat_poll)
next
  case (ch_complete i ref request response)
  then show ?thesis
    using assms(2)
    by (auto simp: complete_request_def Let_def split: sum.splits prod.splits)
next
  case ch_tick
  then show ?thesis using heartbeat_tick_inv [OF assms(2)] by simp
qed (use assms(2) in simp_all)

lemma heartbeat_run:
  "channel_run cx jc reg w v \<Longrightarrow> heartbeat_inv (cw_channel w) \<Longrightarrow> heartbeat_inv (cw_channel v)"
  by (induction rule: channel_run.induct) (auto intro: heartbeat_step)

lemma heartbeat_number:
  "k < 2 ^ 64 - 2 \<Longrightarrow> unat (FIRST_HEARTBEAT_REFERENCE + of_nat k) = k + 2"
proof -
  assume "k < 2 ^ 64 - 2"
  moreover have "(FIRST_HEARTBEAT_REFERENCE + of_nat k :: u64) = of_nat (k + 2)"
    by (simp add: FIRST_HEARTBEAT_REFERENCE_def)
  ultimately show ?thesis by (simp only: unsigned_of_nat) (simp add: take_bit_nat_eq_self)
qed

section \<open>Properties\<close>

text \<open>C21.  Back-pressure instead of loss: at no time are more than \<open>MAX_IN_FLIGHT_REQUESTS\<close> requests
  in flight, and while the loop runs every accepted request is either in flight or has been
  answered exactly once under its own reference; after the loop has ended no request has been
  answered more often than it was accepted.\<close>

theorem requests_accounted:
  assumes "channel_reachable cx jc reg limits w"
  shows "length (ch_requests (cw_channel w)) \<le> MAX_IN_FLIGHT_REQUESTS \<and>
    (if cw_result w = None then
       mset (ch_accepted (cw_channel w)) =
         mset (map fst (ch_requests (cw_channel w))) + mset (map fst (ch_answered (cw_channel w)))
     else mset (map fst (ch_answered (cw_channel w))) \<subseteq># mset (ch_accepted (cw_channel w)))"
proof -
  note inv = channel_reachable_inv [OF assms]
  have "mset (map fst (ch_answered (cw_channel w))) \<subseteq># mset (ch_accepted (cw_channel w))"
    using subset_mset.order_trans [OF mset_subset_eq_add_right books_partial [OF inv(2)]] .
  with inv(1,2) show ?thesis by (simp add: loop_inv_def books_def Let_def)
qed

text \<open>A socket that delivers one tool request, and a library that reads it.\<close>

definition demo_wire :: json_codec where
  "demo_wire =
     \<lparr>frame_from_str = (\<lambda>_. Inr (JNull, JString ''7'', JString ''runner:r'', JString ''tool_request'', JNull)),
      value_from_str = (\<lambda>s. Inr (JString s)), value_to_string = (\<lambda>_. Inr ''frame''),
      registration_from_slice = (\<lambda>_. Inl []), limits_from_value = (\<lambda>_. Inl []),
      request_from_value = (\<lambda>_. Inr (demo_request GitStatus)), lease_from_value = (\<lambda>_. Inl [])\<rparr>"

definition demo_socket :: "(string + ws_message) list \<Rightarrow> websocket" where
  "demo_socket msgs = \<lparr>ws_incoming = msgs, ws_sent = [], ws_send_error = (\<lambda>_. None)\<rparr>"

definition demo_pending :: channel_world where
  "demo_pending =
     \<lparr>cw_channel = (new_channel (demo_socket []) 0)\<lparr>
        ch_requests := [(Some ''7'', demo_request GitStatus, Unpolled)], ch_accepted := [Some ''7'']\<rparr>,
      cw_dispatch = initial_world standalone, cw_status = Some {}, cw_reported = [], cw_result = None\<rparr>"

lemma demo_pending_reachable:
  "channel_reachable demo_codec demo_wire demo_registration standalone
     (demo_pending\<lparr>cw_status := None\<rparr>)"
proof -
  let ?w = "start_channel (initial_world standalone) (demo_socket [Inr (WsText ''m'')]) None []"
  have "frame_parse demo_wire ''m'' = Inr \<lparr>join_ref = None, frame_reference = Some ''7'',
      frame_topic = ''runner:r'', frame_event = ''tool_request'', frame_payload = JNull\<rparr>"
    by (simp add: frame_parse_def demo_wire_def MAX_WIRE_BYTES_def required_string_def)
  then have "receive_message demo_wire demo_registration ?w = demo_pending\<lparr>cw_status := None\<rparr>"
    by (simp add: receive_message_def start_channel_def demo_socket_def new_channel_def set_socket_def
        handle_frame_def is_closing_def demo_registration_def demo_wire_def push_request_def
        observe_request_def demo_pending_def initial_world_def)
  moreover have "channel_step demo_codec demo_wire demo_registration ?w
      (receive_message demo_wire demo_registration ?w)"
    by (rule ch_receive) (simp_all add: start_channel_def new_channel_def MAX_IN_FLIGHT_REQUESTS_def)
  moreover have "dispatch_reachable demo_codec standalone (initial_world standalone)"
    by (simp add: dispatch_reachable_def dispatch_refl)
  ultimately show ?thesis unfolding channel_reachable_def by (metis channel_run_single)
qed

theorem requests_accounted_witness:
  "mset (ch_accepted (cw_channel demo_pending)) = mset (map fst (ch_requests (cw_channel demo_pending))) \<and>
   length (ch_requests (cw_channel demo_pending)) = 1"
  using requests_accounted [OF demo_pending_reachable]
  by (simp add: demo_pending_def new_channel_def)

text \<open>Heartbeat references stay unique: on one connection no two heartbeats carry the same
  reference, and none carries the reference of the join, until the 64-bit counter wraps.\<close>

theorem heartbeat_references_unique:
  assumes "channel_reachable cx jc reg limits w" "length (ch_heartbeats (cw_channel w)) \<le> 2 ^ 64 - 2"
  shows "distinct (ch_heartbeats (cw_channel w)) \<and> JOIN_REFERENCE \<notin> set (ch_heartbeats (cw_channel w))"
proof -
  let ?n = "length (ch_heartbeats (cw_channel w))"
  have "heartbeat_inv (cw_channel w)"
    using assms(1) heartbeat_run
    by (fastforce simp: channel_reachable_def start_channel_def new_channel_def heartbeat_inv_def)
  then have "ch_heartbeats (cw_channel w) = map (\<lambda>k. show_nat (unat (FIRST_HEARTBEAT_REFERENCE + of_nat k))) [0..<?n]"
    by (simp add: heartbeat_inv_def)
  also have "\<dots> = map (\<lambda>k. show_nat (k + 2)) [0..<?n]"
    using assms(2) by (intro map_cong HOL.refl) (subst heartbeat_number, auto)
  finally have eq: "ch_heartbeats (cw_channel w) = map (\<lambda>k. show_nat (k + 2)) [0..<?n]" .
  have "JOIN_REFERENCE = show_nat 1" by code_simp
  then have "JOIN_REFERENCE \<noteq> show_nat (k + 2)" for k using show_nat_inject [of 1 "k + 2"] by simp
  then show ?thesis
    by (subst eq, subst (2) eq) (auto simp: distinct_map inj_on_def show_nat_inject)
qed

theorem heartbeat_references_unique_witness:
  "\<exists>w. channel_reachable demo_codec demo_wire demo_registration standalone w \<and>
     ch_heartbeats (cw_channel w) = [''2''] \<and> JOIN_REFERENCE \<notin> set (ch_heartbeats (cw_channel w))"
proof -
  let ?s = "start_channel (initial_world standalone) (demo_socket []) None []"
  let ?v = "?s\<lparr>cw_dispatch := (cw_dispatch ?s)\<lparr>wclock := HEARTBEAT_INTERVAL\<rparr>\<rparr>"
  let ?w = "heartbeat_tick demo_wire ?v"
  have "channel_step demo_codec demo_wire demo_registration ?s ?v"
    by (rule ch_clock) (simp add: start_channel_def initial_world_def)
  moreover have "channel_step demo_codec demo_wire demo_registration ?v ?w"
    by (rule ch_tick) (simp_all add: start_channel_def new_channel_def initial_world_def)
  ultimately have "channel_run demo_codec demo_wire demo_registration ?s ?w"
    using ch_next channel_run_single by blast
  moreover have "dispatch_reachable demo_codec standalone (initial_world standalone)"
    by (simp add: dispatch_reachable_def dispatch_refl)
  ultimately have r: "channel_reachable demo_codec demo_wire demo_registration standalone ?w"
    unfolding channel_reachable_def by blast
  have "frame_serialize demo_wire f = Inr ''frame''" for f
    by (simp add: frame_serialize_Inr demo_wire_def MAX_WIRE_BYTES_def)
  moreover have "show_nat 2 = ''2''" by code_simp
  ultimately have h: "ch_heartbeats (cw_channel ?w) = [''2'']"
    by (simp add: heartbeat_tick_def start_channel_def new_channel_def send_frame_def demo_socket_def
        set_socket_def FIRST_HEARTBEAT_REFERENCE_def Let_def)
  from heartbeat_references_unique [OF r] h r show ?thesis by auto
qed

end
