(* ===== verification/Serve.thy ===== *)
theory Serve
  imports Channel Workspace Runner
begin

text \<open>
  The reconnecting server, \<open>serve_inner\<close> of \<^verbatim>\<open>src/crates/kodo/src/control_plane.rs\<close>: it registers,
  connects, joins, runs the channel, and starts again after a delay.  The credentials are
  refreshed when they are rejected, while the limits and the dispatcher of the first join
  stay for the life of the process.  The phases of the state lie between the suspension points
  of the code; what the network answers is chosen anew in each step.
\<close>

section \<open>State\<close>

text \<open>The libraries and the platform.\<close>

record 'u serve_env =
  env_urls :: "'u url_ops"
  env_ids :: uuid_ops
  env_json :: json_codec
  env_wire :: wire_codec
  env_build :: build_info
  env_status_text :: "u16 \<Rightarrow> string"

datatype serve_phase = Looping | Connecting | Serving channel_world | Sleeping | Returned control_plane_error

text \<open>
  \<open>sv_ready\<close> says whether the sender for \<open>RunnerReady\<close> is still held.  \<open>sv_notified\<close> records the
  runner identifiers sent over it and \<open>sv_delays\<close> the delays slept, for the statements only.
\<close>

record serve_state =
  sv_registration :: "registration option"
  sv_runtime :: "(execution_limits \<times> dispatch_world) option"
  sv_status :: "uuid set option"
  sv_reported :: "uuid list"
  sv_backoff :: nat
  sv_ready :: bool
  sv_phase :: serve_phase
  sv_notified :: "string list"
  sv_delays :: "nat list"

section \<open>Operations\<close>

text \<open>
  The part before the loop.  \<open>lock\<close> is the result of \<open>Workspace::lock_runner\<close> and \<open>build_client\<close> that
  of building the HTTP client, which is told whether to insist on https.
\<close>

definition serve_inner ::
  "'u url_ops \<Rightarrow> string \<Rightarrow> 'd workspace \<Rightarrow> workspace_error + string \<Rightarrow> (bool \<Rightarrow> string + unit) \<Rightarrow>
   bool \<Rightarrow> bool \<Rightarrow> control_plane_error + ('u \<times> string \<times> serve_state)" where
  "serve_inner uo base ws lock build_client ready report_sessions =
     (case validate_base_url uo base of
        Inl e \<Rightarrow> Inl e
      | Inr base \<Rightarrow>
          (case lock of
             Inl e \<Rightarrow> Inl (Configuration (workspace_error_to_string e))
           | Inr _ \<Rightarrow>
               if \<not> valid_utf8 (ws_root ws) then
                 Inl (Registration ''canonical workspace root is not UTF-8'')
               else case build_client (url_scheme uo base = ''https'') of
                 Inl e \<Rightarrow> Inl (Registration e)
               | Inr _ \<Rightarrow>
                   Inr (base, ws_root ws,
                     \<lparr>sv_registration = None, sv_runtime = None,
                      sv_status = (if report_sessions then Some {} else None), sv_reported = [],
                      sv_backoff = INITIAL_RECONNECT_DELAY, sv_ready = ready, sv_phase = Looping,
                      sv_notified = [], sv_delays = []\<rparr>)))"

text \<open>The two entry points of the server: \<open>serve_headless\<close> reports the sessions, \<open>serve_with_ready\<close> tells
  the session client when the runner is ready.\<close>

definition serve_headless ::
  "'u url_ops \<Rightarrow> string \<Rightarrow> 'd workspace \<Rightarrow> workspace_error + string \<Rightarrow> (bool \<Rightarrow> string + unit) \<Rightarrow>
   control_plane_error + ('u \<times> string \<times> serve_state)" where
  "serve_headless uo base ws lock build_client = serve_inner uo base ws lock build_client False True"

definition serve_with_ready ::
  "'u url_ops \<Rightarrow> string \<Rightarrow> 'd workspace \<Rightarrow> workspace_error + string \<Rightarrow> (bool \<Rightarrow> string + unit) \<Rightarrow>
   control_plane_error + ('u \<times> string \<times> serve_state)" where
  "serve_with_ready uo base ws lock build_client = serve_inner uo base ws lock build_client True False"

text \<open>\<open>sleep(backoff)\<close> followed by \<open>backoff = (backoff * 2).min(MAX_RECONNECT_DELAY)\<close>.\<close>

definition sleep_backoff :: "serve_state \<Rightarrow> serve_state" where
  "sleep_backoff st =
     st\<lparr>sv_phase := Sleeping, sv_delays := sv_delays st @ [sv_backoff st],
        sv_backoff := min (sv_backoff st * 2) MAX_RECONNECT_DELAY\<rparr>"

definition after_register :: "control_plane_error + registration \<Rightarrow> serve_state \<Rightarrow> serve_state" where
  "after_register result st =
     (case result of
        Inr registered \<Rightarrow>
          st\<lparr>sv_registration := Some registered, sv_backoff := INITIAL_RECONNECT_DELAY, sv_phase := Connecting\<rparr>
      | Inl _ \<Rightarrow> sleep_backoff st)"

definition enter_channel ::
  "registration \<Rightarrow> websocket \<Rightarrow> dispatch_world \<Rightarrow> serve_state \<Rightarrow> serve_state" where
  "enter_channel reg ws dw st =
     st\<lparr>sv_ready := False,
        sv_notified := sv_notified st @ (if sv_ready st then [runner_id reg] else []),
        sv_phase := Serving (start_channel dw ws (sv_status st) (sv_reported st))\<rparr>"

definition after_connect ::
  "string \<Rightarrow> instant \<Rightarrow> registration \<Rightarrow> connect_error + websocket \<times> execution_limits \<Rightarrow>
   serve_state \<Rightarrow> serve_state" where
  "after_connect root at_time reg result st =
     (case result of
        Inl AuthRejected \<Rightarrow>
          st\<lparr>sv_registration := None, sv_backoff := INITIAL_RECONNECT_DELAY, sv_phase := Sleeping,
             sv_delays := sv_delays st @ [INITIAL_RECONNECT_DELAY]\<rparr>
      | Inl (ConnectFailed (Configuration e)) \<Rightarrow> st\<lparr>sv_phase := Returned (Configuration e)\<rparr>
      | Inl (ConnectFailed e) \<Rightarrow> sleep_backoff st
      | Inr (ws, limits) \<Rightarrow>
          (case sv_runtime st of
             Some (current, dw) \<Rightarrow>
               if current = limits then enter_channel reg ws dw st
               else st\<lparr>sv_phase := Returned PolicyChanged\<rparr>
           | None \<Rightarrow>
               (case from_limits root limits of
                  Inl e \<Rightarrow> st\<lparr>sv_phase := Returned (Configuration e)\<rparr>
                | Inr _ \<Rightarrow>
                    (let dw = (initial_world limits)\<lparr>wclock := at_time\<rparr>
                     in enter_channel reg ws dw (st\<lparr>sv_runtime := Some (limits, dw)\<rparr>)))))"

text \<open>The channel has returned; an error is only reported.\<close>

definition after_channel :: "channel_world \<Rightarrow> serve_state \<Rightarrow> serve_state" where
  "after_channel cw st =
     sleep_backoff (st\<lparr>sv_runtime := map_option (\<lambda>(limits, _). (limits, cw_dispatch cw)) (sv_runtime st),
       sv_status := cw_status cw, sv_reported := cw_reported cw, sv_backoff := INITIAL_RECONNECT_DELAY\<rparr>)"

section \<open>The server\<close>

text \<open>\<open>serve_step env base root agent_token\<close>; the client and the handshake are arbitrary.\<close>

inductive serve_step ::
  "'u serve_env \<Rightarrow> 'u \<Rightarrow> string \<Rightarrow> string \<Rightarrow> serve_state \<Rightarrow> serve_state \<Rightarrow> bool" for env base root agent_token where
  sv_register: "sv_phase st = Looping \<Longrightarrow> sv_registration st = None \<Longrightarrow>
    serve_step env base root agent_token st
      (after_register (register (env_urls env) (env_ids env) (env_json env) (env_build env)
        (env_status_text env) client base root agent_token) st)"
| sv_registered: "sv_phase st = Looping \<Longrightarrow> sv_registration st = Some reg \<Longrightarrow>
    serve_step env base root agent_token st (st\<lparr>sv_phase := Connecting\<rparr>)"
| sv_connect: "sv_phase st = Connecting \<Longrightarrow> sv_registration st = Some reg \<Longrightarrow>
    serve_step env base root agent_token st
      (after_connect root at_time reg (connect_and_join (env_urls env) (env_json env) connect base reg) st)"
| sv_channel: "sv_phase st = Serving cw \<Longrightarrow> sv_registration st = Some reg \<Longrightarrow>
    channel_step (env_wire env) (env_json env) reg cw cw' \<Longrightarrow>
    serve_step env base root agent_token st (st\<lparr>sv_phase := Serving cw'\<rparr>)"
| sv_leave: "sv_phase st = Serving cw \<Longrightarrow> cw_result cw = Some r \<Longrightarrow>
    serve_step env base root agent_token st (after_channel cw st)"
| sv_wake: "sv_phase st = Sleeping \<Longrightarrow>
    serve_step env base root agent_token st (st\<lparr>sv_phase := Looping\<rparr>)"
| sv_task: "\<nexists>cw. sv_phase st = Serving cw \<Longrightarrow> sv_runtime st = Some (limits, dw) \<Longrightarrow>
    task_step (env_wire env) dw dw' \<Longrightarrow>
    serve_step env base root agent_token st (st\<lparr>sv_runtime := Some (limits, dw')\<rparr>)"
| sv_clock: "\<nexists>cw. sv_phase st = Serving cw \<Longrightarrow> sv_runtime st = Some (limits, dw) \<Longrightarrow> wclock dw \<le> t \<Longrightarrow>
    serve_step env base root agent_token st (st\<lparr>sv_runtime := Some (limits, dw\<lparr>wclock := t\<rparr>)\<rparr>)"

inductive serve_run ::
  "'u serve_env \<Rightarrow> 'u \<Rightarrow> string \<Rightarrow> string \<Rightarrow> serve_state \<Rightarrow> serve_state \<Rightarrow> bool" for env base root agent_token where
  sv_refl: "serve_run env base root agent_token st st"
| sv_next: "serve_run env base root agent_token st st' \<Longrightarrow> serve_step env base root agent_token st' st'' \<Longrightarrow>
    serve_run env base root agent_token st st''"

section \<open>What the server keeps\<close>

text \<open>The dispatcher of the process, wherever it is at the moment.\<close>

fun live_dispatch :: "serve_phase \<Rightarrow> (execution_limits \<times> dispatch_world) option \<Rightarrow>
    (execution_limits \<times> dispatch_world) option" where
  "live_dispatch (Serving cw) (Some (limits, _)) = Some (limits, cw_dispatch cw)"
| "live_dispatch _ runtime = runtime"

definition live :: "serve_state \<Rightarrow> (execution_limits \<times> dispatch_world) option" where
  "live st = live_dispatch (sv_phase st) (sv_runtime st)"

definition runtime_ok :: "wire_codec \<Rightarrow> serve_state \<Rightarrow> bool" where
  "runtime_ok cx st \<longleftrightarrow>
     (case live st of
        None \<Rightarrow> True
      | Some (limits, dw) \<Rightarrow> validate limits = Inr () \<and> dispatch_reachable cx limits dw) \<and>
     (case sv_phase st of
        Serving cw \<Rightarrow> sv_runtime st \<noteq> None \<and> loop_inv cx cw \<and> books cw
      | _ \<Rightarrow> True)"

text \<open>The dispatcher of one state goes on in the other: same limits, and steps of the dispatcher.\<close>

definition continues :: "wire_codec \<Rightarrow> serve_state \<Rightarrow> serve_state \<Rightarrow> bool" where
  "continues cx st st' \<longleftrightarrow>
     (\<forall>limits dw. live st = Some (limits, dw) \<longrightarrow>
        (\<exists>dw'. live st' = Some (limits, dw') \<and> dispatch_run cx dw dw'))"

lemma continues_same: "live st' = live st \<Longrightarrow> continues cx st st'"
  by (auto simp: continues_def intro: dispatch_refl)

lemma continues_trans: "continues cx st st' \<Longrightarrow> continues cx st' st'' \<Longrightarrow> continues cx st st''"
  unfolding continues_def by (metis dispatch_run_trans)

lemma fresh_dispatcher: "dispatch_reachable cx limits ((initial_world limits)\<lparr>wclock := t\<rparr>)"
  unfolding dispatch_reachable_def
  by (rule dispatch_run_single [OF step_clock]) (simp add: initial_world_def)

lemma live_simps [simp]:
  "sv_phase st = Serving cw \<Longrightarrow> sv_runtime st = Some (limits, dw) \<Longrightarrow> live st = Some (limits, cw_dispatch cw)"
  "sv_runtime st = None \<Longrightarrow> live st = None"
  "\<nexists>cw. sv_phase st = Serving cw \<Longrightarrow> live st = sv_runtime st"
  by (simp_all add: live_def) (cases "sv_phase st"; simp)+

text \<open>A step that neither serves nor touches the runtime.\<close>

lemma idle_step:
  assumes "runtime_ok cx st" "\<nexists>cw. sv_phase st = Serving cw" "sv_runtime st' = sv_runtime st"
    "\<nexists>cw. sv_phase st' = Serving cw"
  shows "runtime_ok cx st' \<and> continues cx st st'"
  using assms by (auto simp: runtime_ok_def continues_same split: serve_phase.splits)

lemma enter_channel_ok:
  assumes "validate limits = Inr ()" "dispatch_reachable cx limits dw" "sv_runtime st = Some (limits, dw)"
  shows "runtime_ok cx (enter_channel reg ws dw st) \<and> live (enter_channel reg ws dw st) = Some (limits, dw)"
  using assms start_channel_inv reachable_dispatch_inv [OF assms(2)]
  by (simp add: runtime_ok_def enter_channel_def live_def) (simp add: start_channel_def)

lemma connect_limits_valid:
  "connect_and_join uo jc connect base reg = Inr (ws, limits) \<Longrightarrow> validate limits = Inr ()"
  by (auto simp: connect_and_join_def dest: join_Inr(1) split: option.splits sum.splits handshake_error.splits if_splits)

lemma after_connect_ok:
  assumes ok: "runtime_ok cx st" and phase: "sv_phase st = Connecting"
    and valid: "\<And>ws limits. result = Inr (ws, limits) \<Longrightarrow> validate limits = Inr ()"
  shows "runtime_ok cx (after_connect root t reg result st) \<and> continues cx st (after_connect root t reg result st)"
proof -
  let ?v = "after_connect root t reg result st"
  have idle: "runtime_ok cx ?v \<and> continues cx st ?v"
    if "sv_runtime ?v = sv_runtime st" "\<nexists>cw. sv_phase ?v = Serving cw"
    using idle_step [OF ok _ that] phase by simp
  have live: "live st = sv_runtime st" using phase by simp
  show ?thesis
  proof (cases result)
    case (Inl e)
    then have "sv_runtime ?v = sv_runtime st \<and> (\<nexists>cw. sv_phase ?v = Serving cw)"
      by (auto simp: after_connect_def sleep_backoff_def split: connect_error.splits control_plane_error.splits)
    with idle show ?thesis by blast
  next
    case (Inr joined)
    obtain ws limits where j: "joined = (ws, limits)" by fastforce
    show ?thesis
    proof (cases "sv_runtime st")
      case None
      show ?thesis
      proof (cases "from_limits root limits")
        case (Inl e)
        with None j \<open>result = Inr joined\<close> have "sv_runtime ?v = sv_runtime st \<and> (\<nexists>cw. sv_phase ?v = Serving cw)"
          by (simp add: after_connect_def)
        with idle show ?thesis by blast
      next
        case (Inr r)
        let ?dw = "(initial_world limits)\<lparr>wclock := t\<rparr>"
        have "?v = enter_channel reg ws ?dw (st\<lparr>sv_runtime := Some (limits, ?dw)\<rparr>)"
          using None Inr j \<open>result = Inr joined\<close> by (simp add: after_connect_def Let_def)
        moreover have "continues cx st ?v" using live None by (simp add: continues_def)
        ultimately show ?thesis
          using enter_channel_ok [OF valid fresh_dispatcher] j \<open>result = Inr joined\<close> by simp
      qed
    next
      case (Some run)
      obtain current dw where r: "run = (current, dw)" by fastforce
      show ?thesis
      proof (cases "current = limits")
        case True
        then have v: "?v = enter_channel reg ws dw st"
          using Some r Inr j by (simp add: after_connect_def)
        have "validate limits = Inr ()" "dispatch_reachable cx limits dw"
          using ok live Some r True by (simp_all add: runtime_ok_def)
        from enter_channel_ok [OF this] Some r True show ?thesis
          unfolding v by (simp add: continues_same live)
      next
        case False
        then have "sv_runtime ?v = sv_runtime st \<and> (\<nexists>cw. sv_phase ?v = Serving cw)"
          using Some r Inr j by (simp add: after_connect_def)
        with idle show ?thesis by blast
      qed
    qed
  qed
qed

lemma runtime_step:
  assumes "runtime_ok cx st" "\<nexists>cw. sv_phase st = Serving cw" "sv_runtime st = Some (limits, dw)"
    "dispatch_run cx dw dw'"
  shows "runtime_ok cx (st\<lparr>sv_runtime := Some (limits, dw')\<rparr>) \<and>
    continues cx st (st\<lparr>sv_runtime := Some (limits, dw')\<rparr>)"
proof -
  have live: "live st = Some (limits, dw)" "live (st\<lparr>sv_runtime := Some (limits, dw')\<rparr>) = Some (limits, dw')"
    using assms(2,3) by simp_all
  have "dispatch_reachable cx limits dw'"
    using assms(1,4) live(1) dispatch_run_trans unfolding runtime_ok_def dispatch_reachable_def by fastforce
  then show ?thesis
    using assms(1,2,4) live by (simp add: runtime_ok_def continues_def split: serve_phase.splits)
qed

lemma serve_step_ok:
  assumes "serve_step env base root agent_token st st'" "runtime_ok (env_wire env) st"
  shows "runtime_ok (env_wire env) st' \<and> continues (env_wire env) st st'"
  using assms(1)
proof cases
  case (sv_register client)
  then show ?thesis
    using idle_step [OF assms(2)] by (auto simp: after_register_def sleep_backoff_def split: sum.splits)
next
  case (sv_registered reg)
  then show ?thesis using idle_step [OF assms(2)] by simp
next
  case (sv_connect reg t connect)
  show ?thesis
    unfolding sv_connect(1) by (rule after_connect_ok [OF assms(2) sv_connect(2) connect_limits_valid])
next
  case (sv_channel cw reg cw')
  obtain limits dw where r: "sv_runtime st = Some (limits, dw)"
    using assms(2) sv_channel(2) by (auto simp: runtime_ok_def)
  have k: "keeps (env_wire env) cw cw'"
    using channel_step_keeps [OF sv_channel(4)] assms(2) sv_channel(2) by (simp add: runtime_ok_def)
  then show ?thesis
    using assms(2) r sv_channel dispatch_run_trans
    by (auto simp: runtime_ok_def continues_def keeps_def dispatch_reachable_def)
next
  case (sv_leave cw r)
  obtain limits dw where r: "sv_runtime st = Some (limits, dw)"
    using assms(2) sv_leave(2) by (auto simp: runtime_ok_def)
  then show ?thesis
    using assms(2) sv_leave
    by (auto simp: after_channel_def sleep_backoff_def runtime_ok_def continues_def intro: dispatch_refl)
next
  case sv_wake
  then show ?thesis using idle_step [OF assms(2)] by simp
next
  case (sv_task limits dw dw')
  then have "dispatch_run (env_wire env) dw dw'" using dispatch_run_single step_task by blast
  from runtime_step [OF assms(2) sv_task(2,3) this] show ?thesis by (simp add: sv_task(1))
next
  case (sv_clock limits dw t)
  then have "dispatch_run (env_wire env) dw (dw\<lparr>wclock := t\<rparr>)" using dispatch_run_single step_clock by blast
  from runtime_step [OF assms(2) sv_clock(2,3) this] show ?thesis by (simp add: sv_clock(1))
qed

lemma serve_run_ok:
  "serve_run env base root agent_token st st' \<Longrightarrow> runtime_ok (env_wire env) st \<Longrightarrow>
   runtime_ok (env_wire env) st' \<and> continues (env_wire env) st st'"
proof (induction rule: serve_run.induct)
  case (sv_next st st' st'')
  then have "runtime_ok (env_wire env) st'" "continues (env_wire env) st st'" by simp_all
  with serve_step_ok [OF sv_next(2)] continues_trans show ?case by blast
qed (simp add: continues_same)

section \<open>Delays, readiness and reports\<close>

definition within_backoff :: "nat \<Rightarrow> bool" where
  "within_backoff d \<longleftrightarrow> INITIAL_RECONNECT_DELAY \<le> d \<and> d \<le> MAX_RECONNECT_DELAY"

text \<open>The sessions reported so far; while a channel is served it has the lists.\<close>

definition reports_ok :: "uuid set option \<Rightarrow> uuid list \<Rightarrow> bool" where
  "reports_ok noted reported \<longleftrightarrow>
     distinct reported \<and> (case noted of None \<Rightarrow> reported = [] | Some ids \<Rightarrow> set reported \<subseteq> ids)"

fun told :: "serve_phase \<Rightarrow> uuid set option \<times> uuid list \<Rightarrow> uuid set option \<times> uuid list" where
  "told (Serving cw) _ = (cw_status cw, cw_reported cw)"
| "told _ x = x"

definition reported_sessions :: "serve_state \<Rightarrow> uuid list" where
  "reported_sessions st = snd (told (sv_phase st) (sv_status st, sv_reported st))"

definition serve_inv :: "serve_state \<Rightarrow> bool" where
  "serve_inv st \<longleftrightarrow>
     within_backoff (sv_backoff st) \<and> (\<forall>d \<in> set (sv_delays st). within_backoff d) \<and>
     length (sv_notified st) \<le> (if sv_ready st then 0 else 1) \<and>
     (sv_notified st \<noteq> [] \<longrightarrow> sv_runtime st \<noteq> None) \<and>
     case_prod reports_ok (told (sv_phase st) (sv_status st, sv_reported st))"

lemma backoff_range [simp]:
  "within_backoff INITIAL_RECONNECT_DELAY"
  "within_backoff d \<Longrightarrow> within_backoff (min (d * 2) MAX_RECONNECT_DELAY)"
  by (auto simp: within_backoff_def INITIAL_RECONNECT_DELAY_def MAX_RECONNECT_DELAY_def from_secs_def)

lemma observe_reports:
  "reports_ok (cw_status w) (cw_reported w) \<Longrightarrow>
   reports_ok (cw_status (observe_request request w)) (cw_reported (observe_request request w))"
  by (auto simp: observe_request_def observe_def reports_ok_def split: option.splits)

lemma channel_reports:
  assumes "channel_step cx jc reg w v" "reports_ok (cw_status w) (cw_reported w)"
  shows "reports_ok (cw_status v) (cw_reported v)"
proof -
  have finish: "cw_status (finish r u) = cw_status u" "cw_reported (finish r u) = cw_reported u" for r u
    by (simp_all add: finish_def)
  have socket: "cw_status (set_socket ws u) = cw_status u" "cw_reported (set_socket ws u) = cw_reported u" for ws u
    by (simp_all add: set_socket_def)
  have future: "cw_status (set_future i f u) = cw_status u" "cw_reported (set_future i f u) = cw_reported u" for i f u
    by (simp_all add: set_future_def split: prod.splits)
  have frame: "reports_ok (cw_status (handle_frame jc reg f u)) (cw_reported (handle_frame jc reg f u))"
    if "reports_ok (cw_status u) (cw_reported u)" for f u
    using that observe_reports [OF that] by (simp add: handle_frame_def finish push_request_def split: sum.splits)
  from assms(1) show ?thesis
  proof cases
    case ch_receive
    with assms(2) show ?thesis
      by (simp add: receive_message_def Let_def finish socket frame split: list.splits sum.splits ws_message.splits)
  next
    case (ch_poll i)
    with assms(2) show ?thesis
      by (simp add: poll_request_def Let_def future split: prod.splits request_future.splits wait_phase.splits)
  next
    case (ch_complete i ref request response)
    with assms(2) show ?thesis
      by (simp add: complete_request_def Let_def finish socket split: sum.splits prod.splits)
  next
    case ch_tick
    with assms(2) show ?thesis
      by (simp add: heartbeat_tick_def Let_def finish socket split: sum.splits prod.splits)
  qed (use assms(2) in simp_all)
qed

lemma enter_channel_inv:
  assumes "serve_inv st" "sv_phase st = Connecting" "sv_runtime st \<noteq> None"
  shows "serve_inv (enter_channel reg ws dw st)"
  using assms by (auto simp: serve_inv_def enter_channel_def start_channel_def)

lemma after_connect_inv:
  assumes "serve_inv st" "sv_phase st = Connecting"
  shows "serve_inv (after_connect root t reg result st)"
proof (cases result)
  case (Inl e)
  with assms show ?thesis
    by (auto simp: after_connect_def sleep_backoff_def serve_inv_def
        split: connect_error.splits control_plane_error.splits)
next
  case (Inr joined)
  have ret: "serve_inv (st\<lparr>sv_phase := Returned e\<rparr>)" for e using assms by (simp add: serve_inv_def)
  have run: "serve_inv (st\<lparr>sv_runtime := Some r\<rparr>)" for r using assms by (simp add: serve_inv_def)
  from Inr show ?thesis
    using enter_channel_inv [OF assms] enter_channel_inv [OF run] ret assms(2)
    by (auto simp: after_connect_def Let_def split: prod.splits option.splits sum.splits)
qed

lemma serve_inv_step:
  assumes "serve_step env base root agent_token st st'" "serve_inv st" "runtime_ok (env_wire env) st"
  shows "serve_inv st'"
  using assms(1)
proof cases
  case (sv_register client)
  with assms(2) show ?thesis
    by (auto simp: after_register_def sleep_backoff_def serve_inv_def split: sum.splits)
next
  case (sv_registered reg)
  with assms(2) show ?thesis by (simp add: serve_inv_def)
next
  case (sv_connect reg t connect)
  with after_connect_inv [OF assms(2)] show ?thesis by simp
next
  case (sv_channel cw reg cw')
  then show ?thesis using assms(2) channel_reports [OF sv_channel(4)] by (simp add: serve_inv_def)
next
  case (sv_leave cw r)
  with assms(2) show ?thesis by (auto simp: after_channel_def sleep_backoff_def serve_inv_def)
next
  case sv_wake
  with assms(2) show ?thesis by (simp add: serve_inv_def)
qed (use assms(2) in \<open>auto simp: serve_inv_def\<close>)

lemma serve_inv_run:
  "serve_run env base root agent_token st st' \<Longrightarrow> serve_inv st \<Longrightarrow> runtime_ok (env_wire env) st \<Longrightarrow> serve_inv st'"
proof (induction rule: serve_run.induct)
  case (sv_next st st' st'')
  then show ?case using serve_inv_step [OF sv_next(2)] serve_run_ok [OF sv_next(1)] by simp
qed

definition serve_reachable ::
  "'u serve_env \<Rightarrow> 'u \<Rightarrow> string \<Rightarrow> string \<Rightarrow> serve_state \<Rightarrow> bool" where
  "serve_reachable env base root agent_token st \<longleftrightarrow>
     (\<exists>input (ws :: unit workspace) lock build_client ready report st0.
        serve_inner (env_urls env) input ws lock build_client ready report = Inr (base, root, st0) \<and>
        serve_run env base root agent_token st0 st)"

lemma serve_inner_inv:
  "serve_inner uo input ws lock build_client ready report = Inr (base, root, st) \<Longrightarrow>
   serve_inv st \<and> runtime_ok cx st \<and> live st = None"
  by (auto simp: serve_inner_def serve_inv_def runtime_ok_def reports_ok_def split: sum.splits if_splits)

lemma serve_reachable_inv:
  "serve_reachable env base root agent_token st \<Longrightarrow> serve_inv st \<and> runtime_ok (env_wire env) st"
proof -
  assume "serve_reachable env base root agent_token st"
  then obtain input and ws :: "unit workspace" and lock build_client ready report st0 where
    s: "serve_inner (env_urls env) input ws lock build_client ready report = Inr (base, root, st0)"
      "serve_run env base root agent_token st0 st"
    unfolding serve_reachable_def by blast
  note i = serve_inner_inv [OF s(1), of "env_wire env"]
  with serve_inv_run [OF s(2)] serve_run_ok [OF s(2)] show ?thesis by simp
qed

section \<open>Why the server returns\<close>

text \<open>A reply to the join, received on the socket, that accepts it.\<close>

definition accepted_reply :: "json_codec \<Rightarrow> registration \<Rightarrow> websocket \<Rightarrow> json \<Rightarrow> bool" where
  "accepted_reply jc reg ws payload \<longleftrightarrow>
     (\<exists>str f. Inr (WsText str) \<in> set (ws_incoming ws) \<and> frame_parse jc str = Inr f \<and>
        frame_topic f = topic reg \<and> frame_event f = ''phx_reply'' \<and> frame_reference f = Some JOIN_REFERENCE \<and>
        frame_payload f = payload \<and> get_str payload ''status'' = Some ''ok'')"

text \<open>The limits a reply carries, as far as they can be used.\<close>

definition reply_limits :: "json \<Rightarrow> json option" where
  "reply_limits payload = Option.bind (json_get payload ''response'') (\<lambda>response. json_get response ''limits'')"

definition unusable_limits :: "json_codec \<Rightarrow> json \<Rightarrow> string \<Rightarrow> bool" where
  "unusable_limits jc payload m \<longleftrightarrow>
     (case reply_limits payload of
        None \<Rightarrow> m = ''join response omitted limits''
      | Some value \<Rightarrow>
          limits_from_value jc value = Inl m \<or>
          (\<exists>limits. limits_from_value jc value = Inr limits \<and> validate limits = Inl m))"

definition changed_limits :: "json_codec \<Rightarrow> json \<Rightarrow> serve_state \<Rightarrow> bool" where
  "changed_limits jc payload st \<longleftrightarrow>
     (\<exists>value limits current dw. reply_limits payload = Some value \<and> limits_from_value jc value = Inr limits \<and>
        validate limits = Inr () \<and> sv_runtime st = Some (current, dw) \<and> current \<noteq> limits)"

lemma parse_join_limits_cases:
  assumes "parse_join_limits jc payload = result" "\<forall>m. result \<noteq> Inl (Transport m)"
  shows "get_str payload ''status'' = Some ''ok'' \<and>
    (case result of
       Inl e \<Rightarrow> \<exists>m. e = Configuration m \<and> unusable_limits jc payload m
     | Inr limits \<Rightarrow> \<exists>value. reply_limits payload = Some value \<and> limits_from_value jc value = Inr limits \<and>
         validate limits = Inr ())"
  using assms
  by (auto simp: parse_join_limits_def unusable_limits_def reply_limits_def split: if_splits option.splits sum.splits)

lemma from_limits_valid: "validate limits = Inr () \<Longrightarrow> \<exists>r. from_limits root limits = Inr r"
  by (auto simp: from_limits_def max_permits_def MAX_BLOCKING_TOOLS_def validate_def split: if_splits)

lemma connect_and_join_outcome:
  assumes "connect_and_join uo jc connect base reg = result" "result \<noteq> Inl AuthRejected"
    and "\<forall>m. result \<noteq> Inl (ConnectFailed (Transport m))" "\<forall>m. result \<noteq> Inl (ConnectFailed (InvalidUrl m))"
  shows "\<exists>url ws payload. socket_url uo base reg = Some url \<and>
    connect MAX_WIRE_BYTES MAX_WIRE_BYTES (url_as_str uo url) = Inr ws \<and> accepted_reply jc reg ws payload \<and>
    (case result of
       Inl e \<Rightarrow> \<exists>m. e = ConnectFailed (Configuration m) \<and> unusable_limits jc payload m
     | Inr (_, limits) \<Rightarrow> \<exists>value. reply_limits payload = Some value \<and> limits_from_value jc value = Inr limits \<and>
         validate limits = Inr ())"
proof -
  obtain url ws where u: "socket_url uo base reg = Some url"
      "connect MAX_WIRE_BYTES MAX_WIRE_BYTES (url_as_str uo url) = Inr ws"
    using assms by (auto simp: connect_and_join_def split: option.splits sum.splits handshake_error.splits if_splits)
  obtain sent str where s: "send_frame jc ws (join_frame reg) = (ws\<lparr>ws_sent := sent\<rparr>, Inr str)"
    using assms u by (auto simp: connect_and_join_def join_def send_frame_def frame_serialize_def
        split: sum.splits option.splits if_splits)
  obtain rest r where r: "join_loop jc reg (ws_incoming ws) = (rest, r)" by fastforce
  have res: "result = (case r of Inl e \<Rightarrow> Inl (ConnectFailed e)
      | Inr limits \<Rightarrow> Inr (ws\<lparr>ws_sent := sent, ws_incoming := rest\<rparr>, limits))"
    using assms(1) u s r by (auto simp: connect_and_join_def join_def split: sum.splits)
  with assms(3) have t: "\<forall>m. r \<noteq> Inl (Transport m)" by auto
  from join_loop_reply [OF r t] obtain skipped str f where f: "ws_incoming ws = skipped @ Inr (WsText str) # rest"
      "frame_parse jc str = Inr f" "frame_topic f = topic reg" "frame_event f = ''phx_reply''"
      "frame_reference f = Some JOIN_REFERENCE" "parse_join_limits jc (frame_payload f) = r" by blast
  note p = parse_join_limits_cases [OF f(6) t]
  have "accepted_reply jc reg ws (frame_payload f)"
    unfolding accepted_reply_def using f p by auto
  with u p show ?thesis unfolding res by (intro exI [of _ url] exI [of _ ws] exI) (auto split: sum.splits)
qed

text \<open>Only the connection step returns, and only for the limits it was told.\<close>

definition returns_for_limits :: "'u serve_env \<Rightarrow> 'u \<Rightarrow> string \<Rightarrow> serve_state \<Rightarrow> control_plane_error \<Rightarrow> bool" where
  "returns_for_limits env base root st e \<longleftrightarrow>
     (\<exists>reg connect url ws payload at_time.
        sv_phase st = Connecting \<and> sv_registration st = Some reg \<and>
        sv_phase (after_connect root at_time reg
          (connect_and_join (env_urls env) (env_json env) connect base reg) st) = Returned e \<and>
        socket_url (env_urls env) base reg = Some url \<and>
        connect MAX_WIRE_BYTES MAX_WIRE_BYTES (url_as_str (env_urls env) url) = Inr ws \<and>
        accepted_reply (env_json env) reg ws payload \<and>
        (case e of
           Configuration m \<Rightarrow> unusable_limits (env_json env) payload m
         | PolicyChanged \<Rightarrow> changed_limits (env_json env) payload st
         | _ \<Rightarrow> False))"

lemma connect_returns:
  assumes "sv_phase st = Connecting" "sv_registration st = Some reg"
    and "sv_phase (after_connect root t reg
           (connect_and_join (env_urls env) (env_json env) connect base reg) st) = Returned e"
  shows "returns_for_limits env base root st e"
proof -
  let ?r = "connect_and_join (env_urls env) (env_json env) connect base reg"
  have "?r \<noteq> Inl AuthRejected" "\<forall>m. ?r \<noteq> Inl (ConnectFailed (Transport m))" "\<forall>m. ?r \<noteq> Inl (ConnectFailed (InvalidUrl m))"
    using assms(3) by (auto simp: after_connect_def sleep_backoff_def)
  from connect_and_join_outcome [OF HOL.refl this] obtain url ws payload where
    u: "socket_url (env_urls env) base reg = Some url"
      "connect MAX_WIRE_BYTES MAX_WIRE_BYTES (url_as_str (env_urls env) url) = Inr ws"
      "accepted_reply (env_json env) reg ws payload"
    and out: "case ?r of
       Inl e \<Rightarrow> \<exists>m. e = ConnectFailed (Configuration m) \<and> unusable_limits (env_json env) payload m
     | Inr (_, limits) \<Rightarrow> \<exists>value. reply_limits payload = Some value \<and>
         limits_from_value (env_json env) value = Inr limits \<and> validate limits = Inr ()" by blast
  have "case e of Configuration m \<Rightarrow> unusable_limits (env_json env) payload m
      | PolicyChanged \<Rightarrow> changed_limits (env_json env) payload st | _ \<Rightarrow> False"
  proof (cases ?r)
    case (Inl x)
    with out assms(3) show ?thesis by (auto simp: after_connect_def)
  next
    case (Inr joined)
    obtain sock limits where j: "joined = (sock, limits)" by fastforce
    with out Inr have v: "validate limits = Inr ()" by auto
    obtain n where "from_limits root limits = Inr n" using from_limits_valid [OF v] by blast
    with out Inr j assms(3) show ?thesis
      by (auto simp: after_connect_def enter_channel_def Let_def changed_limits_def split: option.splits if_splits)
  qed
  with u assms show ?thesis unfolding returns_for_limits_def by blast
qed

lemma serve_returns:
  "serve_run env base root agent_token st0 st \<Longrightarrow> sv_phase st = Returned e \<Longrightarrow> (\<forall>e. sv_phase st0 \<noteq> Returned e) \<Longrightarrow>
   \<exists>st1. serve_run env base root agent_token st0 st1 \<and> serve_run env base root agent_token st1 st \<and>
     returns_for_limits env base root st1 e"
proof (induction rule: serve_run.induct)
  case (sv_next st0 st1 st2)
  show ?case
  proof (cases "sv_phase st1 = Returned e")
    case True
    with sv_next.IH sv_next.prems(2) sv_next.hyps(2) show ?thesis by (meson serve_run.sv_next)
  next
    case False
    from sv_next.hyps(2) have "returns_for_limits env base root st1 e"
    proof cases
      case (sv_connect reg t connect)
      show ?thesis by (rule connect_returns [OF sv_connect(2,3)]) (use sv_connect(1) sv_next.prems(1) in simp)
    qed (use sv_next.prems(1) False in \<open>auto simp: after_register_def after_channel_def sleep_backoff_def split: sum.splits\<close>)
    with sv_next.hyps show ?thesis by (meson serve_run.sv_next sv_refl)
  qed
qed simp

section \<open>Properties\<close>

text \<open>C10.  Reconnecting never forgets what has been executed.  Once a policy epoch has begun, the
  limits stay the same and the dispatcher only ever moves by its own steps, through every
  disconnection, rejected token, registration and new channel; so over the whole life of the
  process no request identifier is elected for execution twice.\<close>

theorem dispatcher_survives_reconnects:
  assumes "serve_reachable env base root agent_token st" "live st = Some (limits, dw)"
    and "serve_run env base root agent_token st st'"
  shows "\<exists>dw'. live st' = Some (limits, dw') \<and> dispatch_run (env_wire env) dw dw' \<and>
    validate limits = Inr () \<and> distinct (map fst (elections dw')) \<and>
    set (elections dw) \<subseteq> set (elections dw')"
proof -
  note ok = serve_reachable_inv [OF assms(1)]
  obtain dw' where d: "live st' = Some (limits, dw')" "dispatch_run (env_wire env) dw dw'"
    using serve_run_ok [OF assms(3)] ok assms(2) by (auto simp: continues_def)
  have reach: "validate limits = Inr ()" "dispatch_reachable (env_wire env) limits dw"
    using ok assms(2) by (simp_all add: runtime_ok_def)
  then have "world_inv dw'" using reachable_world_inv(1) world_inv_run [OF d(2)] by blast
  with d reach(1) elections_grow [OF d(2)] show ?thesis by (simp add: world_inv_def execution_part_def)
qed

text \<open>Reconnecting is neither a hot loop nor a long outage: every delay between two attempts
  is between one and thirty seconds, also when the control plane keeps rejecting tokens.\<close>

theorem reconnect_delays_bounded:
  assumes "serve_reachable env base root agent_token st" "delay \<in> set (sv_delays st)"
  shows "from_secs 1 \<le> delay \<and> delay \<le> from_secs 30"
  using serve_reachable_inv [OF assms(1)] assms(2)
  by (auto simp: serve_inv_def within_backoff_def INITIAL_RECONNECT_DELAY_def MAX_RECONNECT_DELAY_def)

text \<open>C29.  The server outlives every failure of the network, of the registration and of the channel.
  Once it has started, it returns only from a connection attempt whose handshake succeeded and
  whose socket delivered a reply of the control plane that accepts the join: with
  \<open>Configuration m\<close> when the limits in that reply are missing, cannot be decoded or are not
  valid, \<open>m\<close> saying which, and with \<open>PolicyChanged\<close> when they are valid and differ from the limits
  of the first join.\<close>

theorem serve_stops_only_on_policy:
  assumes "serve_reachable env base root agent_token st" "sv_phase st = Returned e"
  shows "\<exists>st1. serve_reachable env base root agent_token st1 \<and> serve_run env base root agent_token st1 st \<and>
    returns_for_limits env base root st1 e"
proof -
  from assms(1) obtain input and ws :: "unit workspace" and lock build_client ready report st0 where
    s: "serve_inner (env_urls env) input ws lock build_client ready report = Inr (base, root, st0)"
      "serve_run env base root agent_token st0 st"
    unfolding serve_reachable_def by blast
  have "\<forall>e. sv_phase st0 \<noteq> Returned e" using s(1) by (auto simp: serve_inner_def split: sum.splits if_splits)
  with serve_returns [OF s(2) assms(2)] s(1) show ?thesis unfolding serve_reachable_def by blast
qed

text \<open>Announcements are made once: the interactive client is told at most once that the runner
  is ready, and only when limits have been joined and validated; and a headless runner reports
  each session at most once over all connections.\<close>

theorem announced_once:
  assumes "serve_reachable env base root agent_token st"
  shows "length (sv_notified st) \<le> 1 \<and> distinct (reported_sessions st) \<and>
    (sv_notified st \<noteq> [] \<longrightarrow> (\<exists>limits dw. live st = Some (limits, dw) \<and> validate limits = Inr ()))"
proof -
  have inv: "serve_inv st" and ok: "runtime_ok (env_wire env) st"
    using serve_reachable_inv [OF assms] by simp_all
  have "distinct (reported_sessions st)"
    using inv by (cases "told (sv_phase st) (sv_status st, sv_reported st)")
      (simp add: serve_inv_def reported_sessions_def reports_ok_def)
  moreover have "\<exists>limits dw. live st = Some (limits, dw)" if "sv_notified st \<noteq> []"
    using inv that by (cases "sv_phase st") (auto simp: serve_inv_def live_def)
  ultimately show ?thesis
    using inv ok by (auto simp: serve_inv_def runtime_ok_def split: if_splits)
qed

text \<open>A server that has registered, joined and serves.\<close>

definition demo_env :: "string serve_env" where
  "demo_env = \<lparr>env_urls = demo_urls, env_ids = demo_ids, env_json = demo_json, env_wire = demo_codec,
     env_build = demo_build, env_status_text = (\<lambda>_. [])\<rparr>"

definition demo_looping :: serve_state where
  "demo_looping =
     \<lparr>sv_registration = None, sv_runtime = None, sv_status = None, sv_reported = [],
      sv_backoff = INITIAL_RECONNECT_DELAY, sv_ready = True, sv_phase = Looping, sv_notified = [],
      sv_delays = []\<rparr>"

definition demo_serving :: serve_state where
  "demo_serving =
     enter_channel demo_registration ((demo_socket [])\<lparr>ws_sent := [''join'']\<rparr>) (initial_world standalone)
       (demo_looping\<lparr>sv_registration := Some demo_registration, sv_phase := Connecting,
          sv_runtime := Some (standalone, initial_world standalone)\<rparr>)"

lemma standalone_valid: "validate standalone = Inr ()"
  by (simp add: validate_limits_ok standalone_ok)

lemma demo_serve_inner:
  "serve_inner demo_urls ''http://localhost'' (\<lparr>ws_root = ''/w'', ws_root_dir = ()\<rparr>) (Inr ''lock'')
     (\<lambda>_. Inr ()) True False = Inr (''http://localhost'', ''/w'', demo_looping)"
proof -
  have "valid_utf8 ''/w''" by code_simp
  then show ?thesis by (simp add: serve_inner_def validate_base_url_def demo_urls_def demo_looping_def)
qed

lemma demo_join:
  assumes "frame_parse demo_json str = Inr \<lparr>join_ref = None, frame_reference = Some ''1'',
      frame_topic = ''runner:r'', frame_event = ''phx_reply'', frame_payload = payload\<rparr>"
  shows "connect_and_join demo_urls demo_json (\<lambda>_ _ _. Inr (demo_socket [Inr (WsText str)]))
      ''http://localhost'' demo_registration =
    (case parse_join_limits demo_json payload of
       Inl e \<Rightarrow> Inl (ConnectFailed e)
     | Inr limits \<Rightarrow> Inr ((demo_socket [])\<lparr>ws_sent := [''join'']\<rparr>, limits))"
proof -
  have "frame_serialize demo_json (join_frame demo_registration) = Inr ''join''"
    by (simp add: frame_serialize_Inr demo_join_frame demo_json_def MAX_WIRE_BYTES_def)
  then have s: "send_frame demo_json (demo_socket ms) (join_frame demo_registration) =
      ((demo_socket ms)\<lparr>ws_sent := [''join'']\<rparr>, Inr ())" for ms
    by (simp add: send_frame_def demo_socket_def)
  have "join_loop demo_json demo_registration [Inr (WsText str)] = ([], parse_join_limits demo_json payload)"
    using assms by (simp add: demo_registration_def JOIN_REFERENCE_def)
  then show ?thesis
    by (simp add: connect_and_join_def socket_url_def demo_urls_def join_def s)
       (simp add: demo_socket_def split: sum.splits)
qed

lemma demo_joined:
  "connect_and_join demo_urls demo_json (\<lambda>_ _ _. Inr (demo_socket [Inr (WsText ''joined'')]))
     ''http://localhost'' demo_registration = Inr ((demo_socket [])\<lparr>ws_sent := [''join'']\<rparr>, standalone)"
  "connect_and_join demo_urls demo_json (\<lambda>_ _ _. Inr (demo_socket [Inr (WsText ''bare'')]))
     ''http://localhost'' demo_registration = Inl (ConnectFailed (Configuration ''join response omitted limits''))"
proof -
  have "frame_parse demo_json ''joined'' = Inr \<lparr>join_ref = None, frame_reference = Some ''1'',
      frame_topic = ''runner:r'', frame_event = ''phx_reply'', frame_payload =
        JObject [(''status'', JString ''ok''), (''response'', JObject [(''limits'', JNull)])]\<rparr>"
    "frame_parse demo_json ''bare'' = Inr \<lparr>join_ref = None, frame_reference = Some ''1'',
      frame_topic = ''runner:r'', frame_event = ''phx_reply'', frame_payload =
        JObject [(''status'', JString ''ok'')]\<rparr>"
    by (simp_all add: frame_parse_def demo_json_def MAX_WIRE_BYTES_def required_string_def)
  note join = this [THEN demo_join]
  have limits: "parse_join_limits demo_json
      (JObject [(''status'', JString ''ok''), (''response'', JObject [(''limits'', JNull)])]) = Inr standalone"
    "parse_join_limits demo_json (JObject [(''status'', JString ''ok'')]) =
      Inl (Configuration ''join response omitted limits'')"
    by (simp_all add: parse_join_limits_def get_str_def demo_json_def standalone_valid)
  show "connect_and_join demo_urls demo_json (\<lambda>_ _ _. Inr (demo_socket [Inr (WsText ''joined'')]))
      ''http://localhost'' demo_registration = Inr ((demo_socket [])\<lparr>ws_sent := [''join'']\<rparr>, standalone)"
    by (simp only: join(1) limits(1) sum.case)
  show "connect_and_join demo_urls demo_json (\<lambda>_ _ _. Inr (demo_socket [Inr (WsText ''bare'')]))
      ''http://localhost'' demo_registration = Inl (ConnectFailed (Configuration ''join response omitted limits''))"
    by (simp only: join(2) limits(2) sum.case)
qed

lemma demo_reach:
  assumes "serve_run demo_env ''http://localhost'' ''/w'' ''a'' demo_looping st"
  shows "serve_reachable demo_env ''http://localhost'' ''/w'' ''a'' st"
proof -
  have "serve_inner (env_urls demo_env) ''http://localhost'' (\<lparr>ws_root = ''/w'', ws_root_dir = ()\<rparr>) (Inr ''lock'')
      (\<lambda>_. Inr ()) True False = Inr (''http://localhost'', ''/w'', demo_looping)"
    using demo_serve_inner by (simp add: demo_env_def)
  with assms show ?thesis unfolding serve_reachable_def by blast
qed

definition demo_connecting :: serve_state where
  "demo_connecting = demo_looping\<lparr>sv_registration := Some demo_registration, sv_phase := Connecting\<rparr>"

lemma demo_connected:
  assumes "connect_and_join demo_urls demo_json connect ''http://localhost'' demo_registration = result"
  shows "serve_reachable demo_env ''http://localhost'' ''/w'' ''a''
    (after_connect ''/w'' 0 demo_registration result demo_connecting)"
proof -
  have "serve_step demo_env ''http://localhost'' ''/w'' ''a'' demo_looping demo_connecting"
    using sv_register [of demo_looping demo_env "''http://localhost''" "''/w''" "''a''" demo_client]
    by (simp add: demo_env_def demo_register after_register_def demo_connecting_def) (simp add: demo_looping_def)
  moreover have "serve_step demo_env ''http://localhost'' ''/w'' ''a'' demo_connecting
      (after_connect ''/w'' 0 demo_registration result demo_connecting)"
    using sv_connect [of demo_connecting demo_registration demo_env "''http://localhost''" "''/w''" "''a''" 0 connect]
    by (simp add: demo_env_def assms) (simp add: demo_connecting_def)
  ultimately have "serve_run demo_env ''http://localhost'' ''/w'' ''a'' demo_looping
      (after_connect ''/w'' 0 demo_registration result demo_connecting)"
    by (rule sv_next [OF sv_next [OF sv_refl]])
  then show ?thesis by (rule demo_reach)
qed

lemma demo_serving_reachable: "serve_reachable demo_env ''http://localhost'' ''/w'' ''a'' demo_serving"
proof -
  have w: "(initial_world standalone)\<lparr>wclock := 0\<rparr> = initial_world standalone"
    by (simp add: initial_world_def)
  have "max_blocking_tools standalone = 8" by (simp add: standalone_def)
  then obtain r where "from_limits ''/w'' standalone = Inr r"
    by (simp add: from_limits_def standalone_valid max_permits_def MAX_BLOCKING_TOOLS_def)
  then have "after_connect ''/w'' 0 demo_registration
      (Inr ((demo_socket [])\<lparr>ws_sent := [''join'']\<rparr>, standalone)) demo_connecting = demo_serving"
    unfolding after_connect_def demo_serving_def demo_connecting_def Let_def
    using w by (simp add: demo_looping_def)
  with demo_connected [OF demo_joined(1)] show ?thesis by simp
qed

lemma demo_serving_live: "live demo_serving = Some (standalone, initial_world standalone)"
  by (simp add: live_def demo_serving_def enter_channel_def start_channel_def)

text \<open>A server whose registration failed once, and one whose join carried no limits.\<close>

lemma demo_slept:
  "\<exists>st. serve_reachable demo_env ''http://localhost'' ''/w'' ''a'' st \<and> sv_delays st = [from_secs 1]"
proof -
  have "register demo_urls demo_ids demo_json demo_build (\<lambda>_. []) (\<lambda>_. Inl ''refused'') ''http://localhost'' ''/w'' ''a'' =
      Inl (Registration ''refused'')" by (simp add: register_def demo_urls_def)
  then have "serve_step demo_env ''http://localhost'' ''/w'' ''a'' demo_looping (sleep_backoff demo_looping)"
    using sv_register [of demo_looping demo_env "''http://localhost''" "''/w''" "''a''" "\<lambda>_. Inl ''refused''"]
    by (simp add: demo_env_def after_register_def) (simp add: demo_looping_def)
  moreover have "sv_delays (sleep_backoff demo_looping) = [from_secs 1]"
    by (simp add: sleep_backoff_def demo_looping_def INITIAL_RECONNECT_DELAY_def)
  ultimately show ?thesis using demo_reach [OF sv_next [OF sv_refl]] by blast
qed

lemma demo_returned:
  "\<exists>st. serve_reachable demo_env ''http://localhost'' ''/w'' ''a'' st \<and>
     sv_phase st = Returned (Configuration ''join response omitted limits'')"
proof -
  have "sv_phase (after_connect ''/w'' 0 demo_registration
      (Inl (ConnectFailed (Configuration ''join response omitted limits''))) demo_connecting) =
    Returned (Configuration ''join response omitted limits'')" by (simp add: after_connect_def)
  with demo_connected [OF demo_joined(2)] show ?thesis by blast
qed

theorem dispatcher_survives_reconnects_witness:
  "\<exists>dw'. live demo_serving = Some (standalone, dw') \<and> distinct (map fst (elections dw'))"
  using dispatcher_survives_reconnects [OF demo_serving_reachable demo_serving_live sv_refl] by blast

theorem serve_stops_only_on_policy_witness:
  "\<exists>st st1. serve_reachable demo_env ''http://localhost'' ''/w'' ''a'' st \<and>
     sv_phase st = Returned (Configuration ''join response omitted limits'') \<and>
     serve_run demo_env ''http://localhost'' ''/w'' ''a'' st1 st \<and>
     returns_for_limits demo_env ''http://localhost'' ''/w'' st1 (Configuration ''join response omitted limits'')"
proof -
  obtain st where st: "serve_reachable demo_env ''http://localhost'' ''/w'' ''a'' st"
      "sv_phase st = Returned (Configuration ''join response omitted limits'')"
    using demo_returned by blast
  from serve_stops_only_on_policy [OF this] st show ?thesis by blast
qed

theorem announced_once_witness:
  "sv_notified demo_serving = [''r''] \<and>
   (\<exists>limits dw. live demo_serving = Some (limits, dw) \<and> validate limits = Inr ())"
proof -
  have n: "sv_notified demo_serving = [''r'']"
    by (simp add: demo_serving_def enter_channel_def demo_looping_def demo_registration_def)
  with announced_once [OF demo_serving_reachable] show ?thesis by simp
qed

theorem reconnect_delays_bounded_witness:
  "\<exists>st. serve_reachable demo_env ''http://localhost'' ''/w'' ''a'' st \<and> sv_delays st = [from_secs 1] \<and>
     from_secs 1 \<le> hd (sv_delays st) \<and> hd (sv_delays st) \<le> from_secs 30"
proof -
  obtain st where st: "serve_reachable demo_env ''http://localhost'' ''/w'' ''a'' st" "sv_delays st = [from_secs 1]"
    using demo_slept by blast
  with reconnect_delays_bounded [OF st(1), of "from_secs 1"] show ?thesis by auto
qed

end
