(* ===== verification/Connected_Runner.thy ===== *)
theory Connected_Runner
  imports Serve Runner_System
begin

text \<open>
  The connected runner as a whole: the server of \<^verbatim>\<open>Serve\<close> (\<^verbatim>\<open>src/crates/kodo/src/control_plane.rs\<close>) and the dispatcher
  with its tool calls of \<^verbatim>\<open>Runner_System\<close> (\<^verbatim>\<open>dispatcher.rs\<close>, \<^verbatim>\<open>runner.rs\<close>) in one system.  Both have the dispatcher, so they
  move together on it: a step of the server is a step of the composition when the runner can take the same
  steps of the dispatcher, which excludes just the publication of a response that no call has returned.
  The tools move on their own.
\<close>

section \<open>The composition\<close>

text \<open>Before the first join there is no runner; \<open>Runner::from_limits\<close> and \<open>Dispatcher::new\<close> make it then.\<close>

record 'w connected =
  cn_serve :: serve_state
  cn_runner :: "(runner \<times> 'w runner_system) option"

definition start_runner :: "runner \<Rightarrow> process_manager \<Rightarrow> 'w \<Rightarrow> dispatch_world \<Rightarrow> 'w runner_system" where
  "start_runner r m w dw =
     (init_runner r \<lparr>ts_world = w, ts_processes = m, ts_git = [], ts_actions = []\<rparr>)\<lparr>rs_dispatch := dw\<rparr>"

inductive connected_step ::
  "'u serve_env \<Rightarrow> 'u \<Rightarrow> string \<Rightarrow> string \<Rightarrow> uuid_ops \<Rightarrow> 'w tool_host \<Rightarrow> 'w connected \<Rightarrow> 'w connected \<Rightarrow> bool"
  for env base root agent_token u h where
  con_before: "serve_step env base root agent_token (cn_serve cn) st \<Longrightarrow> cn_runner cn = None \<Longrightarrow> live st = None \<Longrightarrow>
    connected_step env base root agent_token u h cn (cn\<lparr>cn_serve := st\<rparr>)"
| con_join: "serve_step env base root agent_token (cn_serve cn) st \<Longrightarrow> cn_runner cn = None \<Longrightarrow>
    live st = Some (limits, dw) \<Longrightarrow> from_limits root limits = Inr (r, m) \<Longrightarrow>
    connected_step env base root agent_token u h cn \<lparr>cn_serve = st, cn_runner = Some (r, start_runner r m w dw)\<rparr>"
| con_serve: "serve_step env base root agent_token (cn_serve cn) st \<Longrightarrow> cn_runner cn = Some (r, sys) \<Longrightarrow>
    runner_run (env_wire env) u h r sys sys' \<Longrightarrow> live st = Some (rn_limits r, rs_dispatch sys') \<Longrightarrow>
    connected_step env base root agent_token u h cn \<lparr>cn_serve = st, cn_runner = Some (r, sys')\<rparr>"
| con_tools: "cn_runner cn = Some (r, sys) \<Longrightarrow> runner_step (env_wire env) u h r sys sys' \<Longrightarrow>
    rs_dispatch sys' = rs_dispatch sys \<Longrightarrow>
    connected_step env base root agent_token u h cn (cn\<lparr>cn_runner := Some (r, sys')\<rparr>)"

inductive connected_run ::
  "'u serve_env \<Rightarrow> 'u \<Rightarrow> string \<Rightarrow> string \<Rightarrow> uuid_ops \<Rightarrow> 'w tool_host \<Rightarrow> 'w connected \<Rightarrow> 'w connected \<Rightarrow> bool"
  for env base root agent_token u h where
  con_refl: "connected_run env base root agent_token u h cn cn"
| con_next: "connected_run env base root agent_token u h cn cn' \<Longrightarrow>
    connected_step env base root agent_token u h cn' cn'' \<Longrightarrow> connected_run env base root agent_token u h cn cn''"

definition connected_reachable ::
  "'u serve_env \<Rightarrow> 'u \<Rightarrow> string \<Rightarrow> string \<Rightarrow> uuid_ops \<Rightarrow> 'w tool_host \<Rightarrow> 'w connected \<Rightarrow> bool" where
  "connected_reachable env base root agent_token u h cn \<longleftrightarrow>
     (\<exists>input (ws :: unit workspace) lock build_client ready report st0.
        serve_inner (env_urls env) input ws lock build_client ready report = Inr (base, root, st0) \<and>
        connected_run env base root agent_token u h \<lparr>cn_serve = st0, cn_runner = None\<rparr> cn)"

section \<open>What it projects to\<close>

lemma connected_step_serve:
  "connected_step env base root agent_token u h cn cn' \<Longrightarrow>
   serve_run env base root agent_token (cn_serve cn) (cn_serve cn')"
  by (cases rule: connected_step.cases) (auto intro: sv_refl sv_next)

lemma serve_run_trans:
  "serve_run env base root agent_token st' st'' \<Longrightarrow> serve_run env base root agent_token st st' \<Longrightarrow>
   serve_run env base root agent_token st st''"
  by (induction rule: serve_run.induct) (auto intro: sv_next)

lemma connected_run_serve:
  "connected_run env base root agent_token u h cn cn' \<Longrightarrow>
   serve_run env base root agent_token (cn_serve cn) (cn_serve cn')"
  by (induction rule: connected_run.induct) (auto intro: sv_refl connected_step_serve serve_run_trans)

lemma from_limits_Inr: "from_limits root limits = Inr (r, m) \<Longrightarrow> rn_limits r = limits"
  by (auto simp: from_limits_def split: sum.splits if_splits)

text \<open>A dispatcher appears only by a join, new, and with limits that make a runner.\<close>

lemma serve_step_starts:
  assumes "serve_step env base root agent_token st st'" "live st = None" "runtime_ok (env_wire env) st"
    and "live st' = Some (limits, dw)"
  shows "\<exists>t r m. dw = (initial_world limits)\<lparr>wclock := t\<rparr> \<and> from_limits root limits = Inr (r, m)"
proof -
  have none: "sv_runtime st = None"
    using assms(2,3) by (cases "sv_phase st"; cases "sv_runtime st") (auto simp: live_def runtime_ok_def)
  have quiet: "live st'' = None" if "sv_runtime st'' = None" for st'' using that by simp
  from assms(1) show ?thesis
  proof cases
    case (sv_connect reg t connect)
    then show ?thesis
      using assms(4) none quiet
      by (auto simp: after_connect_def sleep_backoff_def enter_channel_def start_channel_def live_def Let_def
          split: sum.splits connect_error.splits control_plane_error.splits prod.splits)
  qed (use assms(3,4) none quiet in \<open>auto simp: after_register_def sleep_backoff_def after_channel_def runtime_ok_def
        split: sum.splits\<close>)
qed

lemma start_runner_reachable:
  assumes "from_limits root limits = Inr (r, m)"
  shows "\<exists>st. runner_reachable cx u h r st (start_runner r m w ((initial_world limits)\<lparr>wclock := t\<rparr>))"
proof -
  let ?st = "\<lparr>ts_world = w, ts_processes = m, ts_git = [], ts_actions = []\<rparr>"
  have "rs_dispatch (init_runner r ?st) = initial_world limits" by (simp add: init_runner_def from_limits_Inr [OF assms])
  moreover have "dispatch_step cx (initial_world limits) ((initial_world limits)\<lparr>wclock := t\<rparr>)"
    by (rule step_clock) (simp add: initial_world_def)
  ultimately have "runner_step cx u h r (init_runner r ?st) (start_runner r m w ((initial_world limits)\<lparr>wclock := t\<rparr>))"
    unfolding start_runner_def by (intro runner_quiet) simp_all
  then show ?thesis unfolding runner_reachable_def using runner_next [OF runner_refl] by blast
qed

definition connected_inv ::
  "'u serve_env \<Rightarrow> uuid_ops \<Rightarrow> 'w tool_host \<Rightarrow> 'w connected \<Rightarrow> bool" where
  "connected_inv env u h cn \<longleftrightarrow>
     runtime_ok (env_wire env) (cn_serve cn) \<and>
     (case cn_runner cn of
        None \<Rightarrow> live (cn_serve cn) = None
      | Some (r, sys) \<Rightarrow>
          live (cn_serve cn) = Some (rn_limits r, rs_dispatch sys) \<and>
          (\<exists>st. runner_reachable (env_wire env) u h r st sys))"

lemma runner_reachable_run:
  "runner_reachable cx u h r st sys \<Longrightarrow> runner_run cx u h r sys sys' \<Longrightarrow> runner_reachable cx u h r st sys'"
  unfolding runner_reachable_def using runner_run_trans by blast

lemma connected_inv_step:
  assumes "connected_step env base root agent_token u h cn cn'" "connected_inv env u h cn"
  shows "connected_inv env u h cn'"
proof -
  have ok: "runtime_ok (env_wire env) (cn_serve cn')"
    using serve_run_ok [OF connected_step_serve [OF assms(1)]] assms(2) by (simp add: connected_inv_def)
  from assms(1) show ?thesis
  proof cases
    case (con_join st limits dw r m w)
    then obtain t where t: "dw = (initial_world limits)\<lparr>wclock := t\<rparr>"
      using serve_step_starts [OF con_join(2) _ _ con_join(4)] assms(2) by (auto simp: connected_inv_def)
    with con_join ok show ?thesis
      using start_runner_reachable [OF con_join(5)] from_limits_Inr [OF con_join(5)]
      by (simp add: connected_inv_def) (simp add: start_runner_def)
  next
    case (con_serve st r sys sys')
    then show ?thesis using assms(2) ok runner_reachable_run by (simp add: connected_inv_def) blast
  next
    case (con_tools r sys sys')
    then show ?thesis
      using assms(2) ok runner_reachable_run runner_next [OF runner_refl] by (simp add: connected_inv_def) blast
  qed (use assms(2) ok in \<open>simp add: connected_inv_def\<close>)
qed

lemma connected_reachable_inv:
  assumes "connected_reachable env base root agent_token u h cn"
  shows "connected_inv env u h cn"
proof -
  obtain input and ws :: "unit workspace" and lock build_client ready report st0 where
    s: "serve_inner (env_urls env) input ws lock build_client ready report = Inr (base, root, st0)"
      "connected_run env base root agent_token u h \<lparr>cn_serve = st0, cn_runner = None\<rparr> cn"
    using assms unfolding connected_reachable_def by blast
  have "connected_inv env u h \<lparr>cn_serve = st0, cn_runner = None\<rparr>"
    using serve_inner_inv [OF s(1)] by (simp add: connected_inv_def)
  with s(2) show ?thesis by (induction rule: connected_run.induct) (auto intro: connected_inv_step)
qed

text \<open>The parts of a connected runner that serves a channel.\<close>

lemma connected_serving:
  assumes "connected_inv env u h cn" "sv_phase (cn_serve cn) = Serving cw"
  obtains r sys st where "cn_runner cn = Some (r, sys)" "rs_dispatch sys = cw_dispatch cw" "loop_inv (env_wire env) cw"
    "validate (rn_limits r) = Inr ()" "runner_reachable (env_wire env) u h r st sys"
proof -
  have ok: "runtime_ok (env_wire env) (cn_serve cn)" using assms(1) by (simp add: connected_inv_def)
  then obtain limits dw where l: "live (cn_serve cn) = Some (limits, cw_dispatch cw)" "loop_inv (env_wire env) cw"
    "validate limits = Inr ()"
    using assms(2) by (auto simp: runtime_ok_def)
  then show ?thesis using assms(1) that by (cases "cn_runner cn") (auto simp: connected_inv_def)
qed

section \<open>What a client is told\<close>

lemma slot_of_request:
  assumes "aligned cx sys" "slot_of cx (rs_dispatch sys) request k"
  shows "k < length (rs_requests sys) \<and> req_request_id (rs_requests sys ! k) = req_request_id request \<and>
    envelope_fingerprint cx (rs_requests sys ! k) = envelope_fingerprint cx request"
  using assms by (auto simp: slot_of_def aligned_def)

lemma runner_error_limit:
  "runner_reachable cx u h r st sys \<Longrightarrow> max_error_bytes (disp (rs_dispatch sys)) = max_output_bytes (rn_limits r)"
  using run_limits runner_reachable_inv(3) unfolding dispatch_reachable_def
  by (fastforce simp: initial_world_def new_dispatcher_def)

text \<open>
  A request is recognised by the SHA-256 of its session and tool (\<open>request_fingerprint\<close> of
  \<^verbatim>\<open>src/crates/kodo/src/dispatcher.rs\<close>), so what is said about the tool and the session of a replayed
  response rests on the digest: no two requests at hand, different in tool or session, have the
  same one.
\<close>

definition request_key :: "request_envelope \<Rightarrow> uuid option \<times> tool_request" where
  "request_key q = (map_option lease_session_id (req_authority q), req_request q)"

definition no_collision :: "wire_codec \<Rightarrow> request_envelope set \<Rightarrow> bool" where
  "no_collision cx Q \<longleftrightarrow> inj_on (\<lambda>key. sha256_digest cx (request_to_vec cx key)) (request_key ` Q)"

lemma fingerprint_key: "envelope_fingerprint cx q = sha256_digest cx (request_to_vec cx (request_key q))"
  by (simp add: envelope_fingerprint_def request_fingerprint_def request_key_def)

lemma no_collision_key:
  "no_collision cx Q \<Longrightarrow> p \<in> Q \<Longrightarrow> q \<in> Q \<Longrightarrow> envelope_fingerprint cx p = envelope_fingerprint cx q \<Longrightarrow>
   request_key p = request_key q"
  unfolding no_collision_def fingerprint_key by (blast dest: inj_onD)

text \<open>A response in a slot is the result of the one call for its request.\<close>

definition result_of_call ::
  "wire_codec \<Rightarrow> uuid_ops \<Rightarrow> runner \<Rightarrow> 'w runner_system \<Rightarrow> request_envelope \<Rightarrow> nat \<Rightarrow> string \<Rightarrow> bool" where
  "result_of_call cx u r sys request k response \<longleftrightarrow>
     k < length (rs_requests sys) \<and> req_request_id (rs_requests sys ! k) = req_request_id request \<and>
     map_option lease_session_id (req_authority (rs_requests sys ! k)) =
       map_option lease_session_id (req_authority request) \<and>
     (\<forall>j < length (rs_requests sys). req_request_id (rs_requests sys ! j) = req_request_id request \<longrightarrow> j = k) \<and>
     tt_request (sys_tasks (rs_tools sys) ! k) = req_request request \<and>
     changes_by k (sys_history (rs_tools sys)) \<le> 1 \<and>
     (\<exists>result. tt_phase (sys_tasks (rs_tools sys) ! k) = ToolDone result \<and>
        response = call_response cx u (max_output_bytes (rn_limits r)) (req_request_id request) result)"

lemma slot_result:
  assumes reach: "runner_reachable cx u h r st sys" and slot: "slot_of cx (rs_dispatch sys) request k"
    and resp: "slot_response (slot_heap (disp (rs_dispatch sys)) ! k) = Some response"
    and col: "no_collision cx (insert request (set (rs_requests sys)))"
  shows "result_of_call cx u r sys request k response"
proof -
  note inv = runner_reachable_inv [OF reach]
  note k = slot_of_request [OF inv(1) slot]
  have "request_key (rs_requests sys ! k) = request_key request" by (rule no_collision_key [OF col]) (use k in simp_all)
  then have key: "req_request (rs_requests sys ! k) = req_request request"
    "map_option lease_session_id (req_authority (rs_requests sys ! k)) = map_option lease_session_id (req_authority request)"
    by (simp_all add: request_key_def)
  have ids: "map req_request_id (rs_requests sys) = map fst (elections (rs_dispatch sys))"
    using inv(1) by (simp add: aligned_def)
  have "distinct (map req_request_id (rs_requests sys))"
    unfolding ids using reachable_world_inv(1) [OF inv(3)] by (simp add: world_inv_def execution_part_def)
  then have one: "j = k" if "j < length (rs_requests sys)" "req_request_id (rs_requests sys ! j) = req_request_id request" for j
    using that k by (metis length_map nth_eq_iff_index_eq nth_map)
  have "made_for (call_list (rs_tools sys) ! k) (rs_requests sys ! k)"
    using inv(1) k by (simp add: aligned_def list_all2_conv_all_nth)
  then have "tt_request (sys_tasks (rs_tools sys) ! k) = req_request (rs_requests sys ! k)"
    using k aligned_length [OF inv(1)] by (simp add: call_list_def made_for_def)
  moreover have "changes_by k (sys_history (rs_tools sys)) \<le> 1"
    using tools_reachable_inv [OF inv(5)] by (intro history_ok_once) (simp add: scheduler_inv_def)
  moreover obtain result where "tt_phase (sys_tasks (rs_tools sys) ! k) = ToolDone result"
    "response = call_response cx u (max_error_bytes (disp (rs_dispatch sys))) (req_request_id (rs_requests sys ! k)) result"
    using inv(2) k resp unfolding answered_def by blast
  ultimately show ?thesis
    using k one key runner_error_limit [OF reach] by (auto simp: result_of_call_def)
qed

section \<open>Channel and runner side by side\<close>

text \<open>What a served channel and the runner do together, with the rest of the server at rest.\<close>

definition joint_step ::
  "wire_codec \<Rightarrow> json_codec \<Rightarrow> registration \<Rightarrow> uuid_ops \<Rightarrow> 'w tool_host \<Rightarrow> runner \<Rightarrow>
   channel_world \<times> 'w runner_system \<Rightarrow> channel_world \<times> 'w runner_system \<Rightarrow> bool" where
  "joint_step cx jc reg u h r x y \<longleftrightarrow>
     rs_dispatch (snd y) = cw_dispatch (fst y) \<and>
     (channel_step cx jc reg (fst x) (fst y) \<and> runner_run cx u h r (snd x) (snd y) \<or>
      fst y = fst x \<and> runner_step cx u h r (snd x) (snd y))"

definition at_joint :: "'w connected \<Rightarrow> runner \<Rightarrow> channel_world \<times> 'w runner_system \<Rightarrow> 'w connected" where
  "at_joint cn r x = \<lparr>cn_serve = (cn_serve cn)\<lparr>sv_phase := Serving (fst x)\<rparr>, cn_runner = Some (r, snd x)\<rparr>"

lemma connected_run_trans:
  "connected_run env base root agent_token u h v x \<Longrightarrow> connected_run env base root agent_token u h w v \<Longrightarrow>
   connected_run env base root agent_token u h w x"
  by (induction rule: connected_run.induct) (auto intro: con_next)

lemma connected_reachable_run:
  assumes "connected_reachable env base root agent_token u h cn" "connected_run env base root agent_token u h cn cn'"
  shows "connected_reachable env base root agent_token u h cn'"
proof -
  obtain input and ws :: "unit workspace" and lock build_client ready report st0 where
    s: "serve_inner (env_urls env) input ws lock build_client ready report = Inr (base, root, st0)"
      "connected_run env base root agent_token u h \<lparr>cn_serve = st0, cn_runner = None\<rparr> cn"
    using assms(1) unfolding connected_reachable_def by blast
  from s(1) connected_run_trans [OF assms(2) s(2)] show ?thesis unfolding connected_reachable_def by blast
qed

lemma joint_connected:
  assumes "(joint_step (env_wire env) (env_json env) reg u h r)\<^sup>*\<^sup>* x y"
    and "sv_registration (cn_serve cn) = Some reg" "sv_runtime (cn_serve cn) = Some (rn_limits r, dw)"
    and "rs_dispatch (snd x) = cw_dispatch (fst x)"
  shows "connected_run env base root agent_token u h (at_joint cn r x) (at_joint cn r y) \<and>
    rs_dispatch (snd y) = cw_dispatch (fst y)"
  using assms(1)
proof (induction rule: rtranclp_induct)
  case base
  show ?case using assms(4) by (simp add: con_refl)
next
  case (step y z)
  have d: "rs_dispatch (snd z) = cw_dispatch (fst z)" using step(2) by (simp add: joint_step_def)
  have "connected_step env base root agent_token u h (at_joint cn r y) (at_joint cn r z)"
  proof (cases "channel_step (env_wire env) (env_json env) reg (fst y) (fst z) \<and> runner_run (env_wire env) u h r (snd y) (snd z)")
    case True
    let ?st = "(cn_serve cn)\<lparr>sv_phase := Serving (fst y)\<rparr>" and ?st' = "(cn_serve cn)\<lparr>sv_phase := Serving (fst z)\<rparr>"
    have "serve_step env base root agent_token ?st ?st'"
      using sv_channel [of ?st "fst y" reg env "fst z" base root agent_token] True assms(2) by simp
    moreover have "live ?st' = Some (rn_limits r, rs_dispatch (snd z))" using assms(3) d by (simp add: live_def)
    ultimately show ?thesis
      using con_serve [of env base root agent_token "at_joint cn r y" ?st' r "snd y" u h "snd z"] True by (simp add: at_joint_def)
  next
    case False
    then have "fst z = fst y" "runner_step (env_wire env) u h r (snd y) (snd z)" using step(2) by (auto simp: joint_step_def)
    with con_tools [of "at_joint cn r y" r "snd y" env u h "snd z" base root agent_token] d step(3) show ?thesis
      by (simp add: at_joint_def)
  qed
  with step(3) d show ?case by (auto intro: con_next)
qed

lemma joint_channel:
  "channel_step cx jc reg cw cw' \<Longrightarrow> runner_run cx u h r sys sys' \<Longrightarrow> rs_dispatch sys' = cw_dispatch cw' \<Longrightarrow>
   joint_step cx jc reg u h r (cw, sys) (cw', sys')"
  by (simp add: joint_step_def)

lemma joint_tools:
  "(task_moves h r)\<^sup>*\<^sup>* (rs_tools sys) tools \<Longrightarrow> rs_dispatch sys = cw_dispatch cw \<Longrightarrow>
   (joint_step cx jc reg u h r)\<^sup>*\<^sup>* (cw, sys) (cw, sys\<lparr>rs_tools := tools\<rparr>)"
proof (induction rule: rtranclp_induct)
  case (step y z)
  then have "joint_step cx jc reg u h r (cw, sys\<lparr>rs_tools := y\<rparr>) (cw, sys\<lparr>rs_tools := z\<rparr>)"
    using runner_tools [of h r "sys\<lparr>rs_tools := y\<rparr>" z cx u] by (simp add: joint_step_def)
  with step show ?case by (simp add: rtranclp.rtrancl_into_rtrancl)
qed simp

lemma joint_quiet:
  "(quiet_task_step cx)\<^sup>*\<^sup>* (cw_dispatch cw) w \<Longrightarrow> rs_dispatch sys = cw_dispatch cw \<Longrightarrow>
   (joint_step cx jc reg u h r)\<^sup>*\<^sup>* (cw, sys) (cw\<lparr>cw_dispatch := w\<rparr>, sys\<lparr>rs_dispatch := w\<rparr>)"
proof (induction rule: rtranclp_induct)
  case base
  have "sys\<lparr>rs_dispatch := cw_dispatch cw\<rparr> = sys" using base by (cases sys) simp
  then show ?case by simp
next
  case (step y z)
  let ?cw = "\<lambda>w. cw\<lparr>cw_dispatch := w\<rparr>" and ?sys = "\<lambda>w. sys\<lparr>rs_dispatch := w\<rparr>"
  have "runner_step cx u h r (?sys y) (?sys z)"
    using runner_quiet [of cx "?sys y" z u h r] step_task step(2) by (simp add: quiet_task_step_def)
  then have "joint_step cx jc reg u h r (?cw y, ?sys y) (?cw z, ?sys z)"
    using ch_task [of cx "?cw y" z jc reg] step(2) runner_next [OF runner_refl]
    by (intro joint_channel) (simp_all add: quiet_task_step_def)
  with step show ?case by (simp add: rtranclp.rtrancl_into_rtrancl)
qed

lemma joint_publish:
  assumes "j < length (executions (cw_dispatch cw))" "task_response (executions (cw_dispatch cw) ! j) = None"
    and "tt_phase (sys_tasks (rs_tools sys) ! task_slot (executions (cw_dispatch cw) ! j)) = ToolDone result"
    and "rs_dispatch sys = cw_dispatch cw" "w = publish_call cx u j result (cw_dispatch cw)"
  shows "joint_step cx jc reg u h r (cw, sys) (cw\<lparr>cw_dispatch := w\<rparr>, sys\<lparr>rs_dispatch := w\<rparr>)"
proof (rule joint_channel)
  have "task_step cx (cw_dispatch cw) w"
    unfolding assms(5) publish_call_def Let_def call_response_def by (rule task_publish) (use assms in simp_all)
  then show "channel_step cx jc reg cw (cw\<lparr>cw_dispatch := w\<rparr>)" by (rule ch_task)
  show "runner_run cx u h r sys (sys\<lparr>rs_dispatch := w\<rparr>)"
    unfolding assms(5) assms(4) [symmetric]
    by (rule runner_next [OF runner_refl], rule runner_publish [OF _ HOL.refl]) (use assms in simp_all)
qed simp

section \<open>The composition restricts nothing but publications\<close>

lemma heap_grows_antisym:
  assumes "heap_grows h h'" "heap_grows h' h"
  shows "h = h'"
proof (rule nth_equalityI)
  show "length h = length h'" using assms by (simp add: heap_grows_def)
  show "h ! k = h' ! k" if "k < length h" for k
  proof (rule response_slot.equality)
    show "slot_response (h ! k) = slot_response (h' ! k)"
      using assms that unfolding heap_grows_def by (metis not_Some_eq order_less_le_trans)
    show "slot_fingerprint (h ! k) = slot_fingerprint (h' ! k)"
      using assms(1) that unfolding heap_grows_def by metis
  qed simp
qed

lemma quiet_dispatch_run:
  "dispatch_run cx w v \<Longrightarrow> world_inv w \<Longrightarrow> slot_heap (disp v) = slot_heap (disp w) \<Longrightarrow> rs_dispatch sys = w \<Longrightarrow>
   runner_run cx u h r sys (sys\<lparr>rs_dispatch := v\<rparr>)"
proof (induction rule: dispatch_run.induct)
  case (dispatch_refl w)
  then have "sys\<lparr>rs_dispatch := w\<rparr> = sys" by (cases sys) simp
  then show ?case by (simp add: runner_refl)
next
  case (dispatch_next w v x)
  have heap: "slot_heap (disp v) = slot_heap (disp w)"
    using heap_grows_antisym heap_grows_run [OF dispatch_next(1,4)]
      heap_grows_step [OF dispatch_next(2) world_inv_run [OF dispatch_next(1,4)]] dispatch_next(5) by metis
  have "runner_step cx u h r (sys\<lparr>rs_dispatch := v\<rparr>) (sys\<lparr>rs_dispatch := x\<rparr>)"
    using runner_quiet [of cx "sys\<lparr>rs_dispatch := v\<rparr>" x u h r] dispatch_next(2,5) heap by simp
  with dispatch_next heap show ?case by (blast intro: runner_next)
qed

text \<open>The steps that touch the slots are the arrival of a request and the tasks of the dispatcher.\<close>

definition slots_move :: "wire_codec \<Rightarrow> dispatch_world \<Rightarrow> dispatch_world \<Rightarrow> bool" where
  "slots_move cx w v \<longleftrightarrow>
     slot_heap (disp v) = slot_heap (disp w) \<or> (\<exists>request reply. arrive cx w request = (v, reply)) \<or> task_step cx w v"

lemma finish_slots [simp]: "slot_heap (disp (cw_dispatch (finish res w))) = slot_heap (disp (cw_dispatch w))"
  by (simp add: finish_def)

lemma handle_frame_slots [simp]:
  "slot_heap (disp (cw_dispatch (handle_frame jc reg f w))) = slot_heap (disp (cw_dispatch w))"
  by (auto simp: handle_frame_def push_request_def renew_authority_def split: sum.splits)

lemma channel_step_slots:
  assumes "channel_step cx jc reg w v"
  shows "slots_move cx (cw_dispatch w) (cw_dispatch v)"
  using assms
proof cases
  case ch_receive
  then show ?thesis
    by (simp add: slots_move_def receive_message_def Let_def split: list.splits sum.splits ws_message.splits)
next
  case (ch_poll i)
  obtain ref request fut where f: "ch_requests (cw_channel w) ! i = (ref, request, fut)" by (metis prod_cases3)
  show ?thesis
  proof (cases fut)
    case Unpolled
    obtain dw reply where "arrive cx (cw_dispatch w) request = (dw, reply)" by fastforce
    with Unpolled f ch_poll(1) show ?thesis by (auto simp: slots_move_def poll_request_def)
  next
    case (Awaiting k)
    then have "cw_dispatch v = cw_dispatch w"
      unfolding ch_poll(1) poll_request_def f by (cases "waiter_phase (waiters (cw_dispatch w) ! k)") simp_all
    then show ?thesis by (simp add: slots_move_def)
  next
    case (Ready response)
    then have "cw_dispatch v = cw_dispatch w" unfolding ch_poll(1) poll_request_def f by simp
    then show ?thesis by (simp add: slots_move_def)
  qed
next
  case (ch_complete i ref request response)
  then show ?thesis by (simp add: slots_move_def complete_request_def Let_def split: sum.splits prod.splits)
next
  case ch_tick
  then show ?thesis by (simp add: slots_move_def heartbeat_tick_def Let_def split: sum.splits prod.splits)
qed (simp_all add: slots_move_def)

lemma serve_step_slots:
  assumes "serve_step env base root agent_token st st'" "runtime_ok (env_wire env) st"
    and "live st = Some (limits, dw)" "live st' = Some (limits, dw')"
  shows "slots_move (env_wire env) dw dw'"
  using assms(1)
proof cases
  case (sv_channel cw reg cw')
  then have "dw = cw_dispatch cw" "dw' = cw_dispatch cw'"
    using assms(2-4) by (auto simp: runtime_ok_def live_def)
  then show ?thesis using channel_step_slots [OF sv_channel(4)] by simp
next
  case (sv_connect reg t connect)
  then have "live st' = live st \<or> live st' = None \<or> sv_runtime st = None"
    by (auto simp: after_connect_def sleep_backoff_def enter_channel_def start_channel_def live_def Let_def
        split: sum.splits connect_error.splits control_plane_error.splits prod.splits option.splits)
  then show ?thesis using assms(3,4) by (auto simp: slots_move_def)
next
  case (sv_task l w w')
  then show ?thesis using assms(3,4) by (simp add: slots_move_def)
next
  case (sv_clock l w t)
  then show ?thesis using assms(3,4) by (auto simp: slots_move_def)
next
  case (sv_leave cw res)
  then show ?thesis using assms(2-4) by (auto simp: slots_move_def after_channel_def sleep_backoff_def runtime_ok_def live_def)
qed (use assms(3,4) in \<open>auto simp: slots_move_def after_register_def sleep_backoff_def live_def split: sum.splits\<close>)

text \<open>Execution \<open>i\<close> publishes a response.\<close>

definition publishes :: "dispatch_world \<Rightarrow> dispatch_world \<Rightarrow> nat \<Rightarrow> bool" where
  "publishes w v i \<longleftrightarrow>
     i < length (executions w) \<and> task_response (executions w ! i) = None \<and>
     (\<exists>response. executions v = (executions w)[i := (executions w ! i)\<lparr>task_response := Some response\<rparr>])"

lemma slots_move_cases:
  assumes "slots_move cx w v"
  obtains "slot_heap (disp v) = slot_heap (disp w)" | request reply where "arrive cx w request = (v, reply)"
    | i where "publishes w v i"
proof -
  have "slot_heap (disp v) = slot_heap (disp w) \<or> (\<exists>i. publishes w v i)" if "task_step cx w v"
    using that by cases (auto simp: publishes_def account_response_def)
  with assms that show ?thesis unfolding slots_move_def by blast
qed

lemma connected_serve_step:
  assumes inv: "connected_inv env u h cn" and step: "serve_step env base root agent_token (cn_serve cn) st"
    and run: "cn_runner cn = Some (r, sys)"
  shows "(\<exists>sys'. runner_run (env_wire env) u h r sys sys' \<and> live st = Some (rn_limits r, rs_dispatch sys')) \<or>
    (\<exists>w i. live st = Some (rn_limits r, w) \<and> publishes (rs_dispatch sys) w i)"
proof -
  have live: "live (cn_serve cn) = Some (rn_limits r, rs_dispatch sys)" "runtime_ok (env_wire env) (cn_serve cn)"
    using inv run by (simp_all add: connected_inv_def)
  obtain w where w: "live st = Some (rn_limits r, w)" "dispatch_run (env_wire env) (rs_dispatch sys) w"
    using serve_step_ok [OF step live(2)] live(1) by (auto simp: continues_def)
  have winv: "world_inv (rs_dispatch sys)"
    using inv run reachable_world_inv(1) [OF runner_reachable_inv(3)] by (auto simp: connected_inv_def)
  from serve_step_slots [OF step live(2,1) w(1)] show ?thesis
  proof (cases rule: slots_move_cases)
    case 1
    then show ?thesis
      using quiet_dispatch_run [OF w(2) winv 1 HOL.refl, of u h r] w(1)
      by (intro disjI1 exI [of _ "sys\<lparr>rs_dispatch := w\<rparr>"]) simp
  next
    case (2 request reply)
    obtain sys' reply' where r: "receive (env_wire env) request sys = (sys', reply')" by fastforce
    then have "rs_dispatch sys' = w" using 2 by (elim receive_facts) simp
    moreover have "runner_run (env_wire env) u h r sys sys'" by (rule runner_next [OF runner_refl runner_receive [OF r]])
    ultimately show ?thesis using w(1) by blast
  next
    case (3 i)
    then show ?thesis using w(1) by blast
  qed
qed

text \<open>Every step the server can take is one of the composition, unless it publishes a response.\<close>

lemma serve_step_composes:
  assumes inv: "connected_inv env u h cn" and step: "serve_step env base root agent_token (cn_serve cn) st"
  shows "(\<exists>cn'. connected_step env base root agent_token u h cn cn' \<and> cn_serve cn' = st) \<or>
    (\<exists>limits w v i. live (cn_serve cn) = Some (limits, w) \<and> live st = Some (limits, v) \<and> publishes w v i)"
proof (cases "cn_runner cn")
  case None
  show ?thesis
  proof (cases "live st")
    case (Some x)
    obtain limits dw where x: "x = (limits, dw)" by fastforce
    then obtain r m where "from_limits root limits = Inr (r, m)"
      using serve_step_starts [OF step _ _ Some [unfolded x]] inv None by (auto simp: connected_inv_def)
    from con_join [OF step None Some [unfolded x] this] show ?thesis by fastforce
  qed (use con_before [OF step None] in fastforce)
next
  case (Some x)
  obtain r sys where x: "x = (r, sys)" by fastforce
  from connected_serve_step [OF inv step Some [unfolded x]] show ?thesis
  proof (elim disjE exE conjE)
    fix sys' assume "runner_run (env_wire env) u h r sys sys'" "live st = Some (rn_limits r, rs_dispatch sys')"
    from con_serve [OF step Some [unfolded x] this] show ?thesis by fastforce
  next
    fix w i assume "live st = Some (rn_limits r, w)" "publishes (rs_dispatch sys) w i"
    then show ?thesis using inv Some x by (auto simp: connected_inv_def)
  qed
qed

section \<open>Every request is answered\<close>

text \<open>Stops are the one tool that may wait for ever, for a command that does not end.\<close>

definition no_stop :: "request_envelope \<Rightarrow> bool" where
  "no_stop request \<longleftrightarrow> (\<nexists>process_id after. req_request request = StopCommand process_id after)"

lemma joint_waiter:
  assumes reach: "runner_reachable cx u h r st sys" and "0 < max_blocking_tools (rn_limits r)"
    and d: "rs_dispatch sys = cw_dispatch cw"
    and i: "i < length (waiters (cw_dispatch cw))" "waiter_phase (waiters (cw_dispatch cw) ! i) \<noteq> WaitDropped"
    and stop: "no_stop (rs_requests sys ! waiter_slot (waiters (cw_dispatch cw) ! i))"
  shows "\<exists>w sys' response. (joint_step cx jc reg u h r)\<^sup>*\<^sup>* (cw, sys) (cw\<lparr>cw_dispatch := w\<rparr>, sys') \<and>
    rs_requests sys' = rs_requests sys \<and> i < length (waiters w) \<and> waiter_phase (waiters w ! i) = WaitReturned response"
proof -
  let ?w = "cw_dispatch cw" and ?k = "waiter_slot (waiters (cw_dispatch cw) ! i)" and ?J = "joint_step cx jc reg u h r"
  note inv = runner_reachable_inv [OF reach]
  note winv = reachable_world_inv [OF inv(3), unfolded d]
  have k: "?k < length (slot_heap (disp ?w))"
    using winv(1) i(1) by (auto simp: world_inv_def waiter_part_def waiter_ok_def)
  have finds: "\<exists>w sys' response. ?J\<^sup>*\<^sup>* (cw, sys) (cw\<lparr>cw_dispatch := w\<rparr>, sys') \<and>
      rs_requests sys' = rs_requests sys \<and> i < length (waiters w) \<and> waiter_phase (waiters w ! i) = WaitReturned response"
    if "?J\<^sup>*\<^sup>* (cw, sys) (cw\<lparr>cw_dispatch := v\<rparr>, sys\<lparr>rs_tools := tools, rs_dispatch := v\<rparr>)" "finds_response cx v i response"
    for v tools response
  proof -
    obtain w where w: "(quiet_task_step cx)\<^sup>*\<^sup>* v w" "i < length (waiters w)" "waiter_phase (waiters w ! i) = WaitReturned response"
      using \<open>finds_response cx v i response\<close> unfolding finds_response_def by blast
    from w(1) have "?J\<^sup>*\<^sup>* (cw\<lparr>cw_dispatch := v\<rparr>, sys\<lparr>rs_tools := tools, rs_dispatch := v\<rparr>)
        (cw\<lparr>cw_dispatch := w\<rparr>, sys\<lparr>rs_tools := tools, rs_dispatch := w\<rparr>)"
      using joint_quiet [of cx "cw\<lparr>cw_dispatch := v\<rparr>" w "sys\<lparr>rs_tools := tools, rs_dispatch := v\<rparr>"] by simp
    with that(1) have "?J\<^sup>*\<^sup>* (cw, sys) (cw\<lparr>cw_dispatch := w\<rparr>, sys\<lparr>rs_tools := tools, rs_dispatch := w\<rparr>)"
      by (rule rtranclp_trans)
    with w show ?thesis
      by (intro exI [of _ w] exI [of _ "sys\<lparr>rs_tools := tools, rs_dispatch := w\<rparr>"] exI [of _ response]) simp
  qed
  have same: "sys\<lparr>rs_dispatch := ?w\<rparr> = sys" using d by (cases sys) simp
  show ?thesis
  proof (cases "slot_response (slot_heap (disp ?w) ! ?k)")
    case (Some response)
    then have "finds_response cx ?w i response" by (rule published_finds [OF winv(1) i])
    then show ?thesis by (intro finds [of ?w "rs_tools sys"]) (simp_all add: same)
  next
    case None
    have "made_for (call_list (rs_tools sys) ! ?k) (rs_requests sys ! ?k)"
      using inv(1) k d by (simp add: aligned_def list_all2_conv_all_nth)
    then have "tt_request (sys_tasks (rs_tools sys) ! ?k) = req_request (rs_requests sys ! ?k)"
      using k d inv(1) aligned_length [OF inv(1)] by (simp add: call_list_def made_for_def aligned_def)
    then have "\<nexists>process_id after. tt_request (sys_tasks (rs_tools sys) ! ?k) = StopCommand process_id after"
      using stop by (simp add: no_stop_def)
    from pending_call_completes [OF assms(1,2) k [folded d] None [folded d] this [folded d]]
    obtain j tools result where j: "j < length (executions ?w)" "task_slot (executions ?w ! j) = ?k"
      "task_response (executions ?w ! j) = None" and tools: "(task_moves h r)\<^sup>*\<^sup>* (rs_tools sys) tools"
      and res: "tt_phase (sys_tasks tools ! ?k) = ToolDone result"
      unfolding d by blast
    let ?pub = "publish_call cx u j result ?w"
    have "?J\<^sup>*\<^sup>* (cw, sys) (cw, sys\<lparr>rs_tools := tools\<rparr>)" by (rule joint_tools [OF tools d])
    moreover have "?J (cw, sys\<lparr>rs_tools := tools\<rparr>) (cw\<lparr>cw_dispatch := ?pub\<rparr>, (sys\<lparr>rs_tools := tools\<rparr>)\<lparr>rs_dispatch := ?pub\<rparr>)"
      by (rule joint_publish [OF j(1,3) _ _ HOL.refl]) (use j res d in simp_all)
    ultimately have "?J\<^sup>*\<^sup>* (cw, sys) (cw\<lparr>cw_dispatch := ?pub\<rparr>, sys\<lparr>rs_tools := tools, rs_dispatch := ?pub\<rparr>)"
      by (simp add: rtranclp.rtrancl_into_rtrancl)
    moreover have "finds_response cx ?pub i (call_response cx u (max_error_bytes (disp ?w))
        (task_request_id (executions ?w ! j)) result)"
      by (rule publish_call_finds [OF winv(1)]) (use i j k in simp_all)
    ultimately show ?thesis by (rule finds)
  qed
qed

lemma joint_run_parts:
  "(joint_step cx jc reg u h r)\<^sup>*\<^sup>* x y \<Longrightarrow> rs_dispatch (snd x) = cw_dispatch (fst x) \<Longrightarrow>
   runner_run cx u h r (snd x) (snd y) \<and> channel_run cx jc reg (fst x) (fst y) \<and> rs_dispatch (snd y) = cw_dispatch (fst y)"
proof (induction rule: rtranclp_induct)
  case base
  then show ?case by (simp add: runner_refl ch_refl)
next
  case (step y z)
  then have y: "runner_run cx u h r (snd x) (snd y)" "channel_run cx jc reg (fst x) (fst y)" by simp_all
  have z: "runner_run cx u h r (snd y) (snd z)" "channel_run cx jc reg (fst y) (fst z)"
    using step(2) runner_next [OF runner_refl] channel_run_single ch_refl [of cx jc reg "fst y"] by (auto simp: joint_step_def)
  show ?case
    using runner_run_trans [OF z(1) y(1)] channel_run_trans [OF z(2) y(2)] step(2) by (simp add: joint_step_def)
qed

text \<open>What becomes of a response: the frame the socket takes, or the error that ends the channel, when the
  response cannot be decoded, its frame cannot be serialized or is too long, or the socket fails.\<close>

definition delivery ::
  "json_codec \<Rightarrow> registration \<Rightarrow> string option \<Rightarrow> websocket \<Rightarrow> string \<Rightarrow> control_plane_error + string" where
  "delivery jc reg ref ws response =
     (case value_from_str jc response of
        Inl e \<Rightarrow> Inl (Transport e)
      | Inr payload \<Rightarrow>
          (case frame_serialize jc (tool_response_frame reg ref payload) of
             Inl e \<Rightarrow> Inl e
           | Inr str \<Rightarrow> (case ws_send_error ws (length (ws_sent ws)) of Some e \<Rightarrow> Inl (Transport e) | None \<Rightarrow> Inr str)))"

definition delivered ::
  "json_codec \<Rightarrow> registration \<Rightarrow> string option \<Rightarrow> request_envelope \<Rightarrow> string \<Rightarrow> channel_world \<Rightarrow> channel_world \<Rightarrow> bool" where
  "delivered jc reg ref request response cw cw' \<longleftrightarrow>
     (case delivery jc reg ref (ch_socket (cw_channel cw)) response of
        Inr str \<Rightarrow>
          cw_result cw' = None \<and> ws_sent (ch_socket (cw_channel cw')) = ws_sent (ch_socket (cw_channel cw)) @ [str] \<and>
          ch_answered (cw_channel cw') = ch_answered (cw_channel cw) @ [(ref, request, response)]
      | Inl e \<Rightarrow>
          cw_result cw' = Some (Inl e) \<and> ws_sent (ch_socket (cw_channel cw')) = ws_sent (ch_socket (cw_channel cw)) \<and>
          ch_answered (cw_channel cw') = ch_answered (cw_channel cw))"

lemma complete_request_delivers:
  assumes "cw_result cw = None" "ch_requests (cw_channel cw) ! i = (ref, request, fut)"
  shows "delivered jc reg ref request response cw (complete_request jc reg i response cw)"
    and "slot_heap (disp (cw_dispatch (complete_request jc reg i response cw))) = slot_heap (disp (cw_dispatch cw))"
    and "elections (cw_dispatch (complete_request jc reg i response cw)) = elections (cw_dispatch cw)"
  using assms
  by (auto simp: delivered_def delivery_def complete_request_def send_frame_def set_socket_def finish_def Let_def
      split: sum.splits option.splits)

definition joint_answers ::
  "wire_codec \<Rightarrow> json_codec \<Rightarrow> registration \<Rightarrow> uuid_ops \<Rightarrow> 'w tool_host \<Rightarrow> runner \<Rightarrow>
   channel_world \<times> 'w runner_system \<Rightarrow> string option \<Rightarrow> request_envelope \<Rightarrow> bool" where
  "joint_answers cx jc reg u h r x ref request \<longleftrightarrow> (\<exists>y response. (joint_step cx jc reg u h r)\<^sup>*\<^sup>* x y \<and>
     set (rs_requests (snd y)) \<subseteq> insert request (set (rs_requests (snd x))) \<and>
     answer_ok cx (cw_dispatch (fst y)) request response \<and> delivered jc reg ref request response (fst x) (fst y))"

lemma joint_answers_run:
  assumes "(joint_step cx jc reg u h r)\<^sup>*\<^sup>* x y" "joint_answers cx jc reg u h r y ref request"
    and "ch_answered (cw_channel (fst y)) = ch_answered (cw_channel (fst x))"
    and "ch_socket (cw_channel (fst y)) = ch_socket (cw_channel (fst x))"
    and "set (rs_requests (snd y)) \<subseteq> insert request (set (rs_requests (snd x)))"
  shows "joint_answers cx jc reg u h r x ref request"
proof -
  obtain z response where z: "(joint_step cx jc reg u h r)\<^sup>*\<^sup>* y z"
    "set (rs_requests (snd z)) \<subseteq> insert request (set (rs_requests (snd y)))"
    "answer_ok cx (cw_dispatch (fst z)) request response" "delivered jc reg ref request response (fst y) (fst z)"
    using assms(2) unfolding joint_answers_def by blast
  have "delivered jc reg ref request response (fst x) (fst z)" using z(4) unfolding delivered_def assms(3,4) .
  moreover have "set (rs_requests (snd z)) \<subseteq> insert request (set (rs_requests (snd x)))" using z(2) assms(5) by blast
  ultimately show ?thesis
    unfolding joint_answers_def using rtranclp_trans [OF assms(1) z(1)] z(3) by blast
qed

lemma joint_ready:
  assumes reach: "runner_reachable cx u h r st sys" and d: "rs_dispatch sys = cw_dispatch cw"
    and inv: "loop_inv cx cw" "books cw"
    and cw: "cw_result cw = None" "i < length (ch_requests (cw_channel cw))"
      "ch_requests (cw_channel cw) ! i = (ref, request, Ready response)"
  shows "joint_answers cx jc reg u h r (cw, sys) ref request"
proof -
  let ?cw = "complete_request jc reg i response cw" and ?sys = "sys\<lparr>rs_dispatch := cw_dispatch (complete_request jc reg i response cw)\<rparr>"
  note del = complete_request_delivers [OF cw(1,3), where response = response and jc = jc and reg = reg]
  have step: "channel_step cx jc reg cw ?cw" by (rule ch_complete [OF cw])
  then have "dispatch_run cx (rs_dispatch sys) (cw_dispatch ?cw)"
    using channel_step_keeps [OF _ inv] d by (simp add: keeps_def)
  moreover have "world_inv (rs_dispatch sys)" using reachable_world_inv(1) [OF runner_reachable_inv(3) [OF reach]] .
  ultimately have "runner_run cx u h r sys ?sys" by (rule quiet_dispatch_run) (simp_all add: del d)
  then have "joint_step cx jc reg u h r (cw, sys) (?cw, ?sys)" by (intro joint_channel [OF step]) simp_all
  moreover have "answer_ok cx (cw_dispatch cw) request response"
    using inv(1) nth_mem [OF cw(2)] cw(3) by (fastforce simp: loop_inv_def)
  then have "answer_ok cx (cw_dispatch ?cw) request response" by (simp add: answer_ok_def slot_of_def del)
  ultimately show ?thesis
    unfolding joint_answers_def by (intro exI [of _ "(?cw, ?sys)"] exI [of _ response]) (simp add: del(1) subset_insertI)
qed

lemma joint_awaiting:
  assumes reach: "runner_reachable cx u h r st sys" and permits: "0 < max_blocking_tools (rn_limits r)"
    and d: "rs_dispatch sys = cw_dispatch cw" and inv: "loop_inv cx cw" "books cw"
    and cw: "cw_result cw = None" "i < length (ch_requests (cw_channel cw))"
      "ch_requests (cw_channel cw) ! i = (ref, request, Awaiting k)"
    and stop: "\<forall>q \<in> set (rs_requests sys). req_request_id q = req_request_id request \<longrightarrow> no_stop q"
  shows "joint_answers cx jc reg u h r (cw, sys) ref request"
proof -
  have fut: "future_ok cx (cw_dispatch cw) request (Awaiting k)"
    using inv(1) nth_mem [OF cw(2)] cw(3) by (fastforce simp: loop_inv_def)
  have "no_stop (rs_requests sys ! waiter_slot (waiters (cw_dispatch cw) ! k))"
    using slot_of_request [OF runner_reachable_inv(1) [OF reach], unfolded d, of request] fut stop nth_mem by fastforce
  from joint_waiter [OF reach permits d _ _ this, of jc reg] fut obtain w sys' response where
    w: "(joint_step cx jc reg u h r)\<^sup>*\<^sup>* (cw, sys) (cw\<lparr>cw_dispatch := w\<rparr>, sys')" "rs_requests sys' = rs_requests sys"
      "k < length (waiters w)" "waiter_phase (waiters w ! k) = WaitReturned response" by auto
  let ?cw = "cw\<lparr>cw_dispatch := w\<rparr>" and ?ready = "set_future i (Ready response) (cw\<lparr>cw_dispatch := w\<rparr>)"
  have parts: "runner_run cx u h r sys sys'" "channel_run cx jc reg cw ?cw" "rs_dispatch sys' = w"
    using joint_run_parts [OF w(1)] d by simp_all
  have "poll_request cx i ?cw = ?ready" by (simp add: poll_request_def cw(3) w(4))
  then have poll: "channel_step cx jc reg ?cw ?ready" using ch_poll [of ?cw i cx jc reg] cw by simp
  then have "joint_step cx jc reg u h r (?cw, sys') (?ready, sys')"
    using parts(3) by (intro joint_channel runner_refl) simp_all
  with w(1) have run: "(joint_step cx jc reg u h r)\<^sup>*\<^sup>* (cw, sys) (?ready, sys')" by (rule rtranclp.rtrancl_into_rtrancl)
  have "channel_run cx jc reg cw ?ready" by (rule ch_next [OF parts(2) poll])
  then have keep: "loop_inv cx ?ready" "books ?ready" using channel_run_keeps [OF _ inv] by (simp_all add: keeps_def)
  have "ch_requests (cw_channel ?ready) ! i = (ref, request, Ready response)" using cw by (intro set_future_nth) simp_all
  then have "joint_answers cx jc reg u h r (?ready, sys') ref request"
    using cw parts(3) keep by (intro joint_ready [OF runner_reachable_run [OF reach parts(1)]]) simp_all
  from joint_answers_run [OF run this] show ?thesis using w(2) by auto
qed

lemma joint_unpolled:
  assumes reach: "runner_reachable cx u h r st sys" and permits: "0 < max_blocking_tools (rn_limits r)"
    and d: "rs_dispatch sys = cw_dispatch cw" and inv: "loop_inv cx cw" "books cw"
    and cw: "cw_result cw = None" "i < length (ch_requests (cw_channel cw))"
      "ch_requests (cw_channel cw) ! i = (ref, request, Unpolled)"
    and stop: "no_stop request" "\<forall>q \<in> set (rs_requests sys). req_request_id q = req_request_id request \<longrightarrow> no_stop q"
  shows "joint_answers cx jc reg u h r (cw, sys) ref request"
proof -
  obtain dw reply where a: "arrive cx (cw_dispatch cw) request = (dw, reply)" by fastforce
  obtain sys' reply' where r: "receive cx request sys = (sys', reply')" by fastforce
  then have q: "rs_dispatch sys' = dw" "set (rs_requests sys') \<subseteq> insert request (set (rs_requests sys))"
    using a d by (elim receive_facts, simp, elim receive_facts, auto split: option.splits)
  let ?fut = "case reply of Reply response \<Rightarrow> Ready response | AwaitSlot _ \<Rightarrow> Awaiting (length (waiters (cw_dispatch cw)))"
  let ?v = "poll_request cx i cw"
  have v: "?v = set_future i ?fut (cw\<lparr>cw_dispatch := dw\<rparr>)" by (simp add: poll_request_def cw(3) a)
  have nth: "ch_requests (cw_channel ?v) ! i = (ref, request, ?fut)" unfolding v using cw by (intro set_future_nth) simp_all
  have step: "channel_step cx jc reg cw ?v" by (rule ch_poll [OF cw(1,2)])
  have rstep: "runner_run cx u h r sys sys'" by (rule runner_next [OF runner_refl runner_receive [OF r]])
  have run: "joint_step cx jc reg u h r (cw, sys) (?v, sys')" by (rule joint_channel [OF step rstep]) (simp add: v q)
  have st: "cw_result ?v = None" "i < length (ch_requests (cw_channel ?v))" "rs_dispatch sys' = cw_dispatch ?v"
    using cw q by (simp_all add: v)
  have keep: "loop_inv cx ?v" "books ?v" using channel_step_keeps [OF step inv] by (simp_all add: keeps_def)
  note reach' = runner_reachable_run [OF reach rstep]
  have "joint_answers cx jc reg u h r (?v, sys') ref request"
  proof (cases reply)
    case (Reply response)
    then show ?thesis using nth by (intro joint_ready [OF reach' st(3) keep st(1,2)]) simp
  next
    case (AwaitSlot sid)
    have "\<forall>q \<in> set (rs_requests sys'). req_request_id q = req_request_id request \<longrightarrow> no_stop q"
      using stop q(2) by blast
    with AwaitSlot nth joint_awaiting [OF reach' permits st(3) keep st(1,2)] show ?thesis by simp
  qed
  with run have "(joint_step cx jc reg u h r)\<^sup>*\<^sup>* (cw, sys) (?v, sys')" "joint_answers cx jc reg u h r (?v, sys') ref request"
    by auto
  from joint_answers_run [OF this] show ?thesis using q(2) by (simp add: v)
qed

lemma validated_permits: "validate limits = Inr () \<Longrightarrow> 0 < max_blocking_tools limits"
  by (auto simp: validate_def quotas_def split: if_splits)

section \<open>Properties\<close>

text \<open>C5.  What is sent on the socket is what the worktree went through.  Over all connections, reconnections and
  retries: a response sent for a request is the refusal of that request, or the serialized result of the
  one call that was ever made under its identifier, and that call ran the tool of the request, for the same
  session, and has changed the worktree at most once; provided that the SHA-256 of the requests the runner
  has executed and of this one do not collide.\<close>

theorem sent_response_is_result:
  assumes "connected_reachable env base root agent_token u h cn" "sv_phase (cn_serve cn) = Serving cw"
    and "(ref, request, response) \<in> set (ch_answered (cw_channel cw))" "cn_runner cn = Some (r, sys)"
    and "no_collision (env_wire env) (insert request (set (rs_requests sys)))"
  shows "refusal (env_wire env) request response \<or> (\<exists>k. result_of_call (env_wire env) u r sys request k response)"
proof -
  obtain st where c: "rs_dispatch sys = cw_dispatch cw" "loop_inv (env_wire env) cw"
    "runner_reachable (env_wire env) u h r st sys"
    using connected_serving [OF connected_reachable_inv [OF assms(1)] assms(2)] assms(4) by auto
  have "answer_ok (env_wire env) (cw_dispatch cw) request response" using c(2) assms(3) by (auto simp: loop_inv_def)
  then show ?thesis using slot_result [OF c(3) _ _ assms(5)] c(1) by (auto simp: answer_ok_def)
qed


section \<open>A request, from the socket and back\<close>

text \<open>A control plane that joins and then sends one tool request.\<close>

definition call_json :: json_codec where
  "call_json = demo_json\<lparr>
     frame_from_str := (\<lambda>s. if s = ''call'' then
         Inr (JNull, JString ''7'', JString ''runner:r'', JString ''tool_request'', JNull)
       else frame_from_str demo_json s),
     value_to_string := (\<lambda>_. Inr ''frame''), request_from_value := (\<lambda>_. Inr (demo_request GitStatus))\<rparr>"

definition call_env :: "string serve_env" where
  "call_env = demo_env\<lparr>env_json := call_json\<rparr>"

definition call_socket :: "(string + ws_message) list \<Rightarrow> websocket" where
  "call_socket msgs = (demo_socket msgs)\<lparr>ws_sent := [''frame'']\<rparr>"

definition call_runner :: "demo_dir runner_system" where
  "call_runner = start_runner demo_runner (with_limits (max_output_bytes standalone) (max_retained_processes standalone)
     (max_process_output_chunks standalone)) demo_files (initial_world standalone)"

definition call_serving :: "channel_world \<Rightarrow> serve_state" where
  "call_serving cw = demo_connecting\<lparr>sv_runtime := Some (standalone, initial_world standalone), sv_ready := False,
     sv_notified := [''r''], sv_phase := Serving cw\<rparr>"

lemma call_frames:
  "frame_parse call_json ''joined'' = Inr \<lparr>join_ref = None, frame_reference = Some ''1'',
     frame_topic = ''runner:r'', frame_event = ''phx_reply'', frame_payload =
       JObject [(''status'', JString ''ok''), (''response'', JObject [(''limits'', JNull)])]\<rparr>"
  "frame_parse call_json ''call'' = Inr \<lparr>join_ref = None, frame_reference = Some ''7'',
     frame_topic = ''runner:r'', frame_event = ''tool_request'', frame_payload = JNull\<rparr>"
  "frame_serialize call_json f = Inr ''frame''"
  by (simp_all add: frame_parse_def call_json_def demo_json_def MAX_WIRE_BYTES_def required_string_def frame_serialize_Inr)

lemma call_registered:
  "register demo_urls demo_ids call_json demo_build (\<lambda>_. []) demo_client ''http://localhost'' ''/w'' ''a'' = Inr demo_registration"
proof -
  have same: "registration_from_slice call_json = registration_from_slice demo_json" by (simp add: call_json_def)
  show ?thesis using demo_register unfolding register_def same .
qed

lemma call_joined:
  "connect_and_join demo_urls call_json (\<lambda>_ _ _. Inr (demo_socket [Inr (WsText ''joined''), Inr (WsText ''call'')]))
     ''http://localhost'' demo_registration = Inr (call_socket [Inr (WsText ''call'')], standalone)"
proof -
  have s: "send_frame call_json (demo_socket ms) (join_frame demo_registration) = (call_socket ms, Inr ())" for ms
    by (simp add: send_frame_def call_frames demo_socket_def call_socket_def)
  have "parse_join_limits call_json (JObject [(''status'', JString ''ok''), (''response'', JObject [(''limits'', JNull)])]) =
      Inr standalone"
    by (simp add: parse_join_limits_def get_str_def call_json_def demo_json_def standalone_valid)
  then have "join_loop call_json demo_registration [Inr (WsText ''joined''), Inr (WsText ''call'')] =
      ([Inr (WsText ''call'')], Inr standalone)"
    by (simp add: call_frames demo_registration_def JOIN_REFERENCE_def)
  then show ?thesis
    by (simp add: connect_and_join_def socket_url_def demo_urls_def join_def s)
       (simp add: call_socket_def demo_socket_def)
qed

text \<open>The request is in flight: registered, joined, received.\<close>

definition call_pending :: channel_world where
  "call_pending =
     \<lparr>cw_channel = (new_channel (call_socket []) 0)\<lparr>
        ch_requests := [(Some ''7'', demo_request GitStatus, Unpolled)], ch_accepted := [Some ''7'']\<rparr>,
      cw_dispatch = initial_world standalone, cw_status = None, cw_reported = [], cw_result = None\<rparr>"

definition call_connected :: "demo_dir connected" where
  "call_connected = \<lparr>cn_serve = call_serving call_pending, cn_runner = Some (demo_runner, call_runner)\<rparr>"

abbreviation call_step :: "demo_dir connected \<Rightarrow> demo_dir connected \<Rightarrow> bool" where
  "call_step \<equiv> connected_step call_env ''http://localhost'' ''/w'' ''a'' demo_uuids demo_host"

lemma call_registers:
  "call_step \<lparr>cn_serve = demo_looping, cn_runner = None\<rparr> \<lparr>cn_serve = demo_connecting, cn_runner = None\<rparr>"
proof -
  have "serve_step call_env ''http://localhost'' ''/w'' ''a'' demo_looping demo_connecting"
    using sv_register [of demo_looping call_env "''http://localhost''" "''/w''" "''a''" demo_client]
    by (simp add: call_env_def demo_env_def call_registered after_register_def demo_connecting_def) (simp add: demo_looping_def)
  moreover have "live demo_connecting = None" by (simp add: demo_connecting_def demo_looping_def)
  ultimately show ?thesis
    using con_before [of call_env _ _ _ "\<lparr>cn_serve = demo_looping, cn_runner = None\<rparr>" demo_connecting] by simp
qed

lemma call_joins:
  "call_step \<lparr>cn_serve = demo_connecting, cn_runner = None\<rparr>
     \<lparr>cn_serve = call_serving (start_channel (initial_world standalone) (call_socket [Inr (WsText ''call'')]) None []),
      cn_runner = Some (demo_runner, call_runner)\<rparr>" (is "call_step _ \<lparr>cn_serve = ?st, cn_runner = _\<rparr>")
proof -
  have w: "(initial_world standalone)\<lparr>wclock := 0\<rparr> = initial_world standalone" by (simp add: initial_world_def)
  have "max_blocking_tools standalone = 8" by (simp add: standalone_def)
  then have limits: "from_limits ''/w'' standalone = Inr (demo_runner, with_limits (max_output_bytes standalone)
      (max_retained_processes standalone) (max_process_output_chunks standalone))"
    by (simp add: from_limits_def standalone_valid max_permits_def MAX_BLOCKING_TOOLS_def demo_runner_def)
  then have "after_connect ''/w'' 0 demo_registration (Inr (call_socket [Inr (WsText ''call'')], standalone)) demo_connecting = ?st"
    unfolding after_connect_def call_serving_def enter_channel_def Let_def
    using w by (simp add: demo_connecting_def demo_looping_def demo_registration_def)
  then have "serve_step call_env ''http://localhost'' ''/w'' ''a'' demo_connecting ?st"
    using sv_connect [of demo_connecting demo_registration call_env "''http://localhost''" "''/w''" "''a''" 0
        "\<lambda>_ _ _. Inr (demo_socket [Inr (WsText ''joined''), Inr (WsText ''call'')])"]
    by (simp add: call_env_def demo_env_def call_joined) (simp add: demo_connecting_def)
  moreover have "live ?st = Some (standalone, initial_world standalone)"
    by (simp add: live_def call_serving_def start_channel_def)
  ultimately show ?thesis unfolding call_runner_def by (intro con_join [OF _ _ _ limits]) simp_all
qed

lemma call_receives:
  "call_step \<lparr>cn_serve = call_serving (start_channel (initial_world standalone) (call_socket [Inr (WsText ''call'')]) None []),
      cn_runner = Some (demo_runner, call_runner)\<rparr> call_connected"
proof -
  let ?cw = "start_channel (initial_world standalone) (call_socket [Inr (WsText ''call'')]) None []"
  have "request_from_value call_json JNull = Inr (demo_request GitStatus)" by (simp add: call_json_def)
  then have "receive_message call_json demo_registration ?cw = call_pending"
    by (simp add: receive_message_def start_channel_def call_socket_def demo_socket_def new_channel_def set_socket_def
        call_frames handle_frame_def is_closing_def demo_registration_def push_request_def observe_request_def
        call_pending_def initial_world_def)
  moreover have "channel_step demo_codec call_json demo_registration ?cw (receive_message call_json demo_registration ?cw)"
    by (rule ch_receive) (simp_all add: start_channel_def new_channel_def MAX_IN_FLIGHT_REQUESTS_def)
  ultimately have "serve_step call_env ''http://localhost'' ''/w'' ''a'' (call_serving ?cw) (call_serving call_pending)"
    using sv_channel [of "call_serving ?cw" ?cw demo_registration call_env call_pending "''http://localhost''" "''/w''" "''a''"]
    by (simp add: call_serving_def demo_connecting_def call_env_def demo_env_def)
  moreover have "live (call_serving call_pending) = Some (rn_limits demo_runner, rs_dispatch call_runner)"
    by (simp add: live_def call_serving_def call_pending_def call_runner_def start_runner_def demo_runner_def)
  ultimately show ?thesis unfolding call_connected_def by (intro con_serve [OF _ _ runner_refl]) simp_all
qed

lemma call_connected_reachable:
  "connected_reachable call_env ''http://localhost'' ''/w'' ''a'' demo_uuids demo_host call_connected"
proof -
  have "serve_inner (env_urls call_env) ''http://localhost'' (\<lparr>ws_root = ''/w'', ws_root_dir = ()\<rparr>) (Inr ''lock'')
      (\<lambda>_. Inr ()) True False = Inr (''http://localhost'', ''/w'', demo_looping)"
    using demo_serve_inner by (simp add: call_env_def demo_env_def)
  moreover have "connected_run call_env ''http://localhost'' ''/w'' ''a'' demo_uuids demo_host
      \<lparr>cn_serve = demo_looping, cn_runner = None\<rparr> call_connected"
    using con_next [OF con_next [OF con_next [OF con_refl call_registers] call_joins] call_receives] .
  ultimately show ?thesis unfolding connected_reachable_def by blast
qed

lemma call_delivery: "delivery call_json demo_registration ref (call_socket []) response = Inr ''frame''"
proof -
  have "value_from_str call_json response = Inr (JString response)" by (simp add: call_json_def demo_json_def)
  then show ?thesis by (simp add: delivery_def call_frames call_socket_def demo_socket_def)
qed

lemma call_simps [simp]:
  "sv_phase (cn_serve call_connected) = Serving call_pending" "cn_runner call_connected = Some (demo_runner, call_runner)"
  "sv_registration (cn_serve call_connected) = Some demo_registration" "cw_result call_pending = None"
  "ch_requests (cw_channel call_pending) = [(Some ''7'', demo_request GitStatus, Unpolled)]"
  "ch_socket (cw_channel call_pending) = call_socket []" "ch_answered (cw_channel call_pending) = []"
  "rs_requests call_runner = []" "env_wire call_env = demo_codec" "env_json call_env = call_json"
  "no_stop (demo_request GitStatus)"
  by (simp_all add: call_connected_def call_serving_def demo_connecting_def call_pending_def new_channel_def
      call_runner_def start_runner_def init_runner_def call_env_def demo_env_def no_stop_def demo_request_def)


lemma call_answered:
  "\<exists>cn cw sys response. connected_reachable call_env ''http://localhost'' ''/w'' ''a'' demo_uuids demo_host cn \<and>
     sv_phase (cn_serve cn) = Serving cw \<and> ch_answered (cw_channel cw) = [(Some ''7'', demo_request GitStatus, response)] \<and>
     cn_runner cn = Some (demo_runner, sys) \<and> set (rs_requests sys) \<subseteq> {demo_request GitStatus}"
proof -
  note inv = connected_reachable_inv [OF call_connected_reachable]
  obtain st where c: "rs_dispatch call_runner = cw_dispatch call_pending" "loop_inv demo_codec call_pending"
    "validate (rn_limits demo_runner) = Inr ()" "runner_reachable demo_codec demo_uuids demo_host demo_runner st call_runner"
    using connected_serving [OF inv, of call_pending] by auto
  have "books call_pending" using inv by (simp add: connected_inv_def runtime_ok_def)
  with joint_unpolled [OF c(4) validated_permits [OF c(3)] c(1,2), of 0 "Some ''7''" "demo_request GitStatus" call_json demo_registration]
  obtain response y where y: "(joint_step demo_codec call_json demo_registration demo_uuids demo_host demo_runner)\<^sup>*\<^sup>* (call_pending, call_runner) y"
    "ch_answered (cw_channel (fst y)) = [(Some ''7'', demo_request GitStatus, response)]"
    "set (rs_requests (snd y)) \<subseteq> {demo_request GitStatus}"
    by (auto simp: call_delivery joint_answers_def delivered_def)
  have "sv_runtime (cn_serve call_connected) = Some (rn_limits demo_runner, initial_world standalone)"
    by (simp add: call_connected_def call_serving_def demo_runner_def)
  with joint_connected [of call_env demo_registration demo_uuids demo_host demo_runner "(call_pending, call_runner)" y call_connected] y(1) c(1)
  have run: "connected_run call_env ''http://localhost'' ''/w'' ''a'' demo_uuids demo_host
      (at_joint call_connected demo_runner (call_pending, call_runner)) (at_joint call_connected demo_runner y)" by simp
  have "at_joint call_connected demo_runner (call_pending, call_runner) = call_connected"
    by (simp add: at_joint_def call_connected_def call_serving_def)
  with run have "connected_reachable call_env ''http://localhost'' ''/w'' ''a'' demo_uuids demo_host (at_joint call_connected demo_runner y)"
    using connected_reachable_run [OF call_connected_reachable] by simp
  then show ?thesis using y(2,3)
    by (intro exI [of _ "at_joint call_connected demo_runner y"] exI [of _ "fst y"] exI [of _ "snd y"]) (auto simp: at_joint_def)
qed

theorem sent_response_is_result_witness:
  "\<exists>cn cw sys response. connected_reachable call_env ''http://localhost'' ''/w'' ''a'' demo_uuids demo_host cn \<and>
     sv_phase (cn_serve cn) = Serving cw \<and> cn_runner cn = Some (demo_runner, sys) \<and>
     (Some ''7'', demo_request GitStatus, response) \<in> set (ch_answered (cw_channel cw)) \<and>
     (refusal demo_codec (demo_request GitStatus) response \<or>
      (\<exists>k. result_of_call demo_codec demo_uuids demo_runner sys (demo_request GitStatus) k response))"
proof -
  obtain cn cw sys response where
    c: "connected_reachable call_env ''http://localhost'' ''/w'' ''a'' demo_uuids demo_host cn"
    "sv_phase (cn_serve cn) = Serving cw" "ch_answered (cw_channel cw) = [(Some ''7'', demo_request GitStatus, response)]"
    "cn_runner cn = Some (demo_runner, sys)" and only: "set (rs_requests sys) \<subseteq> {demo_request GitStatus}"
    using call_answered by blast
  have m: "(Some ''7'', demo_request GitStatus, response) \<in> set (ch_answered (cw_channel cw))" using c(3) by simp
  have "insert (demo_request GitStatus) (set (rs_requests sys)) = {demo_request GitStatus}" using only by auto
  then have "no_collision demo_codec (insert (demo_request GitStatus) (set (rs_requests sys)))"
    unfolding no_collision_def by (simp only:) simp
  with sent_response_is_result [OF c(1,2) m c(4)] have "refusal demo_codec (demo_request GitStatus) response \<or>
      (\<exists>k. result_of_call demo_codec demo_uuids demo_runner sys (demo_request GitStatus) k response)" by simp
  with c(1,2,4) m show ?thesis by (intro exI [of _ cn] exI [of _ cw] exI [of _ sys] exI [of _ response] conjI)
qed

end
