(* ===== verification/Session_Format.thy ===== *)
theory Session_Format
  imports Web_Values
begin

text \<open>
  How the session client of \<^verbatim>\<open>src/crates/kodo/src/session_cli.rs\<close> renders the events of a session:
  \<open>format_event\<close> and the functions below it, which take JSON payloads apart.  \<open>display\<close>, the
  compact printing of a value, is a parameter.
\<close>

section \<open>Events\<close>

record event =
  ev_sequence :: u64
  ev_kind :: string
  ev_payload :: json

abbreviation newline :: string where
  "newline \<equiv> [NL]"

section \<open>Searching a payload\<close>

definition first_some :: "'a option list \<Rightarrow> 'a option" where
  "first_some xs = (case filter (\<lambda>x. x \<noteq> None) xs of [] \<Rightarrow> None | x # _ \<Rightarrow> x)"

lemma first_some_simps [simp]:
  "first_some [] = None" "first_some (None # xs) = first_some xs" "first_some (Some x # xs) = Some x"
  by (simp_all add: first_some_def)

function find_string :: "json \<Rightarrow> string list \<Rightarrow> string option" where
  "find_string (JObject kvs) keys =
     (case first_some (map (\<lambda>key. Option.bind (map_of kvs key) as_str) keys) of
        Some str \<Rightarrow> Some str
      | None \<Rightarrow> first_some (map (\<lambda>kv. find_string (snd kv) keys) kvs))"
| "find_string (JArray values) keys = first_some (map (\<lambda>child. find_string child keys) values)"
| "find_string JNull keys = None"
| "find_string (JBool b) keys = None"
| "find_string (JNumber n) keys = None"
| "find_string (JString s) keys = None"
  by pat_completeness auto

lemma json_field_size: "kv \<in> set kvs \<Longrightarrow> size (snd kv) < size (JObject kvs)"
  by (induction kvs) auto

lemma json_element_size: "v \<in> set values \<Longrightarrow> size v < size (JArray values)"
  by (induction "values") auto

termination find_string
  by (relation "measure (\<lambda>(v, keys). size v)") (auto dest: json_field_size json_element_size)

function collect_content :: "json \<Rightarrow> string list \<Rightarrow> string list" where
  "collect_content (JObject kvs) chunks =
     (case Option.bind (map_of kvs ''content'') as_str of
        Some content \<Rightarrow> chunks @ [content]
      | None \<Rightarrow> fold (\<lambda>kv. collect_content (snd kv)) kvs chunks)"
| "collect_content (JArray values) chunks = fold collect_content values chunks"
| "collect_content JNull chunks = chunks"
| "collect_content (JBool b) chunks = chunks"
| "collect_content (JNumber n) chunks = chunks"
| "collect_content (JString s) chunks = chunks"
  by pat_completeness auto

termination collect_content
  by (relation "measure (\<lambda>(v, chunks). size v)") (auto dest: json_field_size json_element_size)

section \<open>Rendering\<close>

definition truncation_suffix :: "json \<Rightarrow> string" where
  "truncation_suffix output' =
     (if Option.bind (json_get output' ''truncated'') as_bool = Some True
      then newline @ ''[output truncated]'' else [])"

definition format_status :: "(json \<Rightarrow> string) \<Rightarrow> json \<Rightarrow> string" where
  "format_status display v =
     (case v of
        JString s \<Rightarrow> s
      | _ \<Rightarrow>
          if json_get v ''exited'' \<noteq> None then
            ''exited ('' @ (case as_i64 (json_index (json_index v ''exited'') ''code'') of
                None \<Rightarrow> ''signal'' | Some code \<Rightarrow> show_int code) @ '')''
          else display v)"

definition command_summary :: "(json \<Rightarrow> string) \<Rightarrow> json \<Rightarrow> string" where
  "command_summary display output' =
     (let str = concat (collect_content output' []);
          stat = (case json_get output' ''status'' of
                    Some v \<Rightarrow> format_status display v | None \<Rightarrow> ''updated'');
          was_truncated = unwrap_or (Option.bind (json_get output' ''truncated'') as_bool) False;
          suff = (if was_truncated then newline @ ''[output truncated]'' else [])
      in if str = [] then stat @ suff else stat @ newline @ str @ suff)"

definition tool_summary :: "(json \<Rightarrow> string) \<Rightarrow> json \<Rightarrow> string" where
  "tool_summary display output' =
     (case get_str output' ''content'' of None \<Rightarrow> display output' | Some s \<Rightarrow> s) @
     truncation_suffix output'"

definition approval_summary :: "(json \<Rightarrow> string) \<Rightarrow> json \<Rightarrow> string" where
  "approval_summary display payload =
     (let name = unwrap_or (get_str payload ''name'') ''tool'';
          arguments = unwrap_or (json_get payload ''arguments'') JNull
      in if name = ''start_command'' then
           (let command = unwrap_or (get_str arguments ''command'') ''<missing command>'';
                cwd = unwrap_or (get_str arguments ''cwd'') ''workspace root'';
                timeout = (case json_get arguments ''timeout_ms'' of
                             Some v \<Rightarrow> display v | None \<Rightarrow> ''default'')
            in ''start_command'' @ newline @ ''command: '' @ command @ newline @ ''cwd: '' @ cwd @
               newline @ ''timeout_ms: '' @ timeout)
         else if name = ''apply_patch'' then
           ''apply_patch'' @ newline @ unwrap_or (get_str arguments ''patch'') ''<missing patch>''
         else if name = ''stop_command'' then
           ''stop_command'' @ newline @ ''process_id: '' @
             (case json_get arguments ''process_id'' of
                Some v \<Rightarrow> display v | None \<Rightarrow> ''<missing process id>'')
         else name @ newline @ ''arguments: '' @ display arguments)"

definition format_tool_completed :: "(json \<Rightarrow> string) \<Rightarrow> json \<Rightarrow> string" where
  "format_tool_completed display payload =
     (let name = unwrap_or (get_str payload ''name'') ''tool'';
          output' = unwrap_or (json_get payload ''output'') JNull
      in if name = ''git_diff'' then
           ''[git_diff]'' @ newline @
             (case find_string output' [''diff'', ''content'', ''output''] of
                Some s \<Rightarrow> s | None \<Rightarrow> display output') @ truncation_suffix output'
         else if name \<in> {''start_command'', ''poll_command'', ''stop_command''} then
           ''[verification: '' @ name @ ''] '' @ command_summary display output'
         else ''[tool_completed] '' @ name @ newline @ tool_summary display output')"

definition format_provider_action :: "json \<Rightarrow> string" where
  "format_provider_action payload =
     ''[provider action required] '' @ unwrap_or (get_str payload ''provider'') ''provider'' @ '' ('' @
     unwrap_or (get_str payload ''model'') ''unknown model'' @ '', '' @
     unwrap_or (get_str payload ''billing_path'') ''unknown billing'' @ '')'' @ newline @
     unwrap_or (get_str payload ''guidance'') ''Review provider access, then retry.'' @ newline @
     ''Provider help: '' @ unwrap_or (get_str payload ''provider_help_url'') ''not available'' @ newline @
     ''Kodo settings: '' @ unwrap_or (get_str payload ''settings_path'') ''/integrations''"

definition format_event :: "(json \<Rightarrow> string) \<Rightarrow> event \<Rightarrow> string" where
  "format_event display e =
     (let kind = ev_kind e; payload = ev_payload e in
      if kind = ''assistant_message_completed'' then unwrap_or (get_str payload ''content'') []
      else if kind \<in> {''tool_requested'', ''tool_started''} then
        ''['' @ kind @ ''] '' @ unwrap_or (get_str payload ''name'') ''tool''
      else if kind = ''tool_completed'' then format_tool_completed display payload
      else if kind = ''tool_failed'' then
        ''[tool_failed] '' @ unwrap_or (get_str payload ''name'') ''tool'' @ '': '' @
        unwrap_or (get_str payload ''error'') ''unknown error''
      else if kind = ''session_failed'' then
        ''[failed] '' @ unwrap_or (get_str payload ''reason'') ''unknown error''
      else if kind = ''provider_action_required'' then format_provider_action payload
      else if kind = ''approval_requested'' then ''[approval requested] '' @ approval_summary display payload
      else ''['' @ kind @ '']'')"

section \<open>Where a string can be found\<close>

text \<open>The values nested in a value, and the strings a search for \<open>keys\<close> may return.\<close>

inductive nested :: "json \<Rightarrow> json \<Rightarrow> bool" where
  nested_self: "nested v v"
| nested_field: "(key, child) \<in> set kvs \<Longrightarrow> nested v child \<Longrightarrow> nested v (JObject kvs)"
| nested_element: "child \<in> set values \<Longrightarrow> nested v child \<Longrightarrow> nested v (JArray values)"

inductive_cases nested_JObject: "nested v (JObject kvs)"
inductive_cases nested_JArray: "nested v (JArray values)"
inductive_simps nested_leaf:
  "nested v JNull" "nested v (JBool b)" "nested v (JNumber n)" "nested v (JString s)"

definition found_at :: "json \<Rightarrow> string list \<Rightarrow> string \<Rightarrow> bool" where
  "found_at v keys str \<longleftrightarrow> (\<exists>inner key. nested inner v \<and> key \<in> set keys \<and> get_str inner key = Some str)"

lemma found_at_leaf [simp]:
  "\<not> found_at JNull keys str" "\<not> found_at (JBool b) keys str" "\<not> found_at (JNumber n) keys str"
  "\<not> found_at (JString s) keys str"
  by (auto simp: found_at_def nested_leaf get_str_def)

lemma found_at_array: "found_at (JArray values) keys str \<longleftrightarrow> (\<exists>child \<in> set values. found_at child keys str)"
  by (fastforce simp: found_at_def get_str_def elim!: nested_JArray intro: nested_element)

lemma found_at_object:
  "found_at (JObject kvs) keys str \<longleftrightarrow>
     (\<exists>key \<in> set keys. Option.bind (map_of kvs key) as_str = Some str) \<or>
     (\<exists>kv \<in> set kvs. found_at (snd kv) keys str)"
  by (fastforce simp: found_at_def get_str_def elim!: nested_JObject intro: nested_field nested_self)

lemma first_some_None: "first_some xs = None \<longleftrightarrow> (\<forall>x \<in> set xs. x = None)"
  by (induction xs) (auto simp: first_some_def split: list.splits)

lemma first_some_in: "first_some xs = Some x \<Longrightarrow> Some x \<in> set xs"
  by (induction xs) (auto simp: first_some_def split: list.splits if_splits)

lemma find_string_sound: "find_string v keys = Some str \<Longrightarrow> found_at v keys str"
proof (induction v keys rule: find_string.induct)
  case (1 kvs keys)
  show ?case
  proof (cases "first_some (map (\<lambda>key. Option.bind (map_of kvs key) as_str) keys)")
    case None
    with 1(2) have "first_some (map (\<lambda>kv. find_string (snd kv) keys) kvs) = Some str" by simp
    then obtain kv where "kv \<in> set kvs" "find_string (snd kv) keys = Some str" by (auto dest!: first_some_in)
    with 1(1) [OF None] show ?thesis unfolding found_at_object by blast
  next
    case (Some x)
    with 1(2) have "first_some (map (\<lambda>key. Option.bind (map_of kvs key) as_str) keys) = Some str" by simp
    then have "\<exists>key \<in> set keys. Option.bind (map_of kvs key) as_str = Some str"
      by (metis (mono_tags) first_some_in imageE set_map)
    then show ?thesis unfolding found_at_object by blast
  qed
next
  case (2 "values" keys)
  from 2(2) obtain v where "v \<in> set values" "find_string v keys = Some str" by (auto dest!: first_some_in)
  with 2(1) show ?case by (auto simp: found_at_array)
qed simp_all

lemma find_string_complete: "find_string v keys = None \<Longrightarrow> \<not> found_at v keys str"
proof (induction v keys rule: find_string.induct)
  case (1 kvs keys)
  have none: "first_some (map (\<lambda>key. Option.bind (map_of kvs key) as_str) keys) = None"
    "first_some (map (\<lambda>kv. find_string (snd kv) keys) kvs) = None"
    using 1(2) by (auto split: option.splits)
  show ?case
    unfolding found_at_object using none 1(1) [OF none(1)] by (auto simp: first_some_None)
next
  case (2 "values" keys)
  then show ?case by (auto simp: found_at_array first_some_None)
qed simp_all

section \<open>Properties\<close>

text \<open>The search for a diff in a tool result is exact: \<open>find_string\<close> returns a string only if it
  stands under one of the keys in some object nested in the value, and it finds nothing only
  if there is no such string anywhere.\<close>

theorem find_string_characterized:
  "(case find_string v keys of
      Some str \<Rightarrow> found_at v keys str
    | None \<Rightarrow> (\<nexists>str. found_at v keys str))"
  using find_string_sound find_string_complete by (auto split: option.splits)

lemma contains_self: "str_contains p (xs @ p @ ys)"
  by (auto simp: str_contains_sublist)

lemma contains_append: "str_contains p ys \<Longrightarrow> str_contains p (xs @ ys)"
  by (metis append.assoc str_contains_sublist)

lemma contains_prefix: "str_contains p xs \<Longrightarrow> str_contains p (xs @ ys)"
  by (metis append.assoc str_contains_sublist)

lemma contains_Cons: "str_contains p ys \<Longrightarrow> str_contains p (y # ys)"
  using contains_append [of p ys "[y]"] by simp

lemma contains_whole [simp]: "str_contains p p"
  using contains_self [of p "[]" "[]"] by simp

text \<open>C38.  The user sees exactly what is to be approved: the line printed for an approval request
  contains the name of the tool and, in full and under their labels, the command, the directory and the
  timeout of a \<open>start_command\<close> and the process of a \<open>stop_command\<close>; for an \<open>apply_patch\<close> it contains the whole
  patch unchanged, and for any other tool all its arguments as JSON.\<close>

theorem approval_shows_mutation:
  assumes "ev_kind e = ''approval_requested''" "get_str (ev_payload e) ''name'' = Some name"
    and "json_get (ev_payload e) ''arguments'' = Some arguments"
  shows "str_contains name (format_event display e) \<and>
    (name = ''start_command'' \<longrightarrow>
       (\<forall>str. get_str arguments ''command'' = Some str \<longrightarrow>
          str_contains (''command: '' @ str) (format_event display e)) \<and>
       (\<forall>str. get_str arguments ''cwd'' = Some str \<longrightarrow>
          str_contains (''cwd: '' @ str) (format_event display e)) \<and>
       (\<forall>v. json_get arguments ''timeout_ms'' = Some v \<longrightarrow>
          str_contains (''timeout_ms: '' @ display v) (format_event display e))) \<and>
    (name = ''stop_command'' \<longrightarrow>
       (\<forall>v. json_get arguments ''process_id'' = Some v \<longrightarrow>
          str_contains (''process_id: '' @ display v) (format_event display e))) \<and>
    (name = ''apply_patch'' \<longrightarrow>
       (\<forall>patch. get_str arguments ''patch'' = Some patch \<longrightarrow> str_contains patch (format_event display e))) \<and>
    (name \<notin> {''start_command'', ''apply_patch'', ''stop_command''} \<longrightarrow>
       str_contains (display arguments) (format_event display e))"
proof -
  let ?summary = "approval_summary display (ev_payload e)"
  have f: "format_event display e = ''[approval requested] '' @ ?summary"
    using assms(1) by (simp add: format_event_def)
  have n: "unwrap_or (get_str (ev_payload e) ''name'') ''tool'' = name"
    "unwrap_or (json_get (ev_payload e) ''arguments'') JNull = arguments"
    using assms(2,3) by (simp_all add: unwrap_or_def)
  note summary = approval_summary_def [of display "ev_payload e", unfolded n Let_def]
  have name: "str_contains name ?summary"
    unfolding summary using contains_prefix contains_whole by (auto simp del: append.simps)
  have start: "?summary = ''start_command'' @ newline @ (''command: '' @
      unwrap_or (get_str arguments ''command'') ''<missing command>'') @ newline @ (''cwd: '' @
      unwrap_or (get_str arguments ''cwd'') ''workspace root'') @ newline @ (''timeout_ms: '' @
      (case json_get arguments ''timeout_ms'' of Some v \<Rightarrow> display v | None \<Rightarrow> ''default''))"
    if "name = ''start_command''"
    unfolding summary using that by simp
  have command: "str_contains (''command: '' @ str) ?summary"
    if "name = ''start_command''" "get_str arguments ''command'' = Some str" for str
    unfolding start [OF that(1)] that(2) unwrap_or_def option.case
    by (rule contains_append, rule contains_append, rule contains_prefix, rule contains_whole)
  have cwd: "str_contains (''cwd: '' @ str) ?summary"
    if "name = ''start_command''" "get_str arguments ''cwd'' = Some str" for str
    unfolding start [OF that(1)] that(2) unwrap_or_def option.case
    by (rule contains_append, rule contains_append, rule contains_append, rule contains_append,
        rule contains_prefix, rule contains_whole)
  have timeout: "str_contains (''timeout_ms: '' @ display v) ?summary"
    if "name = ''start_command''" "json_get arguments ''timeout_ms'' = Some v" for v
    unfolding start [OF that(1)] that(2) option.case by (intro contains_append contains_whole)
  have stop: "str_contains (''process_id: '' @ display v) ?summary"
    if "name = ''stop_command''" "json_get arguments ''process_id'' = Some v" for v
  proof -
    have "?summary = (''stop_command'' @ newline) @ ''process_id: '' @ display v" unfolding summary using that by simp
    then show ?thesis by (simp only:) (intro contains_append contains_whole)
  qed
  have patch: "str_contains patch ?summary" if "name = ''apply_patch''" "get_str arguments ''patch'' = Some patch" for patch
    unfolding summary using that by (auto simp: unwrap_or_def intro!: contains_Cons)
  have other: "str_contains (display arguments) ?summary"
    if "name \<notin> {''start_command'', ''apply_patch'', ''stop_command''}"
    unfolding summary using that by (auto intro!: contains_Cons contains_append)
  show ?thesis unfolding f
    by (intro conjI impI allI contains_append) (fact name, fact command, fact cwd, fact timeout, fact stop, fact patch, fact other)
qed

theorem approval_shows_mutation_witness:
  "str_contains ''timeout_ms: 5'' (format_event (\<lambda>_. ''5'') \<lparr>ev_sequence = 1, ev_kind = ''approval_requested'',
     ev_payload = JObject [(''name'', JString ''start_command''),
       (''arguments'', JObject [(''command'', JString ''rm x''), (''timeout_ms'', JNumber (Integer 5))])]\<rparr>)"
proof -
  let ?args = "JObject [(''command'', JString ''rm x''), (''timeout_ms'', JNumber (Integer 5))]"
  let ?e = "\<lparr>ev_sequence = 1, ev_kind = ''approval_requested'',
     ev_payload = JObject [(''name'', JString ''start_command''), (''arguments'', ?args)]\<rparr>"
  have "get_str (ev_payload ?e) ''name'' = Some ''start_command''" by (simp add: get_str_def)
  then show ?thesis
    using approval_shows_mutation [of ?e "''start_command''" ?args "\<lambda>_. ''5''"] by simp
qed

text \<open>Truncation is never silent: when the output of a completed tool says that it was
  truncated, the printed event ends with the remark, whichever tool it was.\<close>

theorem truncation_always_shown:
  assumes "ev_kind e = ''tool_completed''" "json_get (ev_payload e) ''output'' = Some output'"
    and "json_get output' ''truncated'' = Some (JBool True)"
  shows "suffix (newline @ ''[output truncated]'') (format_event display e)"
proof -
  have t: "truncation_suffix output' = newline @ ''[output truncated]''"
    using assms(3) by (simp add: truncation_suffix_def)
  have c: "suffix (newline @ ''[output truncated]'') (command_summary display output')"
    using assms(3) by (auto simp: command_summary_def Let_def unwrap_or_def suffix_def)
  have s: "suffix (newline @ ''[output truncated]'') (tool_summary display output')"
    unfolding tool_summary_def t by (rule suffixI, rule HOL.refl)
  have f: "format_event display e = format_tool_completed display (ev_payload e)"
    using assms(1) by (simp add: format_event_def)
  have o: "unwrap_or (json_get (ev_payload e) ''output'') JNull = output'"
    using assms(2) by (simp add: unwrap_or_def)
  show ?thesis
    unfolding f format_tool_completed_def Let_def o t
    by (simp only: split: if_split) (intro conjI impI suffix_appendI c s suffix_order.refl)
qed

theorem truncation_always_shown_witness:
  "suffix (newline @ ''[output truncated]'')
     (format_event (\<lambda>_. []) \<lparr>ev_sequence = 1, ev_kind = ''tool_completed'',
        ev_payload = JObject [(''name'', JString ''read_file''),
          (''output'', JObject [(''content'', JString ''abc''), (''truncated'', JBool True)])]\<rparr>)"
proof (rule truncation_always_shown [where output' = "JObject [(''content'', JString ''abc''), (''truncated'', JBool True)]"])
  show "json_get (JObject [(''content'', JString ''abc''), (''truncated'', JBool True)]) ''truncated'' = Some (JBool True)"
    by simp
qed simp_all

end
