(* ===== verification/Session_Cli.thy ===== *)
theory Session_Cli
  imports Session_Format Control_Plane Workspace "HOL-Library.Sublist"
begin

text \<open>
  The session client, \<^verbatim>\<open>src/crates/kodo/src/session_cli.rs\<close>: requests to the API of the control
  plane, their retry while the runner lives, the loop that follows a session, approvals, and the
  two entry points \<open>start\<close> and \<open>resume\<close>.  The control plane is a state \<open>'s\<close> with a function that
  answers one request; what the scheduler, the terminal and the runner task do is given as
  scripts that the loops consume, so that every choice of a \<open>select!\<close> is one entry.
\<close>

section \<open>Data\<close>

definition MAX_RESPONSE_BYTES :: usize where "MAX_RESPONSE_BYTES = 4 * 1024 * 1024"

datatype session_cli_error =
    CliInvalidUrl string
  | MissingToken
  | Api string
  | ApiUnavailable string
  | RunnerStopped string
  | Input io_error

fun session_cli_error_to_string :: "session_cli_error \<Rightarrow> string" where
  "session_cli_error_to_string (CliInvalidUrl e) = ''invalid control-plane URL: '' @ e"
| "session_cli_error_to_string MissingToken = ''KODO_TOKEN is required (or pass --token)''"
| "session_cli_error_to_string (Api e) = ''API request failed: '' @ e"
| "session_cli_error_to_string (ApiUnavailable e) = ''API temporarily unavailable: '' @ e"
| "session_cli_error_to_string (RunnerStopped e) = ''workspace runner stopped before becoming ready: '' @ e"
| "session_cli_error_to_string (Input e) = ''terminal input failed: '' @ io_message e"

record options =
  opt_control_plane :: string
  opt_token :: string
  opt_workspace :: string

record start_options =
  start_common :: options
  start_task :: string
  start_title :: "string option"
  start_model :: "string option"
  start_approval_policy :: string

record resume_options =
  resume_common :: options
  resume_session_id :: string
  resume_message :: "string option"

record session =
  ses_id :: string
  ses_runner_id :: string
  ses_status :: string
  ses_pending_approval_id :: "string option"

record session_response =
  rsp_session :: session
  rsp_events :: "event list"
  rsp_has_more :: bool

text \<open>The libraries: URLs, identifiers, decoders, renderings, and the API itself.\<close>

record ('s, 'u) client =
  cl_urls :: "'u url_ops"
  cl_ids :: uuid_ops
  cl_from_slice :: "bytes \<Rightarrow> string + json"
  cl_session_from_value :: "json \<Rightarrow> string + session"
  cl_response_from_value :: "json \<Rightarrow> string + session_response"
  cl_display :: "json \<Rightarrow> string"
  cl_status_text :: "u16 \<Rightarrow> string"
  cl_api :: "'s \<Rightarrow> 'u http_request \<Rightarrow> 's \<times> (string + http_response)"

section \<open>Errors and URLs\<close>

definition redact :: "string \<Rightarrow> string \<Rightarrow> string" where
  "redact message tok = (if tok = [] then message else str_replace tok REDACTED message)"

definition api_error :: "string \<Rightarrow> string \<Rightarrow> session_cli_error" where
  "api_error message tok = Api (redact message tok)"

definition api_unavailable :: "string \<Rightarrow> string \<Rightarrow> session_cli_error" where
  "api_unavailable message tok = ApiUnavailable (redact message tok)"

definition cli_validate_base_url :: "'u url_ops \<Rightarrow> string \<Rightarrow> session_cli_error + 'u" where
  "cli_validate_base_url uo input =
     (case url_parse uo input of
        Inl e \<Rightarrow> Inl (CliInvalidUrl e)
      | Inr url \<Rightarrow>
          if url_scheme uo url \<notin> {''http'', ''https''} \<or> url_cannot_be_a_base uo url \<or>
             url_host uo url = None \<or> url_query uo url \<noteq> None \<or> url_fragment uo url \<noteq> None \<or>
             url_username uo url \<noteq> [] \<or> url_password uo url \<noteq> None then
            Inl (CliInvalidUrl ''expected an http(s) base URL without credentials, query, or fragment'')
          else if \<not> ends_with_char (url_path uo url) (CHR ''/'') then
            Inr (url_set_path uo url (url_path uo url @ ''/''))
          else Inr url)"

definition endpoint :: "'u url_ops \<Rightarrow> 'u \<Rightarrow> string \<Rightarrow> session_cli_error + 'u" where
  "endpoint uo base path =
     (case url_join uo base path of Inl e \<Rightarrow> Inl (CliInvalidUrl e) | Inr url \<Rightarrow> Inr url)"

definition parse_id :: "uuid_ops \<Rightarrow> string \<Rightarrow> string \<Rightarrow> session_cli_error + string" where
  "parse_id ids value kind =
     (case uuid_parse_str ids value of
        Some id' \<Rightarrow> Inr (uuid_to_string ids id')
      | None \<Rightarrow> Inl (Api (''invalid '' @ kind @ '' identifier'')))"

definition browser_url :: "'u url_ops \<Rightarrow> 'u \<Rightarrow> string \<Rightarrow> session_cli_error + 'u" where
  "browser_url uo base id' = endpoint uo base (''sessions/'' @ id')"

section \<open>Requests\<close>

datatype body_error = BodyTransport string | TooLarge

fun bounded_body :: "bytes \<Rightarrow> (string + bytes) list \<Rightarrow> body_error + bytes" where
  "bounded_body body [] = Inr body"
| "bounded_body body (Inl e # _) = Inl (BodyTransport e)"
| "bounded_body body (Inr chunk # rest) =
     (if saturating_add (length body) (length chunk) > MAX_RESPONSE_BYTES then Inl TooLarge
      else bounded_body (body @ chunk) rest)"

definition request_json ::
  "('s, 'u) client \<Rightarrow> 's \<Rightarrow> 'u http_request \<Rightarrow> string \<Rightarrow> 's \<times> (session_cli_error + json)" where
  "request_json cl s request tok =
     (case cl_api cl s request of
        (s, Inl e) \<Rightarrow> (s, Inl (api_unavailable e tok))
      | (s, Inr response) \<Rightarrow>
          (s, case bounded_body [] (http_chunks response) of
                Inl (BodyTransport e) \<Rightarrow> Inl (api_unavailable e tok)
              | Inl TooLarge \<Rightarrow> Inl (api_error ''response exceeds 4 MiB'' tok)
              | Inr bytes' \<Rightarrow>
                  if \<not> is_success (http_status response) then
                    Inl (api_error (''HTTP '' @ cl_status_text cl (http_status response) @ '': '' @
                      from_utf8_lossy bytes') tok)
                  else case cl_from_slice cl bytes' of
                    Inl e \<Rightarrow> Inl (api_error (''invalid JSON response: '' @ e) tok)
                  | Inr value \<Rightarrow> Inr value))"

text \<open>The requests of the client, each an endpoint, the bearer token and a body.\<close>

definition api_request ::
  "('s, 'u) client \<Rightarrow> http_method \<Rightarrow> 'u \<Rightarrow> string \<Rightarrow> string \<Rightarrow> json option \<Rightarrow>
   session_cli_error + 'u http_request" where
  "api_request cl verb base path tok body =
     (case endpoint (cl_urls cl) base path of
        Inl e \<Rightarrow> Inl e
      | Inr url \<Rightarrow> Inr \<lparr>http_method = verb, http_url = url, http_bearer = tok, http_json = body\<rparr>)"

definition call_api ::
  "('s, 'u) client \<Rightarrow> session_cli_error + 'u http_request \<Rightarrow> string \<Rightarrow> 's \<Rightarrow>
   's \<times> (session_cli_error + json)" where
  "call_api cl request tok s =
     (case request of Inl e \<Rightarrow> (s, Inl e) | Inr request \<Rightarrow> request_json cl s request tok)"

definition submit_message ::
  "('s, 'u) client \<Rightarrow> 'u \<Rightarrow> string \<Rightarrow> string \<Rightarrow> string \<Rightarrow> string \<Rightarrow> 's \<Rightarrow>
   's \<times> (session_cli_error + unit)" where
  "submit_message cl base tok id' content' client_request_id s =
     (case call_api cl
            (api_request cl Post base (''api/sessions/'' @ id' @ ''/messages'') tok
              (Some (JObject [(''client_request_id'', JString client_request_id),
                (''content'', JString content')]))) tok s of
        (s, Inl e) \<Rightarrow> (s, Inl e)
      | (s, Inr _) \<Rightarrow> (s, Inr ()))"

definition cancel_session ::
  "('s, 'u) client \<Rightarrow> 'u \<Rightarrow> string \<Rightarrow> string \<Rightarrow> 's \<Rightarrow> 's \<times> (session_cli_error + unit)" where
  "cancel_session cl base tok id' s =
     (case call_api cl (api_request cl Post base (''api/sessions/'' @ id' @ ''/cancel'') tok None) tok s of
        (s, Inl e) \<Rightarrow> (s, Inl e)
      | (s, Inr _) \<Rightarrow> (s, Inr ()))"

definition fetch_session ::
  "('s, 'u) client \<Rightarrow> 'u \<Rightarrow> string \<Rightarrow> string \<Rightarrow> u64 \<Rightarrow> 's \<Rightarrow>
   's \<times> (session_cli_error + session_response)" where
  "fetch_session cl base tok id' cursor s =
     (case call_api cl
            (api_request cl Get base
              (''api/sessions/'' @ id' @ ''?after_sequence='' @ show_nat (unat cursor)) tok None) tok s of
        (s, Inl e) \<Rightarrow> (s, Inl e)
      | (s, Inr value) \<Rightarrow>
          (s, case cl_response_from_value cl value of
                Inl e \<Rightarrow> Inl (Api (''invalid session response: '' @ e))
              | Inr response \<Rightarrow> Inr response))"

section \<open>Retrying\<close>

text \<open>
  How the runner task can end: normally, with an error, or by a failed join of the task.
\<close>

datatype runner_exit = ExitOk | ExitError control_plane_error | JoinFailed string

fun cli_runner_error :: "runner_exit \<Rightarrow> session_cli_error" where
  "cli_runner_error ExitOk = RunnerStopped ''runner exited unexpectedly''"
| "cli_runner_error (ExitError e) = RunnerStopped (control_plane_error_to_string e)"
| "cli_runner_error (JoinFailed e) = RunnerStopped e"

text \<open>
  An entry of the script says which branch of a \<open>select!\<close> comes first: the runner task ends, in
  which case the operation may or may not have reached the server, or the other branch, the
  operation or the sleep, completes.  When the script runs out the loop has not returned.
\<close>

datatype retry_event = RunnerEnds runner_exit bool | Proceed

fun retry_api ::
  "('s \<Rightarrow> 's \<times> (session_cli_error + 'a)) \<Rightarrow> retry_event list \<Rightarrow> 's \<Rightarrow>
   's \<times> (session_cli_error + 'a) option" where
  "retry_api operation [] s = (s, None)"
| "retry_api operation (RunnerEnds r reached # _) s =
     (if reached then fst (operation s) else s, Some (Inl (cli_runner_error r)))"
| "retry_api operation (Proceed # es) s =
     (case operation s of
        (s, Inr v) \<Rightarrow> (s, Some (Inr v))
      | (s, Inl (ApiUnavailable _)) \<Rightarrow>
          (case es of
             [] \<Rightarrow> (s, None)
           | RunnerEnds r _ # _ \<Rightarrow> (s, Some (Inl (cli_runner_error r)))
           | Proceed # es \<Rightarrow> retry_api operation es s)
      | (s, Inl e) \<Rightarrow> (s, Some (Inl e)))"

section \<open>Approvals\<close>

text \<open>What the terminal does at a prompt: flushing fails, a line or an error is read, or the
  user interrupts.\<close>

datatype prompt = FlushFails io_error | ReadFails io_error | Line string | Interrupt

definition decision :: "string \<Rightarrow> string" where
  "decision answer =
     (if to_ascii_lowercase (trim answer) \<in> {''y'', ''yes''} then ''approved'' else ''denied'')"

definition decision_body :: "string \<Rightarrow> json" where
  "decision_body answer = JObject [(''decision'', JString (decision answer))]"

definition resolve_approval ::
  "('s, 'u) client \<Rightarrow> 'u \<Rightarrow> string \<Rightarrow> string \<Rightarrow> event \<Rightarrow> prompt \<Rightarrow> 's \<Rightarrow>
   's \<times> (session_cli_error + bool)" where
  "resolve_approval cl base tok session_id e input s =
     (case get_str (ev_payload e) ''approval_id'' of
        None \<Rightarrow> (s, Inl (Api ''approval_requested omitted approval_id''))
      | Some approval_id \<Rightarrow>
          (case parse_id (cl_ids cl) approval_id ''approval'' of
             Inl err \<Rightarrow> (s, Inl err)
           | Inr approval_id \<Rightarrow>
               (case input of
                  FlushFails err \<Rightarrow> (s, Inl (Input err))
                | ReadFails err \<Rightarrow> (s, Inl (Input err))
                | Interrupt \<Rightarrow> (s, Inr False)
                | Line answer \<Rightarrow>
                    (case call_api cl
                           (api_request cl Post base
                             (''api/sessions/'' @ session_id @ ''/approvals/'' @ approval_id) tok
                             (Some (decision_body answer))) tok s of
                       (s, Inl err) \<Rightarrow> (s, Inl err)
                     | (s, Inr _) \<Rightarrow> (s, Inr True)))))"

section \<open>Following a session\<close>

definition resolved_approvals :: "event list \<Rightarrow> string set" where
  "resolved_approvals events =
     set (List.map_filter (\<lambda>e. if ev_kind e = ''approval_resolved'' then get_str (ev_payload e) ''approval_id''
       else None) events)"

definition pending_approval :: "session_response \<Rightarrow> event \<Rightarrow> bool" where
  "pending_approval replay e =
     (case get_str (ev_payload e) ''approval_id'' of
        None \<Rightarrow> False
      | Some id' \<Rightarrow>
          ses_pending_approval_id (rsp_session replay) = Some id' \<and>
          id' \<notin> resolved_approvals (rsp_events replay))"

text \<open>
  The state of \<open>drive\<close>: the server, the cursor, the lines printed so far (the prompt of an approval,
  which has no line end, is not among them), and whether the task of the runner was aborted.
\<close>

record 's drive_state =
  dr_server :: 's
  dr_cursor :: u64
  dr_printed :: "string list"
  dr_aborted :: bool

text \<open>
  How a page of events ends: all were handled, the approval has to be retried, or the loop
  returns; \<open>PageWaits\<close> when a retry inside it has not returned.
\<close>

datatype page_end = PageDone | PageRetry | PageReturns "session_cli_error + unit" | PageWaits

definition print_line :: "string \<Rightarrow> 's drive_state \<Rightarrow> 's drive_state" where
  "print_line line st = st\<lparr>dr_printed := dr_printed st @ [line]\<rparr>"

definition abort_runner :: "'s drive_state \<Rightarrow> 's drive_state" where
  "abort_runner st = st\<lparr>dr_aborted := True\<rparr>"

definition cancel_and_return ::
  "('s, 'u) client \<Rightarrow> 'u \<Rightarrow> string \<Rightarrow> string \<Rightarrow> retry_event list \<Rightarrow> 's drive_state \<Rightarrow>
   's drive_state \<times> page_end" where
  "cancel_and_return cl base tok session_id script st =
     (case retry_api (cancel_session cl base tok session_id) script (dr_server st) of
        (s, None) \<Rightarrow> (st\<lparr>dr_server := s\<rparr>, PageWaits)
      | (s, Some (Inl e)) \<Rightarrow> (st\<lparr>dr_server := s\<rparr>, PageReturns (Inl e))
      | (s, Some (Inr _)) \<Rightarrow>
          (abort_runner (print_line (''Cancelled session '' @ session_id) (st\<lparr>dr_server := s\<rparr>)),
           PageReturns (Inr ())))"

text \<open>The loop over the events of a page; \<open>prompts\<close> are the terminal's reactions, one for each event.\<close>

fun handle_events ::
  "('s, 'u) client \<Rightarrow> 'u \<Rightarrow> string \<Rightarrow> string \<Rightarrow> session_response \<Rightarrow> retry_event list \<Rightarrow>
   (event \<times> prompt) list \<Rightarrow> 's drive_state \<Rightarrow> 's drive_state \<times> page_end" where
  "handle_events cl base tok session_id replay script [] st = (st, PageDone)"
| "handle_events cl base tok session_id replay script ((e, input) # rest) st =
     (let st = print_line (format_event (cl_display cl) e) st;
          advance = (\<lambda>st. handle_events cl base tok session_id replay script rest
             (st\<lparr>dr_cursor := max (dr_cursor st) (ev_sequence e)\<rparr>))
      in if ev_kind e = ''approval_requested'' \<and> pending_approval replay e then
           (case resolve_approval cl base tok session_id e input (dr_server st) of
              (s, Inr True) \<Rightarrow> advance (st\<lparr>dr_server := s\<rparr>)
            | (s, Inr False) \<Rightarrow> cancel_and_return cl base tok session_id script (st\<lparr>dr_server := s\<rparr>)
            | (s, Inl (ApiUnavailable _)) \<Rightarrow> (st\<lparr>dr_server := s\<rparr>, PageRetry)
            | (s, Inl err) \<Rightarrow> (st\<lparr>dr_server := s\<rparr>, PageReturns (Inl err)))
         else advance st)"

definition finished_status :: "string \<Rightarrow> bool" where
  "finished_status s \<longleftrightarrow> s \<in> {''idle'', ''completed'', ''failed'', ''cancelled''}"

text \<open>
  One turn of the loop of \<open>drive\<close>: the first \<open>select!\<close>, the second one, in which an interrupt may come
  after the request has reached the server, the terminal, and the script of a cancellation.
\<close>

datatype drive_select = CtrlC | RunnerDone runner_exit | Tick

record turn =
  turn_select :: drive_select
  turn_fetch_interrupted :: "bool option"
  turn_prompts :: "nat \<Rightarrow> prompt"
  turn_script :: "retry_event list"

definition drive_turn ::
  "('s, 'u) client \<Rightarrow> 'u \<Rightarrow> string \<Rightarrow> string \<Rightarrow> turn \<Rightarrow> 's drive_state \<Rightarrow> 's drive_state \<times> page_end" where
  "drive_turn cl base tok session_id t st =
     (case turn_select t of
        CtrlC \<Rightarrow> cancel_and_return cl base tok session_id (turn_script t) st
      | RunnerDone r \<Rightarrow> (st, PageReturns (Inl (cli_runner_error r)))
      | Tick \<Rightarrow>
          (let (s, fetched) = fetch_session cl base tok session_id (dr_cursor st) (dr_server st) in
           case turn_fetch_interrupted t of
             Some reached \<Rightarrow>
               cancel_and_return cl base tok session_id (turn_script t)
                 (if reached then st\<lparr>dr_server := s\<rparr> else st)
           | None \<Rightarrow>
               (let st = st\<lparr>dr_server := s\<rparr> in
                case fetched of
                  Inl (ApiUnavailable _) \<Rightarrow> (st, PageRetry)
                | Inl err \<Rightarrow> (st, PageReturns (Inl err))
                | Inr replay \<Rightarrow>
                    (case handle_events cl base tok session_id replay (turn_script t)
                            (zip (rsp_events replay) (map (turn_prompts t) [0..<length (rsp_events replay)])) st of
                       (st, PageDone) \<Rightarrow>
                         if \<not> rsp_has_more replay \<and> finished_status (ses_status (rsp_session replay))
                         then (abort_runner st, PageReturns (Inr ())) else (st, PageDone)
                     | (st, end') \<Rightarrow> (st, end')))))"

fun drive ::
  "('s, 'u) client \<Rightarrow> 'u \<Rightarrow> string \<Rightarrow> string \<Rightarrow> turn list \<Rightarrow> 's drive_state \<Rightarrow>
   's drive_state \<times> (session_cli_error + unit) option" where
  "drive cl base tok session_id [] st = (st, None)"
| "drive cl base tok session_id (t # ts) st =
     (case drive_turn cl base tok session_id t st of
        (st, PageReturns r) \<Rightarrow> (st, Some r)
      | (st, PageWaits) \<Rightarrow> (st, None)
      | (st, _) \<Rightarrow> drive cl base tok session_id ts st)"

definition drive_start :: "'s \<Rightarrow> 's drive_state" where
  "drive_start s = \<lparr>dr_server = s, dr_cursor = 0, dr_printed = [], dr_aborted = False\<rparr>"

section \<open>Entry points\<close>

text \<open>How waiting for the runner ends: it is ready, its sender is gone, or thirty seconds pass.\<close>

datatype bootstrap = BootReady string | BootClosed | BootTimeout

text \<open>
  The surroundings of a run: \<open>host_discovered\<close> is the result of \<open>Workspace::discover\<close>, \<open>host_boot\<close> how
  the wait for the spawned runner ends, \<open>host_built\<close> the result of building the HTTP client.
\<close>

record 'd hosting =
  host_discovered :: "workspace_error + 'd workspace"
  host_boot :: bootstrap
  host_built :: "string + unit"

text \<open>The result, and whether the spawned runner was aborted.\<close>

definition host_runner ::
  "'u url_ops \<Rightarrow> options \<Rightarrow> 'd hosting \<Rightarrow> bool \<times> (session_cli_error + 'u \<times> string)" where
  "host_runner uo opts h =
     (if trim (opt_token opts) = [] then (False, Inl MissingToken)
      else case cli_validate_base_url uo (opt_control_plane opts) of
        Inl e \<Rightarrow> (False, Inl e)
      | Inr base \<Rightarrow>
          (case host_discovered h of
             Inl e \<Rightarrow> (False, Inl (RunnerStopped (workspace_error_to_string e)))
           | Inr _ \<Rightarrow>
               (case host_boot h of
                  BootClosed \<Rightarrow>
                    (False, Inl (RunnerStopped ''registration or channel authentication failed''))
                | BootTimeout \<Rightarrow> (True, Inl (RunnerStopped ''runner did not connect within 30 seconds''))
                | BootReady rid \<Rightarrow>
                    (False, case host_built h of Inl e \<Rightarrow> Inl (Api e) | Inr _ \<Rightarrow> Inr (base, rid)))))"

definition create_payload :: "start_options \<Rightarrow> string \<Rightarrow> string \<Rightarrow> json" where
  "create_payload opts rid create_request_id =
     JObject ([(''approval_policy'', JString (start_approval_policy opts)),
        (''client_request_id'', JString create_request_id)] @
       (case start_model opts of None \<Rightarrow> [] | Some m \<Rightarrow> [(''model'', JString m)]) @
       [(''runner_id'', JString rid),
        (''title'', JString (unwrap_or (start_title opts) (start_task opts)))])"

text \<open>The end of an entry point: it has returned, is still waiting, or has panicked where the
  source expects an endpoint of a validated base URL.\<close>

datatype cli_outcome = CliReturns "session_cli_error + unit" | CliWaits | CliPanics

definition announce_and_drive ::
  "('s, 'u) client \<Rightarrow> 'u \<Rightarrow> string \<Rightarrow> string \<Rightarrow> turn list \<Rightarrow> 's \<Rightarrow> 's drive_state \<times> cli_outcome" where
  "announce_and_drive cl base tok session_id turns s =
     (case browser_url (cl_urls cl) base session_id of
        Inl e \<Rightarrow> (drive_start s, CliReturns (Inl e))
      | Inr url \<Rightarrow>
          (case drive cl base tok session_id turns
                  (print_line (''Session: '' @ url_as_str (cl_urls cl) url) (drive_start s)) of
             (st, None) \<Rightarrow> (st, CliWaits)
           | (st, Some r) \<Rightarrow> (st, CliReturns r)))"

text \<open>The two request identifiers are fresh UUIDs.\<close>

definition cli_start ::
  "('s, 'u) client \<Rightarrow> start_options \<Rightarrow> 'd hosting \<Rightarrow> string \<Rightarrow> string \<Rightarrow>
   retry_event list \<Rightarrow> retry_event list \<Rightarrow> turn list \<Rightarrow> 's \<Rightarrow> 's drive_state \<times> cli_outcome" where
  "cli_start cl opts h create_request_id message_request_id create_script message_script turns s =
     (case host_runner (cl_urls cl) (start_common opts) h of
        (aborted, Inl e) \<Rightarrow> ((drive_start s)\<lparr>dr_aborted := aborted\<rparr>, CliReturns (Inl e))
      | (_, Inr (base, rid)) \<Rightarrow>
          (let tok = opt_token (start_common opts) in
           case api_request cl Post base ''api/sessions'' tok
                  (Some (create_payload opts rid create_request_id)) of
             Inl _ \<Rightarrow> (drive_start s, CliPanics)
           | Inr request \<Rightarrow>
               (case retry_api (\<lambda>s. request_json cl s request tok) create_script s of
                  (s, None) \<Rightarrow> (drive_start s, CliWaits)
                | (s, Some (Inl e)) \<Rightarrow> (drive_start s, CliReturns (Inl e))
                | (s, Some (Inr response)) \<Rightarrow>
                    (case cl_session_from_value cl (json_index response ''session'') of
                       Inl e \<Rightarrow> (drive_start s, CliReturns (Inl (Api (''invalid create response: '' @ e))))
                     | Inr ses \<Rightarrow>
                         (case retry_api (submit_message cl base tok (ses_id ses) (start_task opts)
                                 message_request_id) message_script s of
                            (s, None) \<Rightarrow> (drive_start s, CliWaits)
                          | (s, Some (Inl e)) \<Rightarrow> (drive_start s, CliReturns (Inl e))
                          | (s, Some (Inr _)) \<Rightarrow> announce_and_drive cl base tok (ses_id ses) turns s)))))"

definition cli_resume ::
  "('s, 'u) client \<Rightarrow> resume_options \<Rightarrow> 'd hosting \<Rightarrow> string \<Rightarrow>
   retry_event list \<Rightarrow> retry_event list \<Rightarrow> turn list \<Rightarrow> 's \<Rightarrow> 's drive_state \<times> cli_outcome" where
  "cli_resume cl opts h message_request_id fetch_script message_script turns s =
     (case parse_id (cl_ids cl) (resume_session_id opts) ''session'' of
        Inl e \<Rightarrow> (drive_start s, CliReturns (Inl e))
      | Inr session_id \<Rightarrow>
          (case host_runner (cl_urls cl) (resume_common opts) h of
             (aborted, Inl e) \<Rightarrow> ((drive_start s)\<lparr>dr_aborted := aborted\<rparr>, CliReturns (Inl e))
           | (_, Inr (base, rid)) \<Rightarrow>
               (let tok = opt_token (resume_common opts) in
                case retry_api (fetch_session cl base tok session_id 0) fetch_script s of
                  (s, None) \<Rightarrow> (drive_start s, CliWaits)
                | (s, Some (Inl e)) \<Rightarrow> (drive_start s, CliReturns (Inl e))
                | (s, Some (Inr replay)) \<Rightarrow>
                    if ses_runner_id (rsp_session replay) \<noteq> rid then
                      (abort_runner (drive_start s), CliReturns (Inl (RunnerStopped
                        ''session belongs to a different workspace runner'')))
                    else case resume_message opts of
                      None \<Rightarrow> announce_and_drive cl base tok session_id turns s
                    | Some message \<Rightarrow>
                        (case retry_api (submit_message cl base tok session_id message message_request_id)
                                message_script s of
                           (s, None) \<Rightarrow> (drive_start s, CliWaits)
                         | (s, Some (Inl e)) \<Rightarrow> (drive_start s, CliReturns (Inl e))
                         | (s, Some (Inr _)) \<Rightarrow> announce_and_drive cl base tok session_id turns s))))"

section \<open>Interfaces\<close>

interpretation response_reader:
  bounded_collect MAX_RESPONSE_BYTES BodyTransport TooLarge bounded_body
  by unfold_locales (simp_all add: MAX_RESPONSE_BYTES_def usize_max_def)

section \<open>Retrying\<close>

definition unavailable :: "session_cli_error + 'a \<Rightarrow> bool" where
  "unavailable r \<longleftrightarrow> (\<exists>m. r = Inl (ApiUnavailable m))"

lemma cli_runner_error_available: "\<not> unavailable (Inl (cli_runner_error r))"
  by (cases r) (simp_all add: unavailable_def)

lemma retry_api_Proceed:
  "retry_api operation (Proceed # es) s =
     (if unavailable (snd (operation s)) then
        (case es of
           [] \<Rightarrow> (fst (operation s), None)
         | RunnerEnds r _ # _ \<Rightarrow> (fst (operation s), Some (Inl (cli_runner_error r)))
         | Proceed # es \<Rightarrow> retry_api operation es (fst (operation s)))
      else (fst (operation s), Some (snd (operation s))))"
  by (cases "operation s")
     (auto simp: unavailable_def split: sum.splits session_cli_error.splits list.splits retry_event.splits)

declare retry_api.simps(3) [simp del]

text \<open>The requests that a retried operation makes are those of its attempts, one after the other.\<close>

lemma retry_api_cases:
  obtains (waits) "script = []"
  | (ends) r reached rest where "script = RunnerEnds r reached # rest"
  | (returns) rest where "script = Proceed # rest" "\<not> unavailable (snd (operation s))"
      "retry_api operation script s = (fst (operation s), Some (snd (operation s)))"
  | (fails) "unavailable (snd (operation s))" "fst (retry_api operation script s) = fst (operation s)"
      "\<exists>r. snd (retry_api operation script s) \<in> {None, Some (Inl (cli_runner_error r))}"
  | (again) rest where "script = Proceed # Proceed # rest" "unavailable (snd (operation s))"
      "retry_api operation script s = retry_api operation rest (fst (operation s))"
proof (cases script)
  case (Cons x xs)
  show ?thesis
  proof (cases x)
    case Proceed
    then show ?thesis
    proof (cases "unavailable (snd (operation s))")
      case True
      consider "xs = []" | r reached rest where "xs = RunnerEnds r reached # rest" | rest where "xs = Proceed # rest"
        by (metis retry_event.exhaust list.exhaust)
      then show ?thesis
        by cases (use Cons Proceed True fails again in \<open>auto simp: retry_api_Proceed\<close>)
    qed (use Cons Proceed returns in \<open>simp add: retry_api_Proceed\<close>)
  qed (use Cons ends in simp)
qed (use waits in simp)

lemma retry_api_invariant:
  assumes keep: "\<And>s. I s \<Longrightarrow> I (fst (operation s))"
  shows "I s \<Longrightarrow> I (fst (retry_api operation script s))"
proof (induction "length script" arbitrary: script s rule: less_induct)
  case less
  show ?case
    by (rule retry_api_cases [where script = script and operation = operation and s = s]) (use less keep in auto)
qed

lemma retry_api_available:
  "snd (retry_api operation script s) = Some r \<Longrightarrow> \<not> unavailable r"
proof (induction "length script" arbitrary: script s rule: less_induct)
  case less
  show ?case
  proof (rule retry_api_cases [where script = script and operation = operation and s = s])
    fix rest
    assume "script = Proceed # Proceed # rest"
      "retry_api operation script s = retry_api operation rest (fst (operation s))"
    with less show ?thesis by (metis length_Cons lessI less_SucI)
  qed (use less(2) cli_runner_error_available in auto)
qed

text \<open>The state after so many attempts.\<close>

abbreviation after_attempts :: "('s \<Rightarrow> 's \<times> 'r) \<Rightarrow> nat \<Rightarrow> 's \<Rightarrow> 's" where
  "after_attempts operation k s \<equiv> ((\<lambda>s. fst (operation s)) ^^ k) s"

lemma retry_api_returns:
  "(\<forall>j < k. unavailable (snd (operation (after_attempts operation j s)))) \<Longrightarrow>
   \<not> unavailable (snd (operation (after_attempts operation k s))) \<Longrightarrow>
   retry_api operation (replicate (2 * k + 1) Proceed @ rest) s =
     (after_attempts operation (Suc k) s, Some (snd (operation (after_attempts operation k s))))"
proof (induction k arbitrary: s)
  case 0
  then show ?case by (simp add: retry_api_Proceed)
next
  case (Suc k)
  let ?s = "fst (operation s)"
  have "unavailable (snd (operation s))" using Suc.prems(1) by force
  then have "retry_api operation (replicate (2 * Suc k + 1) Proceed @ rest) s =
      retry_api operation (replicate (2 * k + 1) Proceed @ rest) ?s"
    by (simp add: retry_api_Proceed)
  also have "\<dots> = (after_attempts operation (Suc k) ?s, Some (snd (operation (after_attempts operation k ?s))))"
  proof (rule Suc.IH)
    show "\<forall>j < k. unavailable (snd (operation (after_attempts operation j ?s)))"
    proof (intro allI impI)
      fix j assume "j < k"
      then show "unavailable (snd (operation (after_attempts operation j ?s)))"
        using Suc.prems(1) [rule_format, of "Suc j"]
        by (simp add: funpow_Suc_right del: funpow.simps)
    qed
    show "\<not> unavailable (snd (operation (after_attempts operation k ?s)))"
      using Suc.prems(2) by (simp add: funpow_Suc_right del: funpow.simps)
  qed
  finally show ?case by (simp add: funpow_Suc_right del: funpow.simps)
qed

section \<open>What reaches the server\<close>

text \<open>
  A record of the requests: any function of the server's state to which every call of the API
  appends the request.
\<close>

definition records :: "('s, 'u) client \<Rightarrow> ('s \<Rightarrow> 'u http_request list) \<Rightarrow> bool" where
  "records cl log \<longleftrightarrow> (\<forall>s request. log (fst (cl_api cl s request)) = log s @ [request])"

lemma request_json_log:
  "records cl log \<Longrightarrow> log (fst (request_json cl s request tok)) = log s @ [request]"
  by (simp add: request_json_def records_def split_beta split: prod.splits sum.splits)

lemma call_api_log:
  "records cl log \<Longrightarrow> log (fst (call_api cl request tok s)) =
     log s @ (case request of Inl _ \<Rightarrow> [] | Inr r \<Rightarrow> [r])"
  by (simp add: call_api_def request_json_log split: sum.splits)

text \<open>The requests made between two states all satisfy a predicate.\<close>

definition only :: "('s \<Rightarrow> 'u http_request list) \<Rightarrow> ('u http_request \<Rightarrow> bool) \<Rightarrow> 's \<Rightarrow> 's \<Rightarrow> bool" where
  "only log P s s' \<longleftrightarrow> (\<exists>new. log s' = log s @ new \<and> (\<forall>r \<in> set new. P r))"

lemma only_refl [simp]: "only log P s s"
  by (simp add: only_def)

lemma only_trans: "only log P s s' \<Longrightarrow> only log P s' s'' \<Longrightarrow> only log P s s''"
  unfolding only_def by (metis append.assoc Un_iff set_append)

lemma retry_only:
  "(\<And>s. only log P s (fst (operation s))) \<Longrightarrow> only log P s (fst (retry_api operation script s))"
  by (rule retry_api_invariant [where I = "only log P s"]) (auto intro: only_trans)

lemma call_only:
  assumes "records cl log" "\<And>url. P \<lparr>http_method = verb, http_url = url, http_bearer = tok, http_json = body\<rparr>"
  shows "only log P s (fst (call_api cl (api_request cl verb base path tok body) tok s))"
  using assms(2) by (auto simp: only_def call_api_log [OF assms(1)] api_request_def split: sum.splits)

lemma cancel_session_state:
  "fst (cancel_session cl base tok session_id s) =
     fst (call_api cl (api_request cl Post base (''api/sessions/'' @ session_id @ ''/cancel'') tok None) tok s)"
  unfolding cancel_session_def by (simp only: split_beta fst_conv simp_thms split: sum.split)

lemma fetch_session_state:
  "fst (fetch_session cl base tok session_id cursor s) =
     fst (call_api cl (api_request cl Get base
       (''api/sessions/'' @ session_id @ ''?after_sequence='' @ show_nat (unat cursor)) tok None) tok s)"
  unfolding fetch_session_def by (simp only: split_beta fst_conv simp_thms split: sum.split)

abbreviation bodyless :: "'u http_request \<Rightarrow> bool" where
  "bodyless request \<equiv> http_json request = None"

lemma cancel_only: "records cl log \<Longrightarrow> only log bodyless s (fst (cancel_session cl base tok session_id s))"
  unfolding cancel_session_state by (rule call_only) simp_all

lemma fetch_only:
  "records cl log \<Longrightarrow> only log bodyless s (fst (fetch_session cl base tok session_id cursor s))"
  unfolding fetch_session_state by (rule call_only) simp_all

lemma cancel_and_return_server:
  "dr_server (fst (cancel_and_return cl base tok session_id script st)) =
     fst (retry_api (cancel_session cl base tok session_id) script (dr_server st))"
  by (simp add: cancel_and_return_def abort_runner_def print_line_def split_beta
      split: option.split sum.split)

lemma cancel_and_return_only:
  "records cl log \<Longrightarrow> only log bodyless (dr_server st)
     (dr_server (fst (cancel_and_return cl base tok session_id script st)))"
  unfolding cancel_and_return_server by (rule retry_only) (rule cancel_only)

lemma cancel_and_return_printed:
  "prefix (dr_printed st) (dr_printed (fst (cancel_and_return cl base tok session_id script st)))"
  by (simp add: cancel_and_return_def abort_runner_def print_line_def split_beta
      split: option.split sum.split)

text \<open>What a call of the API only appends to, no operation of the client takes away from.\<close>

definition appends :: "('s, 'u) client \<Rightarrow> ('s \<Rightarrow> 'x list) \<Rightarrow> bool" where
  "appends cl f \<longleftrightarrow> (\<forall>s request. prefix (f s) (f (fst (cl_api cl s request))))"

lemma records_appends: "records cl log \<Longrightarrow> appends cl log"
  by (simp add: records_def appends_def)

lemma call_api_grows: "appends cl f \<Longrightarrow> prefix (f s) (f (fst (call_api cl request tok s)))"
  by (simp add: appends_def call_api_def request_json_def split_beta split: sum.split)

lemma fetch_grows: "appends cl f \<Longrightarrow> prefix (f s) (f (fst (fetch_session cl base tok session_id c s)))"
  unfolding fetch_session_state by (rule call_api_grows)

lemma cancel_and_return_grows:
  assumes "appends cl f"
  shows "prefix (f (dr_server st)) (f (dr_server (fst (cancel_and_return cl base tok session_id script st))))"
  unfolding cancel_and_return_server
proof (rule retry_api_invariant [where I = "\<lambda>s. prefix (f (dr_server st)) (f s)"])
  fix s assume "prefix (f (dr_server st)) (f s)"
  also have "prefix (f s) (f (fst (cancel_session cl base tok session_id s)))"
    unfolding cancel_session_state by (rule call_api_grows [OF assms])
  finally show "prefix (f (dr_server st)) (f (fst (cancel_session cl base tok session_id s)))" .
qed simp

lemma cancel_and_return_end: "snd (cancel_and_return cl base tok session_id script st) \<noteq> PageDone"
  by (simp add: cancel_and_return_def split_beta split: option.split sum.split)

section \<open>A page of events\<close>

text \<open>The server after the approval of an event was dealt with, and the state in which the next
  event is handled.\<close>

definition after_approval ::
  "('s, 'u) client \<Rightarrow> 'u \<Rightarrow> string \<Rightarrow> string \<Rightarrow> session_response \<Rightarrow> event \<Rightarrow> prompt \<Rightarrow> 's \<Rightarrow> 's" where
  "after_approval cl base tok session_id replay e input s =
     (if ev_kind e = ''approval_requested'' \<and> pending_approval replay e
      then fst (resolve_approval cl base tok session_id e input s) else s)"

definition shown_event ::
  "('s, 'u) client \<Rightarrow> 'u \<Rightarrow> string \<Rightarrow> string \<Rightarrow> session_response \<Rightarrow> event \<Rightarrow> prompt \<Rightarrow>
   's drive_state \<Rightarrow> 's drive_state" where
  "shown_event cl base tok session_id replay e input st =
     (print_line (format_event (cl_display cl) e) st)
       \<lparr>dr_server := after_approval cl base tok session_id replay e input (dr_server st)\<rparr>"

lemma shown_event_simps [simp]:
  "dr_server (shown_event cl base tok session_id replay e input st) =
     after_approval cl base tok session_id replay e input (dr_server st)"
  "dr_printed (shown_event cl base tok session_id replay e input st) =
     dr_printed st @ [format_event (cl_display cl) e]"
  "dr_cursor (shown_event cl base tok session_id replay e input st) = dr_cursor st"
  by (simp_all add: shown_event_def print_line_def)

definition handled_event ::
  "('s, 'u) client \<Rightarrow> 'u \<Rightarrow> string \<Rightarrow> string \<Rightarrow> session_response \<Rightarrow> event \<Rightarrow> prompt \<Rightarrow>
   's drive_state \<Rightarrow> 's drive_state" where
  "handled_event cl base tok session_id replay e input st =
     (shown_event cl base tok session_id replay e input st)\<lparr>dr_cursor := max (dr_cursor st) (ev_sequence e)\<rparr>"

lemma handled_event_simps [simp]:
  "dr_server (handled_event cl base tok session_id replay e input st) =
     after_approval cl base tok session_id replay e input (dr_server st)"
  "dr_printed (handled_event cl base tok session_id replay e input st) =
     dr_printed st @ [format_event (cl_display cl) e]"
  "dr_cursor (handled_event cl base tok session_id replay e input st) = max (dr_cursor st) (ev_sequence e)"
  by (simp_all add: handled_event_def)

lemma resolve_approval_False:
  "snd (resolve_approval cl base tok session_id e input s) = Inr False \<Longrightarrow> input = Interrupt"
  unfolding resolve_approval_def
  by (simp only: split_beta split: option.split_asm sum.split_asm prompt.split_asm) simp_all

lemma handle_events_cases:
  obtains (next') "handle_events cl base tok session_id replay script ((e, input) # rest) st =
      handle_events cl base tok session_id replay script rest
        (handled_event cl base tok session_id replay e input st)"
  | (cancel) "input = Interrupt" "handle_events cl base tok session_id replay script ((e, input) # rest) st =
      cancel_and_return cl base tok session_id script (shown_event cl base tok session_id replay e input st)"
  | (stop) r where "r \<noteq> PageDone" "r \<noteq> PageReturns (Inr ())" "handle_events cl base tok session_id replay script ((e, input) # rest) st =
      (shown_event cl base tok session_id replay e input st, r)"
proof (cases "ev_kind e = ''approval_requested'' \<and> pending_approval replay e")
  case True
  obtain s r where r: "resolve_approval cl base tok session_id e input (dr_server st) = (s, r)"
    by fastforce
  have state: "shown_event cl base tok session_id replay e input st =
      (print_line (format_event (cl_display cl) e) st)\<lparr>dr_server := s\<rparr>"
    using True r by (simp only: shown_event_def after_approval_def) simp
  have server: "dr_server (print_line line st) = dr_server st" "dr_cursor (print_line line st) = dr_cursor st" for line
    by (simp_all add: print_line_def)
  note eqs = handle_events.simps(2) [of cl base tok session_id replay script e input rest st]
  show ?thesis
  proof (cases r)
    case (Inl err)
    show ?thesis
    proof (rule stop)
      show "(case err of ApiUnavailable _ \<Rightarrow> PageRetry | _ \<Rightarrow> PageReturns (Inl err)) \<noteq> PageDone"
        by (cases err) simp_all
      show "(case err of ApiUnavailable _ \<Rightarrow> PageRetry | _ \<Rightarrow> PageReturns (Inl err)) \<noteq> PageReturns (Inr ())"
        by (cases err) simp_all
      show "handle_events cl base tok session_id replay script ((e, input) # rest) st =
        (shown_event cl base tok session_id replay e input st,
         case err of ApiUnavailable _ \<Rightarrow> PageRetry | _ \<Rightarrow> PageReturns (Inl err))"
        unfolding eqs state using True r Inl by (cases err) (simp_all only: Let_def server simp_thms if_True prod.case sum.case session_cli_error.case)
    qed
  next
    case (Inr b)
    show ?thesis
    proof (cases b)
      case True': True
      show ?thesis
        by (rule next', unfold eqs handled_event_def state) (use True True' r Inr in \<open>simp only: Let_def server simp_thms if_True prod.case sum.case bool.case\<close>; simp add: server)
    next
      case False
      have "input = Interrupt" 
        by (rule resolve_approval_False [of cl base tok session_id e _ "dr_server st"]) (simp only: r Inr False snd_conv)
      then show ?thesis
        by (rule cancel, unfold eqs state) (use True False r Inr in \<open>simp only: Let_def server simp_thms if_True prod.case sum.case bool.case\<close>)
    qed
  qed
next
  case False
  then show ?thesis using next' by (simp only: handle_events.simps Let_def handled_event_def shown_event_def after_approval_def) (simp add: print_line_def)
qed

lemma resolve_approval_state:
  "fst (resolve_approval cl base tok session_id e input s) = s \<or>
   (\<exists>given approval_id answer. get_str (ev_payload e) ''approval_id'' = Some given \<and>
      parse_id (cl_ids cl) given ''approval'' = Inr approval_id \<and> input = Line answer \<and>
      fst (resolve_approval cl base tok session_id e input s) =
        fst (call_api cl (api_request cl Post base
          (''api/sessions/'' @ session_id @ ''/approvals/'' @ approval_id) tok (Some (decision_body answer))) tok s))"
proof (cases "get_str (ev_payload e) ''approval_id''")
  case (Some given)
  show ?thesis
  proof (cases "parse_id (cl_ids cl) given ''approval''")
    case (Inr approval_id)
    show ?thesis
    proof (cases input)
      case (Line answer)
      have "fst (resolve_approval cl base tok session_id e input s) =
        fst (call_api cl (api_request cl Post base
          (''api/sessions/'' @ session_id @ ''/approvals/'' @ approval_id) tok (Some (decision_body answer))) tok s)"
        unfolding resolve_approval_def Some Inr Line option.case sum.case prompt.case
        by (simp only: split_beta fst_conv simp_thms split: sum.split)
      with Some Inr Line show ?thesis by blast
    qed (simp_all only: resolve_approval_def Some Inr option.case sum.case prompt.case fst_conv simp_thms)
  qed (simp only: resolve_approval_def Some option.case sum.case fst_conv simp_thms)
qed (simp only: resolve_approval_def option.case fst_conv simp_thms)

lemma after_approval_grows:
  assumes "appends cl f"
  shows "prefix (f s) (f (after_approval cl base tok session_id replay e input s))"
proof (cases "ev_kind e = ''approval_requested'' \<and> pending_approval replay e")
  case True
  from resolve_approval_state [of cl base tok session_id e input s] show ?thesis
    unfolding after_approval_def if_P [OF True] using call_api_grows [OF assms, of s]
    by (elim disjE exE conjE) (simp_all only: prefix_order.refl)
qed (simp only: after_approval_def if_False prefix_order.refl)

lemma handle_events_printed:
  "prefix (dr_printed st) (dr_printed (fst (handle_events cl base tok session_id replay script evs st)))"
proof (induction evs arbitrary: st)
  case (Cons ei rest)
  obtain e input where ei: "ei = (e, input)" by fastforce
  let ?st = "\<lambda>input. shown_event cl base tok session_id replay e input st"
  let ?next = "handled_event cl base tok session_id replay e input st"
  have shown: "prefix (dr_printed st) (dr_printed (?st i))" "prefix (dr_printed st) (dr_printed ?next)" for i
    by simp_all
  show ?case unfolding ei
    by (rule handle_events_cases [of cl base tok session_id replay script e input rest st])
       (simp_all only: fst_conv shown prefix_order.trans [OF shown(2) Cons.IH]
          prefix_order.trans [OF shown(1) cancel_and_return_printed])
qed simp

lemma handle_events_grows:
  assumes "appends cl f"
  shows "prefix (f (dr_server st)) (f (dr_server (fst (handle_events cl base tok session_id replay script evs st))))"
proof (induction evs arbitrary: st)
  case (Cons ei rest)
  obtain e input where ei: "ei = (e, input)" by fastforce
  have shown: "prefix (f (dr_server st)) (f (dr_server (shown_event cl base tok session_id replay e i st)))"
    "prefix (f (dr_server st)) (f (dr_server (handled_event cl base tok session_id replay e i st)))" for i
    by (simp_all add: after_approval_grows [OF assms])
  show ?case unfolding ei
    by (rule handle_events_cases [of cl base tok session_id replay script e input rest st])
       (simp_all only: fst_conv shown prefix_order.trans [OF shown(2) Cons.IH]
          prefix_order.trans [OF shown(1) cancel_and_return_grows [OF assms]])
qed simp

text \<open>A page is handled event by event; the events after the one that ends it play no role.\<close>

lemma handle_events_Cons:
  "handle_events cl base tok session_id replay script (ei # rest) st =
     (if snd (handle_events cl base tok session_id replay script [ei] st) = PageDone
      then handle_events cl base tok session_id replay script rest
        (fst (handle_events cl base tok session_id replay script [ei] st))
      else handle_events cl base tok session_id replay script [ei] st)"
proof -
  obtain e input where ei: "ei = (e, input)" by fastforce
  let ?st = "print_line (format_event (cl_display cl) e) st"
  obtain s r where r: "resolve_approval cl base tok session_id e input (dr_server ?st) = (s, r)" by fastforce
  show ?thesis
  proof (cases r)
    case (Inl err)
    show ?thesis unfolding ei handle_events.simps Let_def r Inl by (cases err) simp_all
  next
    case (Inr b)
    show ?thesis unfolding ei handle_events.simps Let_def r Inr
      by (cases b) (simp_all add: cancel_and_return_end)
  qed
qed

lemma handle_events_append:
  "handle_events cl base tok session_id replay script (xs @ ys) st =
     (if snd (handle_events cl base tok session_id replay script xs st) = PageDone
      then handle_events cl base tok session_id replay script ys
        (fst (handle_events cl base tok session_id replay script xs st))
      else handle_events cl base tok session_id replay script xs st)"
proof (induction xs arbitrary: st)
  case (Cons x xs)
  show ?case
    unfolding append_Cons handle_events_Cons [of cl base tok session_id replay script x "xs @ ys"]
      handle_events_Cons [of cl base tok session_id replay script x xs] Cons.IH by simp
qed simp

text \<open>
  A request is the answer to an approval: the event is a pending request for approval, the user has
  entered a line at its prompt, and the request carries the decision of this line to the endpoint of this
  approval.
\<close>

definition answers_approval ::
  "('s, 'u) client \<Rightarrow> 'u \<Rightarrow> string \<Rightarrow> string \<Rightarrow> session_response \<Rightarrow> event \<Rightarrow> prompt \<Rightarrow> 'u http_request \<Rightarrow> bool" where
  "answers_approval cl base tok session_id replay e input request \<longleftrightarrow>
     (\<exists>given approval_id answer.
        ev_kind e = ''approval_requested'' \<and> pending_approval replay e \<and>
        get_str (ev_payload e) ''approval_id'' = Some given \<and>
        parse_id (cl_ids cl) given ''approval'' = Inr approval_id \<and> input = Line answer \<and>
        api_request cl Post base (''api/sessions/'' @ session_id @ ''/approvals/'' @ approval_id) tok
          (Some (decision_body answer)) = Inr request)"

lemma after_approval_log:
  assumes "records cl log"
  shows "log (after_approval cl base tok session_id replay e input s) = log s \<or>
    (\<exists>request. log (after_approval cl base tok session_id replay e input s) = log s @ [request] \<and>
       answers_approval cl base tok session_id replay e input request)"
proof (cases "ev_kind e = ''approval_requested'' \<and> pending_approval replay e")
  case True
  have state: "after_approval cl base tok session_id replay e input s = fst (resolve_approval cl base tok session_id e input s)"
    unfolding after_approval_def if_P [OF True] ..
  from resolve_approval_state [of cl base tok session_id e input s] show ?thesis
  proof (elim disjE exE conjE)
    fix given approval_id answer
    let ?r = "api_request cl Post base (''api/sessions/'' @ session_id @ ''/approvals/'' @ approval_id) tok
      (Some (decision_body answer))"
    assume given: "get_str (ev_payload e) ''approval_id'' = Some given"
      "parse_id (cl_ids cl) given ''approval'' = Inr approval_id" "input = Line answer"
      "fst (resolve_approval cl base tok session_id e input s) = fst (call_api cl ?r tok s)"
    then show ?thesis
      unfolding state given(4) call_api_log [OF assms] answers_approval_def using True by (cases ?r) auto
  qed (simp only: state simp_thms)
qed (simp only: after_approval_def if_False simp_thms)

text \<open>The requests made from one state to another, by position in the record.\<close>

definition new_request :: "('s \<Rightarrow> 'u http_request list) \<Rightarrow> 's \<Rightarrow> 's \<Rightarrow> nat \<Rightarrow> bool" where
  "new_request log s s' j \<longleftrightarrow>
     length (log s) \<le> j \<and> j < length (log s') \<and> \<not> bodyless (log s' ! j)"

lemma only_bodyless: "only log bodyless s s' \<Longrightarrow> \<not> new_request log s s' j"
  by (auto simp: only_def new_request_def nth_append)

lemma new_request_self [simp]: "\<not> new_request log s s j"
  by (auto simp: new_request_def)

lemma new_request_split:
  assumes "new_request log s s' j" "prefix (log s1) (log s')"
  shows "new_request log s s1 j \<and> log s1 ! j = log s' ! j \<or> new_request log s1 s' j"
  using assms by (auto simp: new_request_def prefix_def nth_append)

lemma event_answered:
  assumes log: "records cl log" and result: "result = handle_events cl base tok session_id replay script [(e, input)] st"
    and new: "new_request log (dr_server st) (dr_server (fst result)) j"
  shows "j = length (log (dr_server st)) \<and>
    answers_approval cl base tok session_id replay e input (log (dr_server (fst result)) ! j) \<and>
    prefix (dr_printed st @ [format_event (cl_display cl) e]) (dr_printed (fst result))"
proof -
  let ?st = "shown_event cl base tok session_id replay e input st"
  have answer: "j = length (log (dr_server st)) \<and> answers_approval cl base tok session_id replay e input (log (dr_server ?st) ! j)"
    if "new_request log (dr_server st) (dr_server ?st) j"
    using that after_approval_log [OF log, of base tok session_id replay e input "dr_server st"]
    by (auto simp: new_request_def nth_append)
  show ?thesis
  proof (rule handle_events_cases [of cl base tok session_id replay script e input "[]" st])
    assume "handle_events cl base tok session_id replay script [(e, input)] st =
      handle_events cl base tok session_id replay script [] (handled_event cl base tok session_id replay e input st)"
    then have eq: "dr_server (fst result) = dr_server ?st" "dr_printed (fst result) = dr_printed ?st"
      using result by simp_all
    from answer [OF new [unfolded eq(1)]] show ?thesis unfolding eq by (auto simp del: shown_event_simps(1))
  next
    assume i: "input = Interrupt" and "handle_events cl base tok session_id replay script [(e, input)] st =
      cancel_and_return cl base tok session_id script ?st"
    with result have c: "result = cancel_and_return cl base tok session_id script ?st" by simp
    have "prefix (log (dr_server ?st)) (log (dr_server (fst result)))"
      unfolding c by (rule cancel_and_return_grows [OF records_appends [OF log]])
    from new_request_split [OF new this] have "new_request log (dr_server st) (dr_server ?st) j"
      using only_bodyless [OF cancel_and_return_only [OF log]] unfolding c by blast
    with answer i show ?thesis by (auto simp: answers_approval_def)
  next
    fix r assume "handle_events cl base tok session_id replay script [(e, input)] st = (?st, r)"
    then have eq: "fst result = ?st" using result by simp
    from answer [OF new [unfolded eq]] show ?thesis unfolding eq by (auto simp del: shown_event_simps(1))
  qed
qed

lemma handle_events_answered:
  assumes log: "records cl log"
  shows "new_request log (dr_server st)
      (dr_server (fst (handle_events cl base tok session_id replay script evs st))) j \<Longrightarrow>
    \<exists>n st2. n < length evs \<and> handle_events cl base tok session_id replay script (take n evs) st = (st2, PageDone) \<and>
      j = length (log (dr_server st2)) \<and>
      answers_approval cl base tok session_id replay (fst (evs ! n)) (snd (evs ! n))
        (log (dr_server (fst (handle_events cl base tok session_id replay script evs st))) ! j) \<and>
      prefix (dr_printed st2 @ [format_event (cl_display cl) (fst (evs ! n))])
        (dr_printed (fst (handle_events cl base tok session_id replay script evs st)))"
proof (induction evs rule: rev_induct)
  case Nil
  then show ?case by (simp add: new_request_def)
next
  case (snoc x xs)
  let ?run = "\<lambda>evs. handle_events cl base tok session_id replay script evs st"
  let ?st = "fst (?run xs)"
  obtain e input where x: "x = (e, input)" by fastforce
  have lift: ?case if "n < length xs" "?run (take n xs) = (st2, PageDone)" "j = length (log (dr_server st2))"
      "answers_approval cl base tok session_id replay (fst (xs ! n)) (snd (xs ! n)) (log (dr_server (fst (?run (xs @ [x])))) ! j)"
      "prefix (dr_printed st2 @ [format_event (cl_display cl) (fst (xs ! n))]) (dr_printed (fst (?run (xs @ [x]))))"
    for n st2
    using that by (intro exI [of _ n] exI [of _ st2]) (simp add: nth_append)
  show ?case
  proof (cases "snd (?run xs) = PageDone")
    case False
    then have eq: "?run (xs @ [x]) = ?run xs" by (simp add: handle_events_append)
    from snoc.IH [OF snoc.prems [unfolded eq]] show ?thesis by (elim exE conjE) (rule lift, unfold eq)
  next
    case True
    then have eq: "?run (xs @ [x]) = handle_events cl base tok session_id replay script [(e, input)] ?st"
      by (simp add: handle_events_append x del: handle_events.simps(2))
    have grows: "prefix (log (dr_server ?st)) (log (dr_server (fst (?run (xs @ [x])))))"
      "prefix (dr_printed ?st) (dr_printed (fst (?run (xs @ [x]))))"
      unfolding eq by (rule handle_events_grows [OF records_appends [OF log]], rule handle_events_printed)
    from new_request_split [OF snoc.prems grows(1)] show ?thesis
    proof
      assume "new_request log (dr_server st) (dr_server ?st) j \<and>
        log (dr_server ?st) ! j = log (dr_server (fst (?run (xs @ [x])))) ! j"
      then have old: "new_request log (dr_server st) (dr_server ?st) j"
        "log (dr_server ?st) ! j = log (dr_server (fst (?run (xs @ [x])))) ! j" by blast+
      from snoc.IH [OF old(1), unfolded old(2)] show ?thesis
        by (elim exE conjE) (rule lift, assumption+, rule prefix_order.trans [OF _ grows(2)])
    next
      assume "new_request log (dr_server ?st) (dr_server (fst (?run (xs @ [x])))) j"
      from event_answered [OF log eq this] True show ?thesis
        by (intro exI [of _ "length xs"] exI [of _ ?st]) (auto simp: x prod_eq_iff)
    qed
  qed
qed

section \<open>A run of the loop\<close>

text \<open>The outcome of a turn that polls, by what the server answers.\<close>

lemma drive_turn_cases:
  obtains (cancelled) st' where "drive_turn cl base tok session_id t st = cancel_and_return cl base tok session_id (turn_script t) st'"
      "dr_printed st' = dr_printed st" "dr_cursor st' = dr_cursor st"
      "dr_server st' \<in> {dr_server st, fst (fetch_session cl base tok session_id (dr_cursor st) (dr_server st))}"
      "turn_select t = CtrlC \<or> turn_fetch_interrupted t \<noteq> None"
  | (stopped) r where "drive_turn cl base tok session_id t st = (st, PageReturns (Inl r))"
  | (failed) s err r where "fetch_session cl base tok session_id (dr_cursor st) (dr_server st) = (s, Inl err)"
      "drive_turn cl base tok session_id t st = (st\<lparr>dr_server := s\<rparr>, r)" "r \<noteq> PageDone" "r \<noteq> PageReturns (Inr ())"
  | (page) s replay where "fetch_session cl base tok session_id (dr_cursor st) (dr_server st) = (s, Inr replay)"
      "turn_select t = Tick" "turn_fetch_interrupted t = None"
      "drive_turn cl base tok session_id t st =
        (case handle_events cl base tok session_id replay (turn_script t)
                (zip (rsp_events replay) (map (turn_prompts t) [0..<length (rsp_events replay)])) (st\<lparr>dr_server := s\<rparr>) of
           (st, PageDone) \<Rightarrow>
             if \<not> rsp_has_more replay \<and> finished_status (ses_status (rsp_session replay))
             then (abort_runner st, PageReturns (Inr ())) else (st, PageDone)
         | (st, end') \<Rightarrow> (st, end'))"
proof (cases "turn_select t")
  case CtrlC
  then show ?thesis using cancelled [of st] by (simp add: drive_turn_def)
next
  case (RunnerDone r)
  then show ?thesis using stopped by (simp add: drive_turn_def)
next
  case Tick
  obtain s fetched where fetch: "fetch_session cl base tok session_id (dr_cursor st) (dr_server st) = (s, fetched)"
    by fastforce
  note eq = drive_turn_def [of cl base tok session_id t st, unfolded Tick drive_select.case fetch Let_def prod.case]
  show ?thesis
  proof (cases "turn_fetch_interrupted t")
    case (Some reached)
    show ?thesis
      by (rule cancelled [of "if reached then st\<lparr>dr_server := s\<rparr> else st"])
         (simp_all add: eq Some fetch)
  next
    case None
    show ?thesis
    proof (cases fetched)
      case (Inl err)
      show ?thesis
        by (rule failed [of s err "case err of ApiUnavailable _ \<Rightarrow> PageRetry | _ \<Rightarrow> PageReturns (Inl err)"])
           (simp_all add: fetch Inl None eq split: session_cli_error.split)
    next
      case (Inr replay)
      show ?thesis
        by (rule page [of s replay]) (simp_all only: fetch Inr None Tick eq option.case sum.case)
    qed
  qed
qed

text \<open>What a finished page leaves in the state is what its events left, but for the flag.\<close>

lemma page_state:
  assumes "result = (case handled of
           (st, PageDone) \<Rightarrow> if fin then (abort_runner st, PageReturns (Inr ())) else (st, PageDone)
         | (st, end') \<Rightarrow> (st, end'))"
  shows "dr_server (fst result) = dr_server (fst handled)" "dr_printed (fst result) = dr_printed (fst handled)"
    "dr_cursor (fst result) = dr_cursor (fst handled)"
  by (simp_all add: assms abort_runner_def split_beta split: page_end.split)

lemma drive_turn_printed:
  "prefix (dr_printed st) (dr_printed (fst (drive_turn cl base tok session_id t st)))"
proof (rule drive_turn_cases [of cl base tok session_id t st])
  fix st' assume eq: "drive_turn cl base tok session_id t st = cancel_and_return cl base tok session_id (turn_script t) st'"
    "dr_printed st' = dr_printed st"
  show ?thesis unfolding eq(1) by (fold eq(2)) (rule cancel_and_return_printed)
next
  fix s replay assume "drive_turn cl base tok session_id t st =
        (case handle_events cl base tok session_id replay (turn_script t)
                (zip (rsp_events replay) (map (turn_prompts t) [0..<length (rsp_events replay)])) (st\<lparr>dr_server := s\<rparr>) of
           (st, PageDone) \<Rightarrow>
             if \<not> rsp_has_more replay \<and> finished_status (ses_status (rsp_session replay))
             then (abort_runner st, PageReturns (Inr ())) else (st, PageDone)
         | (st, end') \<Rightarrow> (st, end'))"
  from page_state(2) [OF this] handle_events_printed [of "st\<lparr>dr_server := s\<rparr>"] show ?thesis by simp
qed simp_all

lemma drive_turn_grows:
  assumes "appends cl f"
  shows "prefix (f (dr_server st)) (f (dr_server (fst (drive_turn cl base tok session_id t st))))"
proof (rule drive_turn_cases [of cl base tok session_id t st])
  fix st' assume st': "drive_turn cl base tok session_id t st = cancel_and_return cl base tok session_id (turn_script t) st'"
    "dr_server st' \<in> {dr_server st, fst (fetch_session cl base tok session_id (dr_cursor st) (dr_server st))}"
  from st'(2) have "prefix (f (dr_server st)) (f (dr_server st'))" using fetch_grows [OF assms] by auto
  from prefix_order.trans [OF this cancel_and_return_grows [OF assms]] show ?thesis unfolding st'(1) .
next
  fix s err r assume "fetch_session cl base tok session_id (dr_cursor st) (dr_server st) = (s, Inl err)"
    "drive_turn cl base tok session_id t st = (st\<lparr>dr_server := s\<rparr>, r)"
  then show ?thesis using fetch_grows [OF assms, of "dr_server st" base tok session_id "dr_cursor st"] by simp
next
  fix s and replay :: session_response
  let ?handled = "handle_events cl base tok session_id replay (turn_script t)
    (zip (rsp_events replay) (map (turn_prompts t) [0..<length (rsp_events replay)])) (st\<lparr>dr_server := s\<rparr>)"
  assume s: "fetch_session cl base tok session_id (dr_cursor st) (dr_server st) = (s, Inr replay)"
    and "drive_turn cl base tok session_id t st = (case ?handled of
         (st, PageDone) \<Rightarrow>
           if \<not> rsp_has_more replay \<and> finished_status (ses_status (rsp_session replay))
           then (abort_runner st, PageReturns (Inr ())) else (st, PageDone)
       | (st, end') \<Rightarrow> (st, end'))"
  note state = page_state [OF this(2)]
  have "prefix (f (dr_server st)) (f s)"
    using fetch_grows [OF assms, of "dr_server st" base tok session_id "dr_cursor st"] s by simp
  moreover have "prefix (f s) (f (dr_server (fst ?handled)))"
    using handle_events_grows [OF assms, of "st\<lparr>dr_server := s\<rparr>"] by simp
  ultimately show ?thesis unfolding state(1) by (rule prefix_order.trans)
qed simp

text \<open>
  A request at position \<open>j\<close> of the record answers an event of the page of a turn: it is the one made
  when the events before it had been handled, that event is the \<open>n\<close>-th of the page, and the input is
  what the terminal read at its prompt.
\<close>

definition answers_turn ::
  "('s, 'u) client \<Rightarrow> 'u \<Rightarrow> string \<Rightarrow> string \<Rightarrow> ('s \<Rightarrow> 'u http_request list) \<Rightarrow> turn \<Rightarrow> 's drive_state \<Rightarrow>
   string list \<Rightarrow> nat \<Rightarrow> session_response \<Rightarrow> nat \<Rightarrow> bool" where
  "answers_turn cl base tok session_id log t st printed j replay n \<longleftrightarrow>
     (\<exists>s st2. turn_select t = Tick \<and> turn_fetch_interrupted t = None \<and>
        fetch_session cl base tok session_id (dr_cursor st) (dr_server st) = (s, Inr replay) \<and>
        n < length (rsp_events replay) \<and>
        handle_events cl base tok session_id replay (turn_script t)
          (zip (take n (rsp_events replay)) (map (turn_prompts t) [0..<n])) (st\<lparr>dr_server := s\<rparr>) = (st2, PageDone) \<and>
        j = length (log (dr_server st2)) \<and>
        prefix (dr_printed st2 @ [format_event (cl_display cl) (rsp_events replay ! n)]) printed)"

lemma drive_turn_answered:
  assumes log: "records cl log" and result: "result = drive_turn cl base tok session_id t st"
    and new: "new_request log (dr_server st) (dr_server (fst result)) j"
  shows "\<exists>replay n. answers_turn cl base tok session_id log t st (dr_printed (fst result)) j replay n \<and>
    answers_approval cl base tok session_id replay (rsp_events replay ! n) (turn_prompts t n)
      (log (dr_server (fst result)) ! j)"
proof -
  let ?fetched = "fst (fetch_session cl base tok session_id (dr_cursor st) (dr_server st))"
  have fetch: "\<not> new_request log (dr_server st) ?fetched j" by (rule only_bodyless [OF fetch_only [OF log]])
  show ?thesis
  proof (rule drive_turn_cases [of cl base tok session_id t st])
    fix st' assume st': "drive_turn cl base tok session_id t st = cancel_and_return cl base tok session_id (turn_script t) st'"
      "dr_server st' \<in> {dr_server st, ?fetched}"
    have c: "only log bodyless (dr_server st') (dr_server (fst result))"
      unfolding result st'(1) by (rule cancel_and_return_only [OF log])
    have "only log bodyless (dr_server st) (dr_server st')" using st'(2) fetch_only [OF log] by auto
    from only_bodyless [OF only_trans [OF this c]] new show ?thesis by blast
  next
    fix r assume "drive_turn cl base tok session_id t st = (st, PageReturns (Inl r))"
    with new result show ?thesis by simp
  next
    fix s err r assume "fetch_session cl base tok session_id (dr_cursor st) (dr_server st) = (s, Inl err)"
      "drive_turn cl base tok session_id t st = (st\<lparr>dr_server := s\<rparr>, r)"
    with new result fetch show ?thesis by simp
  next
    fix s and replay :: session_response
    let ?evs = "zip (rsp_events replay) (map (turn_prompts t) [0..<length (rsp_events replay)])"
    let ?handled = "handle_events cl base tok session_id replay (turn_script t) ?evs (st\<lparr>dr_server := s\<rparr>)"
    assume s: "fetch_session cl base tok session_id (dr_cursor st) (dr_server st) = (s, Inr replay)"
      and t: "turn_select t = Tick" "turn_fetch_interrupted t = None"
      and "drive_turn cl base tok session_id t st = (case ?handled of
           (st, PageDone) \<Rightarrow>
             if \<not> rsp_has_more replay \<and> finished_status (ses_status (rsp_session replay))
             then (abort_runner st, PageReturns (Inr ())) else (st, PageDone)
         | (st, end') \<Rightarrow> (st, end'))"
    note state = page_state [OF this(4), folded result]
    have "prefix (log s) (log (dr_server (fst ?handled)))"
      using handle_events_grows [OF records_appends [OF log], of "st\<lparr>dr_server := s\<rparr>"] by simp
    from new_request_split [OF new [unfolded state(1)] this] fetch s
    have "new_request log (dr_server (st\<lparr>dr_server := s\<rparr>)) (dr_server (fst ?handled)) j" by simp
    from handle_events_answered [OF log this] obtain n st2 where n: "n < length ?evs"
      "handle_events cl base tok session_id replay (turn_script t) (take n ?evs) (st\<lparr>dr_server := s\<rparr>) = (st2, PageDone)"
      "j = length (log (dr_server st2))"
      "answers_approval cl base tok session_id replay (fst (?evs ! n)) (snd (?evs ! n)) (log (dr_server (fst ?handled)) ! j)"
      "prefix (dr_printed st2 @ [format_event (cl_display cl) (fst (?evs ! n))]) (dr_printed (fst ?handled))" by blast
    have "take n ?evs = zip (take n (rsp_events replay)) (map (turn_prompts t) [0..<n])"
      "?evs ! n = (rsp_events replay ! n, turn_prompts t n)"
      using n(1) by (simp_all add: take_zip take_map min_def)
    then show ?thesis
      unfolding answers_turn_def state(1,2) using s t n by (intro exI [of _ replay] exI [of _ n]) auto
  qed
qed

lemma drive_Cons:
  "drive cl base tok session_id (t # ts) st =
     (case snd (drive_turn cl base tok session_id t st) of
        PageReturns r \<Rightarrow> (fst (drive_turn cl base tok session_id t st), Some r)
      | PageWaits \<Rightarrow> (fst (drive_turn cl base tok session_id t st), None)
      | _ \<Rightarrow> drive cl base tok session_id ts (fst (drive_turn cl base tok session_id t st)))"
  by (simp add: split_beta split: page_end.split)

declare drive.simps(2) [simp del]

lemma drive_printed: "prefix (dr_printed st) (dr_printed (fst (drive cl base tok session_id turns st)))"
proof (induction turns arbitrary: st)
  case (Cons t ts)
  from prefix_order.trans [OF drive_turn_printed Cons.IH] show ?case
    by (auto simp: drive_Cons drive_turn_printed split: page_end.split)
qed simp

lemma drive_grows:
  assumes "appends cl f"
  shows "prefix (f (dr_server st)) (f (dr_server (fst (drive cl base tok session_id turns st))))"
proof (induction turns arbitrary: st)
  case (Cons t ts)
  from prefix_order.trans [OF drive_turn_grows [OF assms] Cons.IH] show ?case
    by (auto simp: drive_Cons drive_turn_grows [OF assms] split: page_end.split)
qed simp

text \<open>Every request of a run with a body is the answer to an approval of the page of one of its turns.\<close>

lemma drive_answered:
  assumes log: "records cl log"
  shows "result = drive cl base tok session_id turns st \<Longrightarrow>
    new_request log (dr_server st) (dr_server (fst result)) j \<Longrightarrow>
    \<exists>earlier t later st1 replay n. turns = earlier @ t # later \<and>
      drive cl base tok session_id earlier st = (st1, None) \<and>
      result = drive cl base tok session_id (t # later) st1 \<and>
      answers_turn cl base tok session_id log t st1 (dr_printed (fst result)) j replay n \<and>
      answers_approval cl base tok session_id replay (rsp_events replay ! n) (turn_prompts t n)
        (log (dr_server (fst result)) ! j)"
proof (induction turns arbitrary: st)
  case (Cons t ts)
  let ?turn = "drive_turn cl base tok session_id t st"
  have grows: "prefix (log (dr_server (fst ?turn))) (log (dr_server (fst result)))"
    "prefix (dr_printed (fst ?turn)) (dr_printed (fst result))"
    unfolding Cons.prems(1) drive_Cons
    by (simp_all add: drive_grows [OF records_appends [OF log]] drive_printed split: page_end.split)
  show ?case
  proof (cases "new_request log (dr_server (fst ?turn)) (dr_server (fst result)) j")
    case False
    with new_request_split [OF Cons.prems(2) grows(1)]
    have new: "new_request log (dr_server st) (dr_server (fst ?turn)) j"
      "log (dr_server (fst ?turn)) ! j = log (dr_server (fst result)) ! j" by blast+
    from drive_turn_answered [OF log HOL.refl new(1)] obtain replay n where
      "answers_turn cl base tok session_id log t st (dr_printed (fst ?turn)) j replay n"
      "answers_approval cl base tok session_id replay (rsp_events replay ! n) (turn_prompts t n) (log (dr_server (fst ?turn)) ! j)"
      by blast
    moreover from this(1) have "answers_turn cl base tok session_id log t st (dr_printed (fst result)) j replay n"
      unfolding answers_turn_def using prefix_order.trans [OF _ grows(2)] by blast
    ultimately show ?thesis
      using new(2) Cons.prems(1) by (intro exI [of _ "[]"] exI [of _ t] exI [of _ ts] exI [of _ st]) auto
  next
    case True
    then have more: "snd ?turn \<in> {PageDone, PageRetry}" "result = drive cl base tok session_id ts (fst ?turn)"
      using Cons.prems(1) by (cases "snd ?turn"; simp add: drive_Cons new_request_def)+
    from Cons.IH [OF more(2) True] obtain earlier t' later st1 replay n where
      "ts = earlier @ t' # later" "drive cl base tok session_id earlier (fst ?turn) = (st1, None)"
      "result = drive cl base tok session_id (t' # later) st1"
      "answers_turn cl base tok session_id log t' st1 (dr_printed (fst result)) j replay n"
      "answers_approval cl base tok session_id replay (rsp_events replay ! n) (turn_prompts t' n)
        (log (dr_server (fst result)) ! j)" by blast
    then show ?thesis
      using more(1) by (intro exI [of _ "t # earlier"] exI [of _ t'] exI [of _ later] exI [of _ st1] exI [of _ replay] exI [of _ n])
        (auto simp: drive_Cons)
  qed
qed (simp add: new_request_def)

end
