(* ===== verification/Session_Follow.thy ===== *)
theory Session_Follow
  imports Session_Cli
begin

text \<open>
  What the session client guarantees over whole runs: every event of the session is shown, in
  order, whatever fails on the way; nothing is approved without the consent of the user; a retried
  request keeps its idempotency key; and the messages of failed requests do not show the token.
\<close>

section \<open>Events\<close>

text \<open>
  What the API promises about the events of a session (\<^verbatim>\<open>show_session\<close> in
  \<^verbatim>\<open>src/lib/kodo_web/controllers/session_controller.ex\<close>): they form a log with positive, strictly increasing
  sequence numbers, a request may only append to it, and a page holds the first events after the
  cursor, all of them if it says that there are no more.
\<close>

definition after :: "u64 \<Rightarrow> event list \<Rightarrow> event list" where
  "after c events = filter (\<lambda>e. c < ev_sequence e) events"

definition well_ordered :: "event list \<Rightarrow> bool" where
  "well_ordered events \<longleftrightarrow> sorted_wrt (<) (0 # map ev_sequence events)"

definition serves_events ::
  "('s, 'u) client \<Rightarrow> 'u \<Rightarrow> string \<Rightarrow> string \<Rightarrow> ('s \<Rightarrow> event list) \<Rightarrow> bool" where
  "serves_events cl base tok session_id elog \<longleftrightarrow>
     (\<forall>s. well_ordered (elog s)) \<and>
     (\<forall>s request. prefix (elog s) (elog (fst (cl_api cl s request)))) \<and>
     (\<forall>s c s' replay. fetch_session cl base tok session_id c s = (s', Inr replay) \<longrightarrow>
        prefix (rsp_events replay) (after c (elog s')) \<and>
        (rsp_has_more replay \<or> rsp_events replay = after c (elog s')))"

text \<open>The client has followed the log up to a position.\<close>

definition followed :: "('s, 'u) client \<Rightarrow> event list \<Rightarrow> nat \<Rightarrow> 's drive_state \<Rightarrow> bool" where
  "followed cl events n st \<longleftrightarrow>
     n \<le> length events \<and> dr_cursor st = (0 # map ev_sequence events) ! n \<and>
     subseq (map (format_event (cl_display cl)) (take n events)) (dr_printed st)"

lemma well_ordered_less:
  "well_ordered events \<Longrightarrow> i < j \<Longrightarrow> j \<le> length events \<Longrightarrow>
   (0 # map ev_sequence events) ! i < (0 # map ev_sequence events) ! j"
  unfolding well_ordered_def by (rule sorted_wrt_nth_less) simp_all

lemma well_ordered_split:
  assumes "well_ordered events" "n \<le> length events"
  shows "after ((0 # map ev_sequence events) ! n) events = drop n events"
    "filter (\<lambda>e. ev_sequence e \<le> (0 # map ev_sequence events) ! n) events = take n events"
proof -
  let ?seqs = "0 # map ev_sequence events"
  note less = well_ordered_less [OF assms(1)]
  have early: "ev_sequence e \<le> ?seqs ! n" if e: "e \<in> set (take n events)" for e
  proof -
    obtain i where "i < length (take n events)" "take n events ! i = e" using e by (meson in_set_conv_nth)
    then show ?thesis using less [of "Suc i" n] assms(2) by (cases "Suc i = n") auto
  qed
  have late: "?seqs ! n < ev_sequence e" if e: "e \<in> set (drop n events)" for e
  proof -
    obtain i where "i < length (drop n events)" "drop n events ! i = e" using e by (meson in_set_conv_nth)
    then show ?thesis using less [of n "Suc (n + i)"] by simp
  qed
  have parts: "events = take n events @ drop n events" by simp
  show "after (?seqs ! n) events = drop n events"
    by (subst parts, unfold after_def filter_append) (use early late in \<open>auto simp: filter_empty_conv not_less\<close>)
  show "filter (\<lambda>e. ev_sequence e \<le> ?seqs ! n) events = take n events"
    by (subst parts, unfold filter_append) (use early late in \<open>auto simp: filter_empty_conv not_le\<close>)
qed

lemma followed_grows: "followed cl events n st \<Longrightarrow> prefix events events' \<Longrightarrow> followed cl events' n st"
  by (auto simp: followed_def prefix_def nth_append nth_Cons split: nat.split)

lemma followed_state:
  "followed cl events n st \<Longrightarrow> dr_cursor st' = dr_cursor st \<Longrightarrow> prefix (dr_printed st) (dr_printed st') \<Longrightarrow>
   followed cl events n st'"
  by (auto simp: followed_def prefix_def intro: subseq_order.trans)

lemma serves_appends: "serves_events cl base tok session_id elog \<Longrightarrow> appends cl elog"
  by (simp add: serves_events_def appends_def)

lemma cancel_and_return_cursor:
  "dr_cursor (fst (cancel_and_return cl base tok session_id script st)) = dr_cursor st"
  by (simp add: cancel_and_return_def abort_runner_def print_line_def split_beta
      split: option.split sum.split)

lemma cancel_and_return_followed:
  "serves_events cl base tok session_id elog \<Longrightarrow> followed cl (elog (dr_server st)) n st \<Longrightarrow>
   result = cancel_and_return cl base tok session_id script st \<Longrightarrow>
   followed cl (elog (dr_server (fst result))) n (fst result)"
  by (simp only:) (rule followed_state [OF followed_grows [OF _ cancel_and_return_grows [OF serves_appends]]
        cancel_and_return_cursor cancel_and_return_printed])

text \<open>Showing the next event of the log moves the position by one.\<close>

lemma handled_event_followed:
  fixes replay :: session_response and input :: prompt
  assumes serves: "serves_events cl base tok session_id elog"
    and followed: "followed cl (elog (dr_server st)) n st"
    and "prefix (e # rest) (drop n (elog (dr_server st)))"
  defines "st' \<equiv> handled_event cl base tok session_id replay e input st"
  shows "followed cl (elog (dr_server st')) (Suc n) st'" "prefix rest (drop (Suc n) (elog (dr_server st')))"
proof -
  let ?events = "elog (dr_server st)"
  from assms(3) obtain more where more: "drop n ?events = e # rest @ more" by (auto simp: prefix_def)
  then have n: "n < length ?events" by (metis drop_all list.discI not_le)
  have e: "?events ! n = e" using more n by (simp add: Cons_nth_drop_Suc [symmetric])
  have grows: "prefix ?events (elog (dr_server st'))" using after_approval_grows [OF serves_appends [OF serves]] by (simp add: st'_def)
  have "(0 # map ev_sequence ?events) ! n < ev_sequence e"
    using well_ordered_less [of ?events n "Suc n"] serves n e by (simp add: serves_events_def)
  then have "followed cl ?events (Suc n) st'"
    using followed n e by (auto simp: followed_def st'_def take_Suc_conv_app_nth max_def)
  then show "followed cl (elog (dr_server st')) (Suc n) st'" using followed_grows grows by blast
  have "drop (Suc n) ?events = rest @ more" using more n by (simp add: Cons_nth_drop_Suc [symmetric])
  then show "prefix rest (drop (Suc n) (elog (dr_server st')))"
    using grows n by (auto simp: prefix_def)
qed

lemma handle_events_followed:
  assumes serves: "serves_events cl base tok session_id elog"
  shows "followed cl (elog (dr_server st)) n st \<Longrightarrow> prefix (map fst evs) (drop n (elog (dr_server st))) \<Longrightarrow>
    result = handle_events cl base tok session_id replay script evs st \<Longrightarrow>
    \<exists>n'. followed cl (elog (dr_server (fst result))) n' (fst result) \<and>
      prefix (elog (dr_server st)) (elog (dr_server (fst result))) \<and>
      (snd result = PageDone \<longrightarrow> n' = n + length evs)"
proof (induction evs arbitrary: st n)
  case (Cons ei rest)
  obtain e input where ei: "ei = (e, input)" by fastforce
  let ?st = "shown_event cl base tok session_id replay e input st"
  let ?next = "handled_event cl base tok session_id replay e input st"
  note followed = Cons.prems(1) and result = Cons.prems(3) [unfolded ei]
  have page: "prefix (e # map fst rest) (drop n (elog (dr_server st)))" using Cons.prems(2) ei by simp
  have grows: "prefix (elog (dr_server st)) (elog (dr_server ?st))" by (simp add: after_approval_grows [OF serves_appends [OF serves]])
  have shown: "followed cl (elog (dr_server ?st)) n ?st"
    by (rule followed_state [OF followed_grows [OF followed grows]]) simp_all
  show ?case
  proof (rule handle_events_cases [of cl base tok session_id replay script e input rest st])
    assume eq: "handle_events cl base tok session_id replay script ((e, input) # rest) st =
      handle_events cl base tok session_id replay script rest ?next"
    from Cons.IH [OF handled_event_followed [OF serves followed page] result [unfolded eq]]
    show ?thesis using prefix_order.trans [OF grows] by auto
  next
    assume "input = Interrupt" and eq: "handle_events cl base tok session_id replay script ((e, input) # rest) st =
      cancel_and_return cl base tok session_id script ?st"
    have "snd result \<noteq> PageDone" unfolding result eq by (rule cancel_and_return_end)
    with cancel_and_return_followed [OF serves shown result [unfolded eq]]
      prefix_order.trans [OF grows cancel_and_return_grows [OF serves_appends [OF serves]]] show ?thesis unfolding result eq by blast
  next
    fix r assume "r \<noteq> PageDone" "handle_events cl base tok session_id replay script ((e, input) # rest) st = (?st, r)"
    with shown result grows show ?thesis by auto
  qed
qed auto

text \<open>
  A turn keeps a position.  It returns without an error only after an interrupt or when the last
  page was the last one and the session is finished; then the whole log has been followed.
\<close>

definition interrupted :: "turn \<Rightarrow> bool" where
  "interrupted t \<longleftrightarrow> turn_select t = CtrlC \<or> turn_fetch_interrupted t \<noteq> None \<or> Interrupt \<in> range (turn_prompts t)"

lemma handle_events_no_interrupt:
  "Interrupt \<notin> snd ` set evs \<Longrightarrow>
   snd (handle_events cl base tok session_id replay script evs st) \<noteq> PageReturns (Inr ())"
proof (induction evs arbitrary: st)
  case (Cons ei rest)
  obtain e input where ei: "ei = (e, input)" by fastforce
  show ?case unfolding ei
    by (rule handle_events_cases [of cl base tok session_id replay script e input rest st])
       (use Cons ei in auto)
qed simp

lemma page_followed:
  assumes serves: "serves_events cl base tok session_id elog" and followed: "followed cl (elog (dr_server st)) n st"
    and fetch: "fetch_session cl base tok session_id (dr_cursor st) (dr_server st) = (s, Inr replay)"
    and handled: "handled = handle_events cl base tok session_id replay script (zip (rsp_events replay) inputs)
      (st\<lparr>dr_server := s\<rparr>)" and inputs: "length inputs = length (rsp_events replay)"
  shows "\<exists>n'. followed cl (elog (dr_server (fst handled))) n' (fst handled)"
    "snd handled = PageDone \<Longrightarrow> \<not> rsp_has_more replay \<Longrightarrow>
      subseq (map (format_event (cl_display cl)) (elog s)) (dr_printed (fst handled))"
proof -
  let ?st = "st\<lparr>dr_server := s\<rparr>"
  have "prefix (elog (dr_server st)) (elog s)" using fetch_grows [OF serves_appends [OF serves]] fetch by (metis fst_conv)
  then have at: "followed cl (elog s) n st" using followed followed_grows by blast
  then have at': "followed cl (elog (dr_server ?st)) n ?st" by (simp add: followed_def)
  have "after (dr_cursor st) (elog s) = drop n (elog s)"
    using at well_ordered_split(1) [of "elog s" n] serves by (simp add: followed_def serves_events_def)
  then have page: "prefix (rsp_events replay) (drop n (elog s))"
      "rsp_has_more replay \<or> rsp_events replay = drop n (elog s)"
    using serves fetch unfolding serves_events_def by metis+
  have "prefix (map fst (zip (rsp_events replay) inputs)) (drop n (elog (dr_server ?st)))"
    using page(1) inputs by simp
  from handle_events_followed [OF serves at' this handled] obtain n' where
    n': "followed cl (elog (dr_server (fst handled))) n' (fst handled)" "prefix (elog s) (elog (dr_server (fst handled)))"
      "snd handled = PageDone \<longrightarrow> n' = n + length (zip (rsp_events replay) inputs)" by auto
  show "\<exists>n'. followed cl (elog (dr_server (fst handled))) n' (fst handled)" using n'(1) by blast
  assume "snd handled = PageDone" "\<not> rsp_has_more replay"
  then have "n' = length (elog s)" using n'(3) page(2) inputs at by (simp add: followed_def)
  then have "take n' (elog (dr_server (fst handled))) = elog s" using n'(2) by (auto simp: prefix_def)
  then show "subseq (map (format_event (cl_display cl)) (elog s)) (dr_printed (fst handled))"
    using n'(1) by (simp add: followed_def)
qed

lemma drive_turn_followed:
  assumes serves: "serves_events cl base tok session_id elog" and followed: "followed cl (elog (dr_server st)) n st"
    and result: "result = drive_turn cl base tok session_id t st"
  shows "\<exists>n'. followed cl (elog (dr_server (fst result))) n' (fst result)"
proof -
  have fetched: "followed cl (elog (fst (fetch_session cl base tok session_id (dr_cursor st) (dr_server st)))) n st"
    by (rule followed_grows [OF followed fetch_grows [OF serves_appends [OF serves]]])
  show ?thesis
  proof (rule drive_turn_cases [of cl base tok session_id t st])
    fix st' assume st': "drive_turn cl base tok session_id t st = cancel_and_return cl base tok session_id (turn_script t) st'"
      "dr_printed st' = dr_printed st" "dr_cursor st' = dr_cursor st"
      "dr_server st' \<in> {dr_server st, fst (fetch_session cl base tok session_id (dr_cursor st) (dr_server st))}"
    from st'(4) have "followed cl (elog (dr_server st')) n st"
      using followed fetched by (elim insertE emptyE) simp_all
    then have "followed cl (elog (dr_server st')) n st'" by (rule followed_state) (simp_all add: st'(2,3))
    from cancel_and_return_followed [OF serves this result [unfolded st'(1)]] show ?thesis ..
  next
    fix s err r assume "fetch_session cl base tok session_id (dr_cursor st) (dr_server st) = (s, Inl err)"
      "drive_turn cl base tok session_id t st = (st\<lparr>dr_server := s\<rparr>, r)"
    with fetched result show ?thesis by (auto simp: followed_def)
  next
    fix s and replay :: session_response
    let ?inputs = "map (turn_prompts t) [0..<length (rsp_events replay)]"
    let ?handled = "handle_events cl base tok session_id replay (turn_script t)
      (zip (rsp_events replay) ?inputs) (st\<lparr>dr_server := s\<rparr>)"
    assume s: "fetch_session cl base tok session_id (dr_cursor st) (dr_server st) = (s, Inr replay)"
      and "drive_turn cl base tok session_id t st = (case ?handled of
           (st, PageDone) \<Rightarrow>
             if \<not> rsp_has_more replay \<and> finished_status (ses_status (rsp_session replay))
             then (abort_runner st, PageReturns (Inr ())) else (st, PageDone)
         | (st, end') \<Rightarrow> (st, end'))"
    note state = page_state [OF this(2), folded result]
    have "length ?inputs = length (rsp_events replay)" by simp
    from page_followed(1) [OF serves followed s HOL.refl this]
    obtain n' where "followed cl (elog (dr_server (fst ?handled))) n' (fst ?handled)" ..
    then have "followed cl (elog (dr_server (fst result))) n' (fst result)" by (simp only: followed_def state)
    then show ?thesis ..
  qed (use result followed in auto)
qed

text \<open>A turn in which the loop ends normally: the server has said that the session is finished.\<close>

definition finishing_turn ::
  "('s, 'u) client \<Rightarrow> 'u \<Rightarrow> string \<Rightarrow> string \<Rightarrow> ('s \<Rightarrow> event list) \<Rightarrow> 's drive_state \<Rightarrow> string list \<Rightarrow> bool" where
  "finishing_turn cl base tok session_id elog st printed \<longleftrightarrow>
     (\<exists>s replay. fetch_session cl base tok session_id (dr_cursor st) (dr_server st) = (s, Inr replay) \<and>
        \<not> rsp_has_more replay \<and> finished_status (ses_status (rsp_session replay)) \<and>
        subseq (map (format_event (cl_display cl)) (elog s)) printed)"

lemma drive_turn_finishes:
  assumes serves: "serves_events cl base tok session_id elog" and followed: "followed cl (elog (dr_server st)) n st"
    and result: "result = drive_turn cl base tok session_id t st"
    and ok: "snd result = PageReturns (Inr ())" and calm: "\<not> interrupted t"
  shows "finishing_turn cl base tok session_id elog st (dr_printed (fst result))"
proof (rule drive_turn_cases [of cl base tok session_id t st])
  fix s and replay :: session_response
  let ?inputs = "map (turn_prompts t) [0..<length (rsp_events replay)]"
  let ?handled = "handle_events cl base tok session_id replay (turn_script t)
    (zip (rsp_events replay) ?inputs) (st\<lparr>dr_server := s\<rparr>)"
  assume s: "fetch_session cl base tok session_id (dr_cursor st) (dr_server st) = (s, Inr replay)"
    and turn: "drive_turn cl base tok session_id t st = (case ?handled of
         (st, PageDone) \<Rightarrow>
           if \<not> rsp_has_more replay \<and> finished_status (ses_status (rsp_session replay))
           then (abort_runner st, PageReturns (Inr ())) else (st, PageDone)
       | (st, end') \<Rightarrow> (st, end'))"
  have "Interrupt \<notin> snd ` set (zip (rsp_events replay) ?inputs)"
    using calm by (auto simp: interrupted_def set_zip)
  from handle_events_no_interrupt [OF this] have "snd ?handled \<noteq> PageReturns (Inr ())" .
  then have fin: "snd ?handled = PageDone" "\<not> rsp_has_more replay" "finished_status (ses_status (rsp_session replay))"
    using ok unfolding result turn by (auto simp: split_beta split: page_end.split_asm if_split_asm)
  have len: "length ?inputs = length (rsp_events replay)" by simp
  show ?thesis
    using page_followed(2) [OF serves followed s HOL.refl len fin(1,2)] s fin(2,3)
    unfolding finishing_turn_def page_state(2) [OF turn, folded result] by blast
next
  assume "turn_select t = CtrlC \<or> turn_fetch_interrupted t \<noteq> None"
  then show ?thesis using calm by (simp add: interrupted_def)
qed (use result ok in auto)

lemma drive_followed:
  assumes serves: "serves_events cl base tok session_id elog"
  shows "followed cl (elog (dr_server st)) n st \<Longrightarrow> result = drive cl base tok session_id turns st \<Longrightarrow>
    \<exists>n'. followed cl (elog (dr_server (fst result))) n' (fst result)"
proof (induction turns arbitrary: st n)
  case (Cons t ts)
  let ?turn = "drive_turn cl base tok session_id t st"
  obtain n' where n': "followed cl (elog (dr_server (fst ?turn))) n' (fst ?turn)"
    using drive_turn_followed [OF serves Cons.prems(1) HOL.refl] by blast
  consider "result = drive cl base tok session_id ts (fst ?turn)" | r where "result = (fst ?turn, r)"
    using Cons.prems(2) by (cases "snd ?turn") (simp_all add: drive_Cons)
  then show ?case by cases (use Cons.IH [OF n'] n' in auto)
qed auto

lemma drive_finishes:
  assumes serves: "serves_events cl base tok session_id elog"
  shows "followed cl (elog (dr_server st)) n st \<Longrightarrow> drive cl base tok session_id turns st = (st', Some (Inr ())) \<Longrightarrow>
    \<forall>t \<in> set turns. \<not> interrupted t \<Longrightarrow>
    \<exists>earlier t later st1. turns = earlier @ t # later \<and> drive cl base tok session_id earlier st = (st1, None) \<and>
      finishing_turn cl base tok session_id elog st1 (dr_printed st')"
proof (induction turns arbitrary: st n)
  case (Cons t ts)
  let ?turn = "drive_turn cl base tok session_id t st"
  have "\<not> interrupted t" using Cons.prems(3) by simp
  note finish = drive_turn_finishes [OF serves Cons.prems(1) HOL.refl _ this]
  obtain n' where n': "followed cl (elog (dr_server (fst ?turn))) n' (fst ?turn)"
    using drive_turn_followed [OF serves Cons.prems(1) HOL.refl] by blast
  consider (ended) "snd ?turn = PageReturns (Inr ())" "st' = fst ?turn"
    | (more) "snd ?turn \<in> {PageDone, PageRetry}" "drive cl base tok session_id ts (fst ?turn) = (st', Some (Inr ()))"
    using Cons.prems(2) by (cases "snd ?turn") (simp_all add: drive_Cons)
  then show ?case
  proof cases
    case ended
    then show ?thesis using finish by (intro exI [of _ "[]"] exI [of _ t] exI [of _ ts] exI [of _ st]) simp
  next
    case more
    from Cons.IH [OF n' more(2)] Cons.prems(3) obtain earlier t' later st1 where
      split: "ts = earlier @ t' # later" "drive cl base tok session_id earlier (fst ?turn) = (st1, None)"
        "finishing_turn cl base tok session_id elog st1 (dr_printed st')" by auto
    have "drive cl base tok session_id (t # earlier) st = (st1, None)"
      using more(1) split(2) by (auto simp: drive_Cons)
    with split(1,3) show ?thesis by (intro exI [of _ "t # earlier"] exI [of _ t'] exI [of _ later] exI [of _ st1]) simp
  qed
qed simp

text \<open>C19.  The client never loses an event of the session.  Whatever requests fail, and however often
  an approval has to be repeated, every event up to the cursor has been printed, in the order of the
  log; and the loop returns normally, unless interrupted, only after a page on which the server
  says that nothing follows and that the session is finished, with the whole log printed.\<close>

theorem events_never_lost:
  assumes "serves_events cl base tok session_id elog" "dr_cursor st = 0"
    "drive cl base tok session_id turns st = (st', outcome)"
  shows "subseq (map (format_event (cl_display cl))
           (filter (\<lambda>e. ev_sequence e \<le> dr_cursor st') (elog (dr_server st')))) (dr_printed st') \<and>
    (outcome = Some (Inr ()) \<and> (\<forall>t \<in> set turns. \<not> interrupted t) \<longrightarrow>
       (\<exists>earlier t later st1. turns = earlier @ t # later \<and> drive cl base tok session_id earlier st = (st1, None) \<and>
          finishing_turn cl base tok session_id elog st1 (dr_printed st')))"
proof (intro conjI impI)
  have start: "followed cl (elog (dr_server st)) 0 st" using assms(2) by (simp add: followed_def)
  obtain n where n: "followed cl (elog (dr_server st')) n st'"
    using drive_followed [OF assms(1) start HOL.refl, of turns] assms(3) by auto
  have "well_ordered (elog (dr_server st'))" using assms(1) by (simp add: serves_events_def)
  with n show "subseq (map (format_event (cl_display cl))
      (filter (\<lambda>e. ev_sequence e \<le> dr_cursor st') (elog (dr_server st')))) (dr_printed st')"
    using well_ordered_split(2) [of "elog (dr_server st')" n] by (simp add: followed_def)
  assume "outcome = Some (Inr ()) \<and> (\<forall>t \<in> set turns. \<not> interrupted t)"
  then show "\<exists>earlier t later st1. turns = earlier @ t # later \<and>
      drive cl base tok session_id earlier st = (st1, None) \<and>
      finishing_turn cl base tok session_id elog st1 (dr_printed st')"
    using drive_finishes [OF assms(1) start] assms(3) by blast
qed

section \<open>Consent\<close>

definition approves :: "'u http_request \<Rightarrow> bool" where
  "approves request \<longleftrightarrow> http_json request = Some (JObject [(''decision'', JString ''approved'')])"

lemma decision_approved:
  "decision_body answer = JObject [(''decision'', JString ''approved'')] \<longleftrightarrow>
   to_ascii_lowercase (trim answer) \<in> {''y'', ''yes''}"
  unfolding decision_body_def decision_def by simp

lemma api_request_Inr:
  "api_request cl verb base path tok body = Inr r \<Longrightarrow>
   endpoint (cl_urls cl) base path = Inr (http_url r) \<and> http_json r = body"
  by (auto simp: api_request_def split: sum.split_asm)

lemma answers_body:
  assumes "answers_approval cl base tok session_id replay e input request"
  shows "\<exists>answer. input = Line answer \<and> http_json request = Some (decision_body answer)"
  using assms unfolding answers_approval_def by (blast dest: api_request_Inr)

text \<open>
  The user has consented to the request at position \<open>j\<close> of the record.  One turn of the run fetched a page
  on which the \<open>n\<close>-th event asks for an approval that is still pending; when the events before it
  had been handled, and this one printed, the user entered \<open>y\<close> or \<open>yes\<close> at its prompt; and the
  request is the one made next, to the endpoint of that approval.
\<close>

definition consented ::
  "('s, 'u) client \<Rightarrow> 'u \<Rightarrow> string \<Rightarrow> string \<Rightarrow> ('s \<Rightarrow> 'u http_request list) \<Rightarrow> turn list \<Rightarrow>
   's drive_state \<Rightarrow> 's drive_state \<Rightarrow> nat \<Rightarrow> bool" where
  "consented cl base tok session_id log turns st st' j \<longleftrightarrow>
     (\<exists>earlier t later st1 replay n given approval_id answer.
        turns = earlier @ t # later \<and> drive cl base tok session_id earlier st = (st1, None) \<and>
        drive cl base tok session_id turns st = drive cl base tok session_id (t # later) st1 \<and>
        answers_turn cl base tok session_id log t st1 (dr_printed st') j replay n \<and>
        ev_kind (rsp_events replay ! n) = ''approval_requested'' \<and>
        get_str (ev_payload (rsp_events replay ! n)) ''approval_id'' = Some given \<and>
        ses_pending_approval_id (rsp_session replay) = Some given \<and>
        given \<notin> resolved_approvals (rsp_events replay) \<and>
        parse_id (cl_ids cl) given ''approval'' = Inr approval_id \<and>
        turn_prompts t n = Line answer \<and> to_ascii_lowercase (trim answer) \<in> {''y'', ''yes''} \<and>
        endpoint (cl_urls cl) base (''api/sessions/'' @ session_id @ ''/approvals/'' @ approval_id) =
          Inr (http_url (log (dr_server st') ! j)))"

text \<open>C18.  Nothing is approved without consent.  Every request of a run that approves something is
  the answer to one event of a page that the run fetched, at the moment when the events before
  it had been handled: the event asks for an approval which the page shows as still pending, it
  has been printed, the user has entered \<open>y\<close> or \<open>yes\<close> at the prompt of this very event, and the request
  goes to the endpoint of this approval.  An empty line, an end of input, an interrupt and a
  retry never approve.\<close>

theorem approvals_need_consent:
  assumes "records cl log" "drive cl base tok session_id turns st = (st', outcome)"
    and "length (log (dr_server st)) \<le> j" "j < length (log (dr_server st'))" "approves (log (dr_server st') ! j)"
  shows "consented cl base tok session_id log turns st st' j"
proof -
  let ?r = "log (dr_server st') ! j"
  have "new_request log (dr_server st) (dr_server (fst (st', outcome))) j"
    using assms(3-5) by (simp add: new_request_def approves_def)
  from drive_answered [OF assms(1) assms(2) [symmetric] this] obtain earlier t later st1 replay n where
    run: "turns = earlier @ t # later" "drive cl base tok session_id earlier st = (st1, None)"
      "drive cl base tok session_id turns st = drive cl base tok session_id (t # later) st1"
      "answers_turn cl base tok session_id log t st1 (dr_printed st') j replay n"
    and ans: "answers_approval cl base tok session_id replay (rsp_events replay ! n) (turn_prompts t n) ?r"
    unfolding assms(2) fst_conv by blast
  from ans obtain given approval_id answer where
    e: "ev_kind (rsp_events replay ! n) = ''approval_requested''" "pending_approval replay (rsp_events replay ! n)"
      "get_str (ev_payload (rsp_events replay ! n)) ''approval_id'' = Some given"
      "parse_id (cl_ids cl) given ''approval'' = Inr approval_id" "turn_prompts t n = Line answer"
    and request: "api_request cl Post base (''api/sessions/'' @ session_id @ ''/approvals/'' @ approval_id) tok
          (Some (decision_body answer)) = Inr ?r"
    unfolding answers_approval_def by blast
  have url: "endpoint (cl_urls cl) base (''api/sessions/'' @ session_id @ ''/approvals/'' @ approval_id) =
      Inr (http_url ?r)" and "http_json ?r = Some (decision_body answer)"
    using api_request_Inr [OF request] by blast+
  then have yes: "to_ascii_lowercase (trim answer) \<in> {''y'', ''yes''}"
    using assms(5) by (simp only: approves_def option.inject decision_approved)
  have pending: "ses_pending_approval_id (rsp_session replay) = Some given" "given \<notin> resolved_approvals (rsp_events replay)"
    using e(2) unfolding pending_approval_def e(3) by simp_all
  show ?thesis
    unfolding consented_def
    by (intro exI conjI) (fact run(1), fact run(2), fact run(3), fact run(4), fact e(1), fact e(3), fact pending(1),
        fact pending(2), fact e(4), fact e(5), fact yes, fact url)
qed

section \<open>Errors\<close>

definition redacted :: "string \<Rightarrow> session_cli_error \<Rightarrow> bool" where
  "redacted tok err \<longleftrightarrow> (\<exists>message. (err = Api message \<or> err = ApiUnavailable message) \<and> \<not> str_contains tok message)"

text \<open>The errors of an operation on a path: redacted, or raised before there was a request because
  the path does not join to the base URL.\<close>

definition safe_error :: "('s, 'u) client \<Rightarrow> 'u \<Rightarrow> string \<Rightarrow> string \<Rightarrow> session_cli_error \<Rightarrow> bool" where
  "safe_error cl base path tok err \<longleftrightarrow> redacted tok err \<or> endpoint (cl_urls cl) base path = Inl err"

lemma request_json_redacted:
  assumes "tok \<noteq> []" "CHR ''['' \<notin> set tok" "CHR '']'' \<notin> set tok" "\<not> str_contains tok ''REDACTED''"
    and "request_json cl s request tok = (s', Inl err)"
  shows "redacted tok err"
proof -
  have "\<not> str_contains tok (redact message tok)" for message
    using redaction_removes [OF assms(1-4)] assms(1) by (simp add: redact_def)
  moreover have "\<exists>message. err = Api (redact message tok) \<or> err = ApiUnavailable (redact message tok)"
    using assms(5) unfolding request_json_def api_error_def api_unavailable_def split_beta
    by (simp only: prod.inject split: sum.split_asm body_error.split_asm if_split_asm) blast+
  ultimately show ?thesis unfolding redacted_def by blast
qed

lemma call_api_safe:
  assumes "tok \<noteq> []" "CHR ''['' \<notin> set tok" "CHR '']'' \<notin> set tok" "\<not> str_contains tok ''REDACTED''"
    and "call_api cl (api_request cl verb base path tok body) tok s = (s', Inl err)"
  shows "safe_error cl base path tok err"
  using request_json_redacted [OF assms(1-4)] assms(5)
  by (auto simp: call_api_def api_request_def safe_error_def split: sum.split_asm)

text \<open>C37.  The messages of failed requests do not show the token.  Let the token be non-empty,
  without square brackets and not a part of the word \<open>REDACTED\<close>, since otherwise the text that
  replaces it could show it.  Then, whatever the transport says, whatever the server answers
  and whatever the JSON parser says of it, the error of a request, and so that of
  submitting a message, of cancelling and of fetching a session, does not contain the
  token, unless there was no request because its path does not join to the base URL.  For
  fetching one error is excepted: what the decoder says of a well-formed JSON value that is
  not a session response is shown as it is.\<close>

theorem api_errors_redacted:
  assumes "tok \<noteq> []" "CHR ''['' \<notin> set tok" "CHR '']'' \<notin> set tok" "\<not> str_contains tok ''REDACTED''"
  shows "(request_json cl s request tok = (s', Inl err) \<longrightarrow> redacted tok err) \<and>
    (submit_message cl base tok id' content' key s = (s', Inl err) \<longrightarrow>
       safe_error cl base (''api/sessions/'' @ id' @ ''/messages'') tok err) \<and>
    (cancel_session cl base tok id' s = (s', Inl err) \<longrightarrow>
       safe_error cl base (''api/sessions/'' @ id' @ ''/cancel'') tok err) \<and>
    (fetch_session cl base tok id' cursor s = (s', Inl err) \<longrightarrow>
       safe_error cl base (''api/sessions/'' @ id' @ ''?after_sequence='' @ show_nat (unat cursor)) tok err \<or>
       (\<exists>value e. cl_response_from_value cl value = Inl e \<and> err = Api (''invalid session response: '' @ e)))"
proof -
  note safe = call_api_safe [OF assms]
  have submit: "safe_error cl base (''api/sessions/'' @ id' @ ''/messages'') tok err"
    if "submit_message cl base tok id' content' key s = (s', Inl err)"
    by (rule safe) (use that in \<open>unfold submit_message_def, simp only: split: prod.split_asm sum.split_asm, auto\<close>)
  have cancel: "safe_error cl base (''api/sessions/'' @ id' @ ''/cancel'') tok err"
    if "cancel_session cl base tok id' s = (s', Inl err)"
    by (rule safe) (use that in \<open>unfold cancel_session_def, simp only: split: prod.split_asm sum.split_asm, auto\<close>)
  have fetch: "safe_error cl base (''api/sessions/'' @ id' @ ''?after_sequence='' @ show_nat (unat cursor)) tok err \<or>
       (\<exists>value e. cl_response_from_value cl value = Inl e \<and> err = Api (''invalid session response: '' @ e))"
    if fetch: "fetch_session cl base tok id' cursor s = (s', Inl err)"
  proof -
    let ?call = "call_api cl (api_request cl Get base
      (''api/sessions/'' @ id' @ ''?after_sequence='' @ show_nat (unat cursor)) tok None) tok s"
    consider "?call = (s', Inl err)"
      | v e where "cl_response_from_value cl v = Inl e" "err = Api (''invalid session response: '' @ e)"
      using fetch unfolding fetch_session_def
      by (cases ?call) (simp only: prod.case split: sum.split_asm, auto)
    then show ?thesis
    proof cases
      case 1
      then show ?thesis by (intro disjI1) (rule safe)
    qed blast
  qed
  show ?thesis
    by (intro conjI impI) (erule request_json_redacted [OF assms], erule submit, erule cancel, erule fetch)
qed

section \<open>Retries\<close>

text \<open>C31.  A request is repeated until the API answers: if the first \<open>k\<close> attempts find it unavailable and
  the next one does not, and the runner lives on, then \<open>retry_api\<close> returns after exactly these attempts,
  with the result of the last; it never returns that the API is unavailable.\<close>

theorem retry_api_terminates:
  assumes "\<forall>j < k. unavailable (snd (operation (after_attempts operation j s)))"
    and "\<not> unavailable (snd (operation (after_attempts operation k s)))"
  shows "retry_api operation (replicate (2 * k + 1) Proceed @ rest) s =
      (after_attempts operation (Suc k) s, Some (snd (operation (after_attempts operation k s)))) \<and>
    (\<forall>script r. snd (retry_api operation script s) = Some r \<longrightarrow> \<not> unavailable r)"
  by (intro conjI allI impI) (rule retry_api_returns [OF assms], rule retry_api_available)

text \<open>The idempotency key of a request.\<close>

definition request_key :: "'u http_request \<Rightarrow> string option" where
  "request_key request = Option.bind (http_json request) (\<lambda>body. get_str body ''client_request_id'')"

lemma request_key_None:
  "answers_approval cl base tok session_id replay e input r \<Longrightarrow> request_key r = None"
  using answers_body [of cl base tok session_id replay e input r]
  by (auto simp: request_key_def decision_body_def get_str_def)

lemma drive_keyless:
  assumes "records cl log" "result = drive cl base tok session_id turns st"
  shows "\<exists>rest. log (dr_server (fst result)) = log (dr_server st) @ rest \<and> (\<forall>r \<in> set rest. request_key r = None)"
proof -
  obtain rest where rest: "log (dr_server (fst result)) = log (dr_server st) @ rest"
    using drive_grows [OF records_appends [OF assms(1)]] unfolding assms(2) prefix_def by blast
  have "request_key (rest ! i) = None" if i: "i < length rest" for i
  proof (cases "bodyless (rest ! i)")
    case False
    let ?j = "length (log (dr_server st)) + i"
    have "new_request log (dr_server st) (dr_server (fst result)) ?j" "log (dr_server (fst result)) ! ?j = rest ! i"
      using i rest False by (simp_all add: new_request_def)
    with drive_answered [OF assms] show ?thesis using request_key_None by fastforce
  qed (simp add: request_key_def)
  with rest show ?thesis by (metis in_set_conv_nth)
qed

text \<open>Retrying an operation that sends one fixed request, or none, repeats this request.\<close>

lemma retry_log:
  assumes "\<And>s. log (fst (operation s)) = log s @ (case request of Inl _ \<Rightarrow> [] | Inr r \<Rightarrow> [r])"
  shows "\<exists>n. log (fst (retry_api operation script s)) =
    log s @ (case request of Inl _ \<Rightarrow> [] | Inr r \<Rightarrow> replicate n r)"
proof (rule retry_api_invariant [where I = "\<lambda>s'. \<exists>n. log s' = log s @ (case request of Inl _ \<Rightarrow> [] | Inr r \<Rightarrow> replicate n r)"])
  fix s'
  assume "\<exists>n. log s' = log s @ (case request of Inl _ \<Rightarrow> [] | Inr r \<Rightarrow> replicate n r)"
  then obtain n where n: "log s' = log s @ (case request of Inl _ \<Rightarrow> [] | Inr r \<Rightarrow> replicate n r)" ..
  show "\<exists>n. log (fst (operation s')) = log s @ (case request of Inl _ \<Rightarrow> [] | Inr r \<Rightarrow> replicate n r)"
    by (intro exI [of _ "Suc n"]) (simp add: assms n replicate_append_same split: sum.split)
qed (auto intro!: exI [of _ 0] split: sum.split)

definition message_request ::
  "('s, 'u) client \<Rightarrow> 'u \<Rightarrow> string \<Rightarrow> string \<Rightarrow> string \<Rightarrow> string \<Rightarrow> session_cli_error + 'u http_request" where
  "message_request cl base tok id' content' client_request_id =
     api_request cl Post base (''api/sessions/'' @ id' @ ''/messages'') tok
       (Some (JObject [(''client_request_id'', JString client_request_id), (''content'', JString content')]))"

lemma submit_message_log:
  assumes "records cl log"
  shows "log (fst (submit_message cl base tok id' content' key s)) =
    log s @ (case message_request cl base tok id' content' key of Inl _ \<Rightarrow> [] | Inr r \<Rightarrow> [r])"
proof -
  have "fst (submit_message cl base tok id' content' key s) =
      fst (call_api cl (message_request cl base tok id' content' key) tok s)"
    unfolding submit_message_def message_request_def by (simp only: split_beta fst_conv simp_thms split: sum.split)
  then show ?thesis by (simp only: call_api_log [OF assms])
qed

lemma message_request_key:
  "message_request cl base tok id' content' key = Inr r \<Longrightarrow> request_key r = Some key"
  unfolding message_request_def api_request_def
  by (simp only: split: sum.split_asm) (auto simp: request_key_def get_str_def)

lemma create_payload_key: "get_str (create_payload opts rid key) ''client_request_id'' = Some key"
  by (simp add: create_payload_def get_str_def)

lemma drive_start_server [simp]: "dr_server (drive_start s) = s"
  by (simp add: drive_start_def)

text \<open>Announcing and following a session sends no request with a key.\<close>

lemma announce_and_drive_log:
  assumes "records cl log"
  shows "\<exists>rest. log (dr_server (fst (announce_and_drive cl base tok session_id turns s))) = log s @ rest \<and>
    (\<forall>r \<in> set rest. request_key r = None)"
proof (cases "browser_url (cl_urls cl) base session_id")
  case (Inl e)
  then show ?thesis by (simp add: announce_and_drive_def drive_start_def)
next
  case (Inr url)
  let ?st = "print_line (''Session: '' @ url_as_str (cl_urls cl) url) (drive_start s)"
  let ?result = "drive cl base tok session_id turns ?st"
  have state: "fst (announce_and_drive cl base tok session_id turns s) = fst ?result"
    unfolding announce_and_drive_def Inr sum.case by (simp only: split_beta fst_conv simp_thms split: option.split)
  have "dr_server ?st = s" by (simp add: print_line_def drive_start_def)
  with drive_keyless [OF assms HOL.refl, of base tok session_id turns ?st] show ?thesis unfolding state by simp
qed

text \<open>The requests of a start: copies of one creation, copies of one message, and requests without a key.\<close>

definition keyed_requests :: "string \<Rightarrow> string \<Rightarrow> 'u http_request list \<Rightarrow> bool" where
  "keyed_requests create_key message_key new \<longleftrightarrow>
     (\<exists>i create j message rest. new = replicate i create @ replicate j message @ rest \<and>
        (0 < i \<longrightarrow> request_key create = Some create_key) \<and> (0 < j \<longrightarrow> request_key message = Some message_key) \<and>
        (\<forall>r \<in> set rest. request_key r = None))"

lemma start_log:
  assumes log: "records cl log"
    and hosted: "host_runner (cl_urls cl) (start_common opts) h = (aborted, Inr (base, rid))"
    and create: "api_request cl Post base ''api/sessions'' (opt_token (start_common opts))
      (Some (create_payload opts rid create_key)) = Inr create"
  shows "\<exists>new. log (dr_server (fst (cli_start cl opts h create_key message_key create_script message_script turns s))) =
    log s @ new \<and> keyed_requests create_key message_key new"
proof -
  let ?tok = "opt_token (start_common opts)"
  let ?result = "cli_start cl opts h create_key message_key create_script message_script turns s"
  obtain s1 r1 where r1: "retry_api (\<lambda>s. request_json cl s create ?tok) create_script s = (s1, r1)" by fastforce
  have key: "request_key create = Some create_key"
    using create create_payload_key unfolding api_request_def
    by (auto simp: request_key_def split: sum.split_asm)
  have "\<exists>n. log s1 = log s @ (case Inr create of Inl _ \<Rightarrow> [] | Inr r \<Rightarrow> replicate n r)"
    using retry_log [of log "\<lambda>s. request_json cl s create ?tok" "Inr create" create_script s]
    by (simp add: r1 request_json_log [OF log])
  then obtain i where i: "log s1 = log s @ replicate i create" by auto
  have only_create: ?thesis if "dr_server (fst ?result) = s1"
    using i key that unfolding keyed_requests_def by (intro exI [of _ "replicate i create"]) fastforce
  note eq = cli_start_def [of cl opts h create_key message_key create_script message_script turns s,
    unfolded hosted prod.case sum.case Let_def create r1]
  show ?thesis
  proof (cases "\<exists>response ses. r1 = Some (Inr response) \<and> cl_session_from_value cl (json_index response ''session'') = Inr ses")
    case False
    then have "dr_server (fst ?result) = s1"
      by (auto simp: eq split: option.split sum.split)
    then show ?thesis by (rule only_create)
  next
    case True
    then obtain response ses where ses: "r1 = Some (Inr response)"
      "cl_session_from_value cl (json_index response ''session'') = Inr ses" by blast
    let ?submit = "submit_message cl base ?tok (ses_id ses) (start_task opts) message_key"
    let ?message = "message_request cl base ?tok (ses_id ses) (start_task opts) message_key"
    obtain s2 r2 where r2: "retry_api ?submit message_script s1 = (s2, r2)" by fastforce
    have n: "\<exists>n. log s2 = log s1 @ (case ?message of Inl _ \<Rightarrow> [] | Inr r \<Rightarrow> replicate n r)"
      using retry_log [of log ?submit ?message message_script s1] by (simp add: r2 submit_message_log [OF log])
    have "\<exists>j message. log s2 = log s1 @ replicate j message \<and> (0 < j \<longrightarrow> request_key message = Some message_key)"
    proof (cases ?message)
      case (Inl err)
      with n show ?thesis by (intro exI [of _ 0]) simp
    next
      case (Inr r)
      with n message_request_key [OF Inr] show ?thesis by auto
    qed
    then obtain j message where j: "log s2 = log s1 @ replicate j message"
      "0 < j \<longrightarrow> request_key message = Some message_key" by blast
    note eq = eq [unfolded ses option.case sum.case r2 prod.case]
    have "\<exists>rest. log (dr_server (fst ?result)) = log s2 @ rest \<and> (\<forall>r \<in> set rest. request_key r = None)"
      unfolding eq using announce_and_drive_log [OF log]
      by (cases r2) (simp_all split: sum.split)
    then show ?thesis using i j key unfolding keyed_requests_def by (metis append.assoc)
  qed
qed

text \<open>C30.  Starting a session is safe to retry: whatever fails, all the attempts to create the
  session are copies of one request and all the attempts to submit the task are copies of one
  request, each with its own idempotency key, and no other request carries a key.\<close>

theorem start_retries_are_copies:
  assumes "records cl log"
    and "cli_start cl opts h create_key message_key create_script message_script turns s = (st', outcome)"
  shows "\<exists>new. log (dr_server st') = log s @ new \<and> keyed_requests create_key message_key new"
proof (cases "snd (host_runner (cl_urls cl) (start_common opts) h)")
  case (Inl e)
  then have "dr_server st' = s"
    using assms(2) unfolding cli_start_def by (simp add: split_beta drive_start_def) (metis drive_state.simps(1,8))
  then show ?thesis by (simp add: keyed_requests_def)
next
  case (Inr hosted)
  obtain aborted base rid where hosted: "host_runner (cl_urls cl) (start_common opts) h = (aborted, Inr (base, rid))"
    using Inr by (metis prod.collapse)
  show ?thesis
  proof (cases "api_request cl Post base ''api/sessions'' (opt_token (start_common opts))
      (Some (create_payload opts rid create_key))")
    case (Inl e)
    then have "dr_server st' = s"
      using assms(2) unfolding cli_start_def hosted Let_def by (auto simp: drive_start_def)
    then show ?thesis by (simp add: keyed_requests_def)
  next
    case (Inr create)
    from start_log [OF assms(1) hosted Inr, of message_key create_script message_script turns s] assms(2)
    show ?thesis by simp
  qed
qed

section \<open>Witnesses\<close>

text \<open>An API with one event, a pending approval, and a user who answers \<open>Yes\<close>.\<close>

definition demo_approval :: event where
  "demo_approval = \<lparr>ev_sequence = 1, ev_kind = ''approval_requested'',
     ev_payload = JObject [(''approval_id'', JString ''r''), (''name'', JString ''stop_command'')]\<rparr>"

definition demo_session :: session where
  "demo_session = \<lparr>ses_id = ''s'', ses_runner_id = ''r'', ses_status = ''idle'', ses_pending_approval_id = Some ''r''\<rparr>"

definition demo_api :: "(string http_request list, string) client" where
  "demo_api =
     \<lparr>cl_urls = demo_urls, cl_ids = demo_ids, cl_from_slice = (\<lambda>body. Inr (JBool (body = []))),
      cl_session_from_value = (\<lambda>_. Inr demo_session),
      cl_response_from_value = (\<lambda>v. Inr \<lparr>rsp_session = demo_session,
         rsp_events = (if v = JBool True then [demo_approval] else []), rsp_has_more = False\<rparr>),
      cl_display = (\<lambda>_. ''null''), cl_status_text = (\<lambda>_. ''status''),
      cl_api = (\<lambda>log request. (log @ [request], Inr \<lparr>http_status = 200, http_content_length = None,
         http_chunks = [Inr (if http_url request = ''/api/sessions/s?after_sequence=0'' then [] else ''{}'')]\<rparr>))\<rparr>"

definition demo_turn :: turn where
  "demo_turn = \<lparr>turn_select = Tick, turn_fetch_interrupted = None, turn_prompts = (\<lambda>_. Line ''Yes''),
     turn_script = []\<rparr>"

definition demo_answer :: "string http_request" where
  "demo_answer = \<lparr>http_method = Post, http_url = ''/api/sessions/s/approvals/r'', http_bearer = ''t'',
      http_json = Some (JObject [(''decision'', JString ''approved'')])\<rparr>"

lemma demo_call:
  "call_api demo_api (Inr request) tok log =
     (log @ [request], Inr (JBool (http_url request = ''/api/sessions/s?after_sequence=0'')))"
  by (simp add: call_api_def request_json_def demo_api_def is_success_def MAX_RESPONSE_BYTES_def
      saturating_add_def usize_max_def)

definition demo_fetch :: "u64 \<Rightarrow> string http_request" where
  "demo_fetch c = \<lparr>http_method = Get, http_url = ''/api/sessions/s?after_sequence='' @ show_nat (unat c),
     http_bearer = ''t'', http_json = None\<rparr>"

definition demo_page :: "u64 \<Rightarrow> session_response" where
  "demo_page c = \<lparr>rsp_session = demo_session, rsp_events = (if c = 0 then [demo_approval] else []), rsp_has_more = False\<rparr>"

lemma demo_fetch_session:
  "fetch_session demo_api ''/'' ''t'' ''s'' c log = (log @ [demo_fetch c], Inr (demo_page c))"
proof -
  have r: "api_request demo_api Get ''/'' (''api/sessions/'' @ ''s'' @ ''?after_sequence='' @ show_nat (unat c)) ''t'' None =
      Inr (demo_fetch c)"
    by (simp add: api_request_def endpoint_def demo_api_def demo_urls_def demo_fetch_def)
  have "show_nat 0 = ''0''" by code_simp
  then have "http_url (demo_fetch c) = ''/api/sessions/s?after_sequence=0'' \<longleftrightarrow> c = 0"
    using show_nat_inject [of "unat c" 0] by (simp add: demo_fetch_def unat_eq_0)
  then show ?thesis
    unfolding fetch_session_def r demo_call by (simp add: demo_api_def demo_page_def)
qed

lemma demo_resolve:
  "resolve_approval demo_api ''/'' ''t'' ''s'' demo_approval (Line ''Yes'') log = (log @ [demo_answer], Inr True)"
proof -
  have r: "api_request demo_api Post ''/'' (''api/sessions/'' @ ''s'' @ ''/approvals/'' @ ''r'') ''t'' (Some (decision_body ''Yes'')) =
      Inr demo_answer"
    by (simp add: api_request_def endpoint_def demo_api_def demo_urls_def demo_answer_def) code_simp
  have "get_str (ev_payload demo_approval) ''approval_id'' = Some ''r''" "parse_id (cl_ids demo_api) ''r'' ''approval'' = Inr ''r''"
    by (simp_all add: demo_approval_def get_str_def parse_id_def demo_api_def demo_ids_def)
  with r show ?thesis by (simp only: resolve_approval_def option.case sum.case prompt.case demo_call prod.case)
qed

definition demo_final :: "string http_request list drive_state" where
  "demo_final = \<lparr>dr_server = [demo_fetch 0, demo_answer], dr_cursor = 1,
     dr_printed = [format_event (cl_display demo_api) demo_approval], dr_aborted = True\<rparr>"

lemma demo_run: "drive demo_api ''/'' ''t'' ''s'' [demo_turn] (drive_start []) = (demo_final, Some (Inr ()))"
proof -
  have p: "pending_approval (demo_page 0) demo_approval" "ev_kind demo_approval = ''approval_requested''" "ev_sequence demo_approval = 1"
    by (simp_all add: pending_approval_def demo_approval_def demo_page_def get_str_def demo_session_def resolved_approvals_def map_filter_def)
  have f: "finished_status (ses_status (rsp_session (demo_page 0)))" "\<not> rsp_has_more (demo_page 0)" "rsp_events (demo_page 0) = [demo_approval]"
    by (simp_all add: finished_status_def demo_page_def demo_session_def)
  show ?thesis
    by (simp add: drive_Cons drive_turn_def demo_turn_def demo_fetch_session f drive_start_def Let_def print_line_def
        demo_resolve p demo_final_def abort_runner_def)
qed

lemma demo_serves: "serves_events demo_api ''/'' ''t'' ''s'' (\<lambda>_. [demo_approval])"
proof -
  have "demo_page c = replay \<Longrightarrow> rsp_events replay = after c [demo_approval]" for c replay
    using word_coorder.not_eq_extremum [of c] by (auto simp: demo_page_def after_def demo_approval_def unat_eq_0 word_less_nat_alt word_le_nat_alt)
  then show ?thesis
    unfolding serves_events_def demo_fetch_session by (auto simp: well_ordered_def demo_approval_def)
qed

lemma demo_records: "records demo_api (\<lambda>log. log)"
  by (simp add: records_def demo_api_def)

theorem events_never_lost_witness:
  "drive demo_api ''/'' ''t'' ''s'' [demo_turn] (drive_start []) = (demo_final, Some (Inr ())) \<and>
   subseq (map (format_event (cl_display demo_api)) [demo_approval]) (dr_printed demo_final) \<and>
   finishing_turn demo_api ''/'' ''t'' ''s'' (\<lambda>_. [demo_approval]) (drive_start []) (dr_printed demo_final)"
proof -
  have c: "dr_cursor (drive_start []) = 0" "\<forall>t \<in> set [demo_turn]. \<not> interrupted t"
    by (auto simp: drive_start_def interrupted_def demo_turn_def)
  note lost = events_never_lost [OF demo_serves c(1) demo_run]
  have all: "filter (\<lambda>e. ev_sequence e \<le> dr_cursor demo_final) [demo_approval] = [demo_approval]"
    by (simp add: demo_final_def demo_approval_def)
  from lost c(2) obtain earlier t later st1 where one: "[demo_turn] = earlier @ t # later"
    "drive demo_api ''/'' ''t'' ''s'' earlier (drive_start []) = (st1, None)"
    "finishing_turn demo_api ''/'' ''t'' ''s'' (\<lambda>_. [demo_approval]) st1 (dr_printed demo_final)" by blast
  have "earlier = []" using one(1) by (cases earlier) auto
  with one have "finishing_turn demo_api ''/'' ''t'' ''s'' (\<lambda>_. [demo_approval]) (drive_start []) (dr_printed demo_final)"
    by simp
  with demo_run conjunct1 [OF lost, unfolded all] show ?thesis by blast
qed

theorem approvals_need_consent_witness:
  "drive demo_api ''/'' ''t'' ''s'' [demo_turn] (drive_start []) = (demo_final, Some (Inr ())) \<and>
   dr_server demo_final ! 1 = demo_answer \<and> approves demo_answer \<and>
   consented demo_api ''/'' ''t'' ''s'' (\<lambda>log. log) [demo_turn] (drive_start []) demo_final 1"
proof -
  have final: "dr_server demo_final = [demo_fetch 0, demo_answer]" by (simp add: demo_final_def)
  have a: "approves demo_answer" by (simp add: approves_def demo_answer_def)
  have "consented demo_api ''/'' ''t'' ''s'' (\<lambda>log. log) [demo_turn] (drive_start []) demo_final 1"
    by (rule approvals_need_consent [OF demo_records demo_run]) (simp_all add: final a drive_start_def)
  with final a demo_run show ?thesis by simp
qed

theorem api_errors_redacted_witness:
  "\<exists>err. cancel_session (demo_api\<lparr>cl_api := \<lambda>log request. (log, Inl (''refused: '' @ http_bearer request))\<rparr>)
     ''/'' ''t'' ''s'' [] = ([], Inl err) \<and> redacted ''t'' err"
proof -
  let ?api = "demo_api\<lparr>cl_api := \<lambda>log request. (log, Inl (''refused: '' @ http_bearer request))\<rparr>"
  have e: "endpoint (cl_urls demo_api) ''/'' path = Inr (''/'' @ path)" for path
    by (simp add: endpoint_def demo_api_def demo_urls_def)
  have r: "cancel_session ?api ''/'' ''t'' ''s'' [] = ([], Inl (ApiUnavailable (redact ''refused: t'' ''t'')))"
    by (simp add: cancel_session_def call_api_def api_request_def e request_json_def api_unavailable_def)
  have "\<not> str_contains ''t'' ''REDACTED''" by code_simp
  with api_errors_redacted [of "''t''" ?api _ _ _ _ "''/''" "''s''"] r e show ?thesis
    by (auto simp: safe_error_def)
qed

text \<open>The API is unavailable twice and then answers.\<close>

definition demo_flaky :: "nat \<Rightarrow> nat \<times> (session_cli_error + string)" where
  "demo_flaky s = (Suc s, if s < 2 then Inl (ApiUnavailable ''refused'') else Inr ''pong'')"

theorem retry_api_terminates_witness:
  "retry_api demo_flaky (replicate 5 Proceed @ []) 0 = (3, Some (Inr ''pong''))"
proof -
  have state: "after_attempts demo_flaky j s = s + j" for j s
    by (induction j) (simp_all add: demo_flaky_def)
  have tries: "\<forall>j < 2. unavailable (snd (demo_flaky (after_attempts demo_flaky j 0)))"
    "\<not> unavailable (snd (demo_flaky (after_attempts demo_flaky 2 0)))"
    unfolding state by (simp_all add: demo_flaky_def unavailable_def)
  have last: "snd (demo_flaky (0 + 2)) = Inr ''pong''" by (simp add: demo_flaky_def)
  have "2 * 2 + 1 = (5::nat)" "0 + Suc 2 = (3::nat)" by simp_all
  from conjunct1 [OF retry_api_terminates [OF tries, of "[]"], unfolded state last this] show ?thesis .
qed

definition demo_options :: start_options where
  "demo_options = \<lparr>start_common = \<lparr>opt_control_plane = ''/'', opt_token = ''t'', opt_workspace = ''/w''\<rparr>,
     start_task = ''fix'', start_title = None, start_model = None, start_approval_policy = ''ask''\<rparr>"

definition demo_hosting :: "unit hosting" where
  "demo_hosting = \<lparr>host_discovered = Inr demo_workspace, host_boot = BootReady ''r'', host_built = Inr ()\<rparr>"

lemma demo_started:
  "\<exists>st'. cli_start demo_api demo_options demo_hosting ''k1'' ''k2'' [Proceed] [Proceed] [] [] = (st', CliWaits) \<and>
     map request_key (dr_server st') = [Some ''k1'', Some ''k2'']"
proof -
  have "trim ''t'' = ''t''" by code_simp
  then have h: "host_runner (cl_urls demo_api) (start_common demo_options) demo_hosting = (False, Inr (''/'', ''r''))"
    by (simp add: host_runner_def demo_options_def demo_hosting_def cli_validate_base_url_def demo_api_def demo_urls_def
        ends_with_char_def)
  have url: "api_request demo_api Post ''/'' path ''t'' body = Inr \<lparr>http_method = Post, http_url = ''/'' @ path,
      http_bearer = ''t'', http_json = body\<rparr>" for path body
    by (simp add: api_request_def endpoint_def demo_api_def demo_urls_def)
  note call = demo_call [unfolded call_api_def sum.case]
  have ses: "cl_session_from_value demo_api v = Inr demo_session" "ses_id demo_session = ''s''" for v
    by (simp_all add: demo_api_def demo_session_def)
  have browser: "browser_url (cl_urls demo_api) ''/'' ''s'' = Inr ''/sessions/s''"
    by (simp add: browser_url_def endpoint_def demo_api_def demo_urls_def)
  have tok: "opt_token (start_common demo_options) = ''t''" by (simp add: demo_options_def)
  show ?thesis
    unfolding cli_start_def h tok
    by (simp add: Let_def url call retry_api_Proceed unavailable_def ses submit_message_def call_api_def
        announce_and_drive_def browser request_key_def create_payload_key [unfolded get_str_def] print_line_def drive_start_def get_str_def)
qed

theorem start_retries_are_copies_witness:
  "\<exists>st'. cli_start demo_api demo_options demo_hosting ''k1'' ''k2'' [Proceed] [Proceed] [] [] = (st', CliWaits) \<and>
     map request_key (dr_server st') = [Some ''k1'', Some ''k2''] \<and> keyed_requests ''k1'' ''k2'' (dr_server st')"
proof -
  obtain st' where st': "cli_start demo_api demo_options demo_hosting ''k1'' ''k2'' [Proceed] [Proceed] [] [] = (st', CliWaits)"
     "map request_key (dr_server st') = [Some ''k1'', Some ''k2'']" using demo_started by (elim exE conjE) (rule that)
  from start_retries_are_copies [OF demo_records st'(1)] obtain new where
    "dr_server st' = [] @ new" "keyed_requests ''k1'' ''k2'' new" by (elim exE conjE) (rule that)
  then have "keyed_requests ''k1'' ''k2'' (dr_server st')" by simp
  with st' show ?thesis by (intro exI conjI)
qed

end
