(* ===== verification/Command_Line.thy ===== *)
theory Command_Line
  imports Serve Session_Follow
begin

text \<open>
  The entry point, \<^verbatim>\<open>src/crates/kodo/src/main.rs\<close>: the command line as \<open>clap\<close> has parsed it, the choice
  between the headless runner and the two session commands, and the exit code.  The surroundings
  of the process are the record \<open>command_world\<close>.
\<close>

section \<open>The command line\<close>

datatype commands =
    Start string "string option" "string option" string string string string
  | Resume string "string option" string string string

record cli =
  cli_headless :: bool
  cli_workspace :: string
  cli_control_plane :: string
  cli_token :: "string option"
  cli_command :: "commands option"

section \<open>Running a command\<close>

text \<open>
  What the process meets: the file system at discovery and at the lock, the HTTP client builder, the
  API with its state, the fresh identifiers, and the scripts of the session client.
\<close>

record ('s, 'u, 'd) command_world =
  pw_discover :: "string \<Rightarrow> workspace_error + 'd workspace"
  pw_lock :: "'d workspace \<Rightarrow> workspace_error + string"
  pw_build_client :: "bool \<Rightarrow> string + unit"
  pw_client :: "('s, 'u) client"
  pw_server :: 's
  pw_boot :: bootstrap
  pw_built :: "string + unit"
  pw_first_id :: string
  pw_second_id :: string
  pw_first_script :: "retry_event list"
  pw_second_script :: "retry_event list"
  pw_turns :: "turn list"

text \<open>The result of \<open>run\<close>: an error, a server that has entered its loop, or a session client.\<close>

datatype ('s, 'u) run_result =
    RunFails string
  | RunServes 'u string string serve_state
  | RunClient "'s drive_state" cli_outcome

definition client_hosting :: "('s, 'u, 'd) command_world \<Rightarrow> options \<Rightarrow> 'd hosting" where
  "client_hosting w opts =
     \<lparr>host_discovered = pw_discover w (opt_workspace opts), host_boot = pw_boot w, host_built = pw_built w\<rparr>"

definition run_headless :: "('s, 'u, 'd) command_world \<Rightarrow> cli \<Rightarrow> ('s, 'u) run_result" where
  "run_headless w c =
     (if cli_command c \<noteq> None then
        RunFails ''--headless cannot be combined with an interactive command''
      else case cli_token c of
        None \<Rightarrow> RunFails ''KODO_TOKEN is required (or pass --token) with --headless''
      | Some tok \<Rightarrow>
          if trim tok = [] then RunFails ''KODO_TOKEN is required (or pass --token) with --headless''
          else case pw_discover w (cli_workspace c) of
            Inl e \<Rightarrow> RunFails (workspace_error_to_string e)
          | Inr ws \<Rightarrow>
              (case serve_headless (cl_urls (pw_client w)) (cli_control_plane c) ws (pw_lock w ws)
                      (pw_build_client w) of
                 Inl e \<Rightarrow> RunFails (control_plane_error_to_string e)
               | Inr (base, root, st) \<Rightarrow> RunServes base root tok st))"

definition run :: "('s, 'u, 'd) command_world \<Rightarrow> cli \<Rightarrow> ('s, 'u) run_result" where
  "run w c =
     (if cli_headless c then run_headless w c
      else case cli_command c of
        Some (Start task title model approval_policy control_plane tok ws) \<Rightarrow>
          (let opts = \<lparr>opt_control_plane = control_plane, opt_token = tok, opt_workspace = ws\<rparr>;
               (st, outcome) = cli_start (pw_client w)
                 \<lparr>start_common = opts, start_task = task, start_title = title, start_model = model,
                  start_approval_policy = approval_policy\<rparr>
                 (client_hosting w opts) (pw_first_id w) (pw_second_id w)
                 (pw_first_script w) (pw_second_script w) (pw_turns w) (pw_server w)
           in RunClient st outcome)
      | Some (Resume session_id message control_plane tok ws) \<Rightarrow>
          (let opts = \<lparr>opt_control_plane = control_plane, opt_token = tok, opt_workspace = ws\<rparr>;
               (st, outcome) = cli_resume (pw_client w)
                 \<lparr>resume_common = opts, resume_session_id = session_id, resume_message = message\<rparr>
                 (client_hosting w opts) (pw_first_id w)
                 (pw_first_script w) (pw_second_script w) (pw_turns w) (pw_server w)
           in RunClient st outcome)
      | None \<Rightarrow>
          RunFails ''the interactive TUI is not implemented yet; use start, resume, or --headless'')"

text \<open>The end of the process: its exit code and what it writes to the standard error, while it runs nothing.\<close>

datatype exit_code = ExitSuccess | ExitFailure string | ExitPanic

fun main_exit :: "('s, 'u) run_result \<Rightarrow> exit_code option" where
  "main_exit (RunFails e) = Some (ExitFailure (''kodo: '' @ e))"
| "main_exit (RunServes base root tok st) =
     (case sv_phase st of
        Returned e \<Rightarrow> Some (ExitFailure (''kodo: '' @ control_plane_error_to_string e))
      | _ \<Rightarrow> None)"
| "main_exit (RunClient st (CliReturns (Inr _))) = Some ExitSuccess"
| "main_exit (RunClient st (CliReturns (Inl e))) = Some (ExitFailure (''kodo: '' @ session_cli_error_to_string e))"
| "main_exit (RunClient st CliWaits) = None"
| "main_exit (RunClient st CliPanics) = Some ExitPanic"

section \<open>Tokens\<close>

text \<open>The token that the chosen command would use, and the API after the run.\<close>

definition effective_token :: "cli \<Rightarrow> string" where
  "effective_token c =
     (if cli_headless c then unwrap_or (cli_token c) []
      else case cli_command c of
        Some (Start _ _ _ _ _ tok _) \<Rightarrow> tok
      | Some (Resume _ _ _ tok _) \<Rightarrow> tok
      | None \<Rightarrow> [])"

fun api_after :: "('s, 'u, 'd) command_world \<Rightarrow> ('s, 'u) run_result \<Rightarrow> 's" where
  "api_after w (RunClient st _) = dr_server st"
| "api_after w _ = pw_server w"

lemma host_runner_token:
  "trim (opt_token opts) = [] \<Longrightarrow> host_runner uo opts h = (False, Inl MissingToken)"
  by (simp add: host_runner_def)

lemma start_without_token:
  "trim (opt_token (start_common opts)) = [] \<Longrightarrow>
   cli_start cl opts h k1 k2 script1 script2 turns s = ((drive_start s)\<lparr>dr_aborted := False\<rparr>, CliReturns (Inl MissingToken))"
  by (simp add: cli_start_def host_runner_token)

lemma resume_without_token:
  "trim (opt_token (resume_common opts)) = [] \<Longrightarrow>
   \<exists>e. cli_resume cl opts h k script1 script2 turns s = ((drive_start s)\<lparr>dr_aborted := False\<rparr>, CliReturns (Inl e))"
  by (simp add: cli_resume_def host_runner_token drive_start_def split: sum.split)

lemma run_headless_without_token:
  "trim (unwrap_or (cli_token c) []) = [] \<Longrightarrow> \<exists>e. run_headless w c = RunFails e"
  by (cases "cli_token c") (simp_all add: run_headless_def unwrap_or_def)

text \<open>Without a token nothing happens: if the token of the chosen command is missing or blank, the
  process ends with a failure and a message, no server is started, and no request reaches the
  API, whatever else the command line says.\<close>

theorem nothing_without_token:
  assumes "trim (effective_token c) = []"
  shows "(\<exists>message. main_exit (run w c) = Some (ExitFailure message)) \<and> api_after w (run w c) = pw_server w"
proof (cases "cli_headless c")
  case True
  then obtain e where "run w c = RunFails e"
    using run_headless_without_token [of c w] assms by (auto simp: run_def effective_token_def)
  then show ?thesis by simp
next
  case headless: False
  show ?thesis
  proof (cases "cli_command c")
    case None
    with headless show ?thesis by (simp add: run_def)
  next
    case (Some command)
    show ?thesis
    proof (cases command)
      case (Start task title model policy control_plane tok ws)
      then have "trim tok = []" using assms headless Some by (simp add: effective_token_def)
      then show ?thesis
        using headless Some Start by (simp add: run_def start_without_token)
    next
      case (Resume session_id message control_plane tok ws)
      let ?opts = "\<lparr>opt_control_plane = control_plane, opt_token = tok, opt_workspace = ws\<rparr>"
      let ?all = "\<lparr>resume_common = ?opts, resume_session_id = session_id, resume_message = message\<rparr>"
      have "trim (opt_token (resume_common ?all)) = []" using assms headless Some Resume by (simp add: effective_token_def)
      from resume_without_token [OF this, of "pw_client w" "client_hosting w ?opts" "pw_first_id w" "pw_first_script w"
          "pw_second_script w" "pw_turns w" "pw_server w"]
      obtain e where "cli_resume (pw_client w) ?all (client_hosting w ?opts) (pw_first_id w) (pw_first_script w)
          (pw_second_script w) (pw_turns w) (pw_server w) =
          ((drive_start (pw_server w))\<lparr>dr_aborted := False\<rparr>, CliReturns (Inl e))" ..
      then show ?thesis using headless Some Resume by (simp add: run_def)
    qed
  qed
qed

definition demo_world :: "(string http_request list, string, unit) command_world" where
  "demo_world =
     \<lparr>pw_discover = (\<lambda>_. Inr demo_workspace), pw_lock = (\<lambda>_. Inr ''lock''), pw_build_client = (\<lambda>_. Inr ()),
      pw_client = demo_api, pw_server = [], pw_boot = BootReady ''r'', pw_built = Inr (),
      pw_first_id = ''k1'', pw_second_id = ''k2'', pw_first_script = [Proceed], pw_second_script = [Proceed],
      pw_turns = []\<rparr>"

definition demo_cli :: cli where
  "demo_cli = \<lparr>cli_headless = False, cli_workspace = ''.'', cli_control_plane = ''/'', cli_token = None,
     cli_command = Some (Start ''fix'' None None ''standard'' ''/'' '' '' ''.'')\<rparr>"

theorem nothing_without_token_witness:
  "(\<exists>message. main_exit (run demo_world demo_cli) = Some (ExitFailure message)) \<and>
   api_after demo_world (run demo_world demo_cli) = []"
proof -
  have "trim '' '' = []" by code_simp
  then have "trim (effective_token demo_cli) = []" by (simp add: effective_token_def demo_cli_def)
  from nothing_without_token [OF this, of demo_world] show ?thesis by (simp add: demo_world_def)
qed

end
