(* ===== verification/Conformance.thy ===== *)
theory Conformance
  imports Runner_System Serve Session_Follow
begin

text \<open>
  The unit tests of the crate that need no operating system, run on the model.  Each definition is
  the body of one test, its assertions joined by conjunction, and the lemma after it says that
  the model passes.  What a test takes from serde is a parameter of the model and is given
  here as a concrete function; an assertion about serde alone is left out.
\<close>

section \<open>Protocol\<close>

definition execution_limits_reject_invalid_policy :: bool where
  "execution_limits_reject_invalid_policy \<longleftrightarrow>
     validate standalone = Inr () \<and>
     validate (standalone\<lparr>max_results := 0\<rparr>) = Inl ''runner limits must be nonzero'' \<and>
     validate (standalone\<lparr>max_cached_response_bytes := max_output_bytes standalone\<rparr>) =
       Inl ''response cache cannot retain one maximum-sized encoded response'' \<and>
     validate (standalone\<lparr>max_blocking_tools := MAX_BLOCKING_TOOLS + 1\<rparr>) =
       Inl ''max_blocking_tools exceeds the supported maximum''"

lemma passes_execution_limits: "PROTOCOL_VERSION = 5 \<and> execution_limits_reject_invalid_policy"
  using standalone_ok validate_limits_ok
  by (simp add: execution_limits_reject_invalid_policy_def)
     (simp add: validate_def standalone_def quotas_def maximum_encoded_response_bytes_def Let_def
       checked_mul_def checked_add_def usize_max_def protocol_constants)

section \<open>Process output\<close>

definition running_state :: process_state where
  "running_state = \<lparr>outbuf = output_buffer_default, status = Running\<rparr>"

definition run_reader :: "bytes list \<Rightarrow> usize \<Rightarrow> usize \<Rightarrow> process_state" where
  "run_reader reads max_bytes max_chunks =
     fst (spawn_reader max_bytes max_chunks running_state (new_reader Stdout) (map ReadOk reads @ [ReadOk []]))"

definition euro :: string where
  "euro = map char_of [0xE2, 0x82, 0xAC :: nat]"

definition preserves_utf8_characters_split_across_reads :: bool where
  "preserves_utf8_characters_split_across_reads \<longleftrightarrow>
     concat (map content (chunks (outbuf (run_reader [take 2 euro, drop 2 euro] 1024 1024)))) = euro"

definition bounds_process_output_chunk_metadata :: bool where
  "bounds_process_output_chunk_metadata \<longleftrightarrow>
     (let out = outbuf (run_reader (replicate 14 ''x'') (1024 * 1024) 4)
      in length (chunks out) = 4 \<and> sequence (hd (chunks out)) > 1)"

definition reports_output_that_cannot_fit_one_utf8_scalar :: bool where
  "reports_output_that_cannot_fit_one_utf8_scalar \<longleftrightarrow>
     (let out = outbuf (append_output running_state Stdout euro 1 1)
      in chunks out = [] \<and> terminal_truncated out)"

lemma decode_steps:
  "decode_utf8 [] (take 2 euro) False = ([], take 2 euro)" "decode_utf8 (take 2 euro) (drop 2 euro) False = (euro, [])"
  "decode_utf8 [] [] True = ([], [])" "decode_utf8 [] ''x'' False = (''x'', [])"
  "\<not> is_char_boundary euro (Suc 0)" "is_char_boundary euro 0" "length euro = 3"
  by code_simp+

lemma passes_utf8_split: "preserves_utf8_characters_split_across_reads"
proof -
  have "take 2 euro \<noteq> []" "drop 2 euro \<noteq> []" "euro \<noteq> []" by code_simp+
  then show ?thesis
    by (simp add: preserves_utf8_characters_split_across_reads_def run_reader_def new_reader_def decode_steps
        append_output_def truncate_utf8_def running_state_def output_buffer_default_def
        evict_output.simps over_budget_def)
qed

text \<open>The buffer after \<open>n\<close> one-byte chunks, under a limit of four.\<close>

definition recent_chunks :: "nat \<Rightarrow> process_state" where
  "recent_chunks n = \<lparr>outbuf = \<lparr>chunks = map (\<lambda>k. \<lparr>sequence = of_nat (Suc k), stream = Stdout, content = ''x'', truncated = False\<rparr>)
       [n - 4..<n], bytes = min n 4, next_sequence = of_nat (Suc n), terminal_truncated = False\<rparr>, status = Running\<rparr>"

lemma recent_chunks_append: "append_output (recent_chunks n) Stdout ''x'' (1024 * 1024) 4 = recent_chunks (Suc n)"
proof (cases "n < 4")
  case True
  then show ?thesis
    by (simp add: append_output_def truncate_utf8_def recent_chunks_def evict_output.simps over_budget_def Let_def)
next
  case False
  then have "[n - 4..<n] = (n - 4) # [n - 3..<n]" by (subst upt_conv_Cons) (use False in \<open>auto intro: arg_cong2 [where f = upt]\<close>)
  then show ?thesis using False
    by (simp add: append_output_def truncate_utf8_def recent_chunks_def evict_output.simps over_budget_def
        pop_chunk_def Let_def)
qed

lemma recent_chunks_read:
  "spawn_reader (1024 * 1024) 4 (recent_chunks n) (new_reader Stdout) (map ReadOk (replicate k ''x'') @ [ReadOk []]) =
     (recent_chunks (n + k), (new_reader Stdout)\<lparr>rd_done := True\<rparr>)"
proof (induction k arbitrary: n)
  case 0
  then show ?case by (simp add: new_reader_def decode_steps append_output_def truncate_utf8_def recent_chunks_def)
next
  case (Suc k)
  then show ?case using recent_chunks_append [of n] by (simp add: new_reader_def decode_steps)
qed

lemma passes_chunk_bound: "bounds_process_output_chunk_metadata"
proof -
  have "run_reader (replicate 14 ''x'') (1024 * 1024) 4 = recent_chunks 14"
    using recent_chunks_read [of 0 14]
    by (simp add: run_reader_def running_state_def recent_chunks_def output_buffer_default_def)
  then show ?thesis
    by (simp add: bounds_process_output_chunk_metadata_def recent_chunks_def upt_conv_Cons del: upt_Suc)
qed

lemma passes_scalar_too_large: "reports_output_that_cannot_fit_one_utf8_scalar"
  by (simp add: reports_output_that_cannot_fit_one_utf8_scalar_def append_output_def truncate_utf8_def
      decode_steps running_state_def output_buffer_default_def Let_def)

definition lossy_git_output_remains_within_the_logical_byte_limit :: bool where
  "lossy_git_output_remains_within_the_logical_byte_limit \<longleftrightarrow>
     (let (str, was_truncated) = lossy_bounded (map char_of [0xff, 0xff :: nat]) 4
      in length str \<le> 4 \<and> was_truncated)"

lemma passes_lossy_output: "lossy_git_output_remains_within_the_logical_byte_limit"
  by code_simp

section \<open>Session events\<close>

text \<open>The text of a JSON value, as far as the events of the tests need it.\<close>

fun json_text :: "json \<Rightarrow> string" where
  "json_text JNull = ''null''"
| "json_text (JBool b) = (if b then ''true'' else ''false'')"
| "json_text (JNumber (Integer n)) = show_int n"
| "json_text (JNumber (Decimal s)) = s"
| "json_text (JString s) = [CHR 34] @ s @ [CHR 34]"
| "json_text (JArray vs) = ''['' @ str_join '','' (map json_text vs) @ '']''"
| "json_text (JObject kvs) =
     ''{'' @ str_join '','' (map (\<lambda>(k, v). [CHR 34] @ k @ [CHR 34] @ '':'' @ json_text v) kvs) @ ''}''"

definition rendered :: "u64 \<Rightarrow> string \<Rightarrow> (string \<times> json) list \<Rightarrow> string" where
  "rendered n kind payload =
     format_event json_text \<lparr>ev_sequence = n, ev_kind = kind, ev_payload = JObject payload\<rparr>"

definition shows_all :: "string list \<Rightarrow> string \<Rightarrow> bool" where
  "shows_all needles str \<longleftrightarrow> list_all (\<lambda>needle. str_contains needle str) needles"

definition formats_real_diff_and_command_output :: bool where
  "formats_real_diff_and_command_output \<longleftrightarrow>
     shows_all [''diff --git'']
       (rendered 1 ''tool_completed'' [(''name'', JString ''git_diff''),
          (''output'', JObject [(''response'', JObject [(''diff'', JString ''diff --git a/a b/a'')])])]) \<and>
     shows_all [''exited (0)'', ''2 tests passed'']
       (rendered 2 ''tool_completed'' [(''name'', JString ''poll_command''),
          (''output'', JObject [(''result'', JString ''command_poll''),
             (''status'', JObject [(''exited'', JObject [(''code'', JNumber (Integer 0))])]),
             (''output'', JArray
                [JObject [(''sequence'', JNumber (Integer 1)), (''stream'', JString ''stdout''),
                   (''content'', JString ''2 tests ''), (''truncated'', JBool False)],
                 JObject [(''sequence'', JNumber (Integer 2)), (''stream'', JString ''stdout''),
                   (''content'', JString (''passed'' @ [NL])), (''truncated'', JBool False)]]),
             (''truncated'', JBool False)])]) \<and>
     shows_all [''partial'', ''[output truncated]'']
       (rendered 3 ''tool_completed'' [(''name'', JString ''read_file''),
          (''output'', JObject [(''content'', JString ''partial''), (''truncated'', JBool True)])]) \<and>
     shows_all [''partial diff'', ''[output truncated]'']
       (rendered 4 ''tool_completed'' [(''name'', JString ''git_diff''),
          (''output'', JObject [(''content'', JString ''partial diff''), (''truncated'', JBool True)])]) \<and>
     shows_all [''lib/first.ex'', ''first match'', ''lib/second.ex'', ''second match'']
       (rendered 5 ''tool_completed'' [(''name'', JString ''search_code''),
          (''output'', JObject [(''result'', JString ''matches''),
             (''matches'', JArray
                [JObject [(''path'', JString ''lib/first.ex''), (''line'', JNumber (Integer 1)),
                   (''content'', JString ''first match'')],
                 JObject [(''path'', JString ''lib/second.ex''), (''line'', JNumber (Integer 2)),
                   (''content'', JString ''second match'')]]),
             (''truncated'', JBool False)])]) \<and>
     shows_all [''[tool_failed] apply_patch'', ''patch failed: context did not match'']
       (rendered 6 ''tool_failed'' [(''name'', JString ''apply_patch''),
          (''error'', JString ''patch failed: context did not match'')])"

lemma rendered_poll:
  "rendered 2 ''tool_completed'' [(''name'', JString ''poll_command''),
          (''output'', JObject [(''result'', JString ''command_poll''),
             (''status'', JObject [(''exited'', JObject [(''code'', JNumber (Integer 0))])]),
             (''output'', JArray
                [JObject [(''sequence'', JNumber (Integer 1)), (''stream'', JString ''stdout''),
                   (''content'', JString ''2 tests ''), (''truncated'', JBool False)],
                 JObject [(''sequence'', JNumber (Integer 2)), (''stream'', JString ''stdout''),
                   (''content'', JString (''passed'' @ [NL])), (''truncated'', JBool False)]]),
             (''truncated'', JBool False)])] =
     ''[verification: poll_command] exited (0)'' @ [NL] @ ''2 tests passed'' @ [NL]"
proof -
  have "show_int 0 = ''0''" by code_simp
  then show ?thesis
    by (simp add: rendered_def format_event_def format_tool_completed_def command_summary_def format_status_def
        get_str_def Let_def json_index_def unwrap_or_def)
qed

text \<open>The other events of the test, rendered.\<close>

lemma rendered_others:
  "rendered 1 ''tool_completed'' [(''name'', JString ''git_diff''),
          (''output'', JObject [(''response'', JObject [(''diff'', JString ''diff --git a/a b/a'')])])] =
     ''[git_diff]'' @ [NL] @ ''diff --git a/a b/a''"
  "rendered 3 ''tool_completed'' [(''name'', JString ''read_file''),
          (''output'', JObject [(''content'', JString ''partial''), (''truncated'', JBool True)])] =
     ''[tool_completed] read_file'' @ [NL] @ ''partial'' @ [NL] @ ''[output truncated]''"
  "rendered 4 ''tool_completed'' [(''name'', JString ''git_diff''),
          (''output'', JObject [(''content'', JString ''partial diff''), (''truncated'', JBool True)])] =
     ''[git_diff]'' @ [NL] @ ''partial diff'' @ [NL] @ ''[output truncated]''"
  by (simp_all add: rendered_def format_event_def format_tool_completed_def tool_summary_def truncation_suffix_def
      get_str_def Let_def unwrap_or_def first_some_def)

lemma rendered_search:
  "rendered 5 ''tool_completed'' [(''name'', JString ''search_code''),
          (''output'', JObject [(''result'', JString ''matches''),
             (''matches'', JArray
                [JObject [(''path'', JString ''lib/first.ex''), (''line'', JNumber (Integer 1)),
                   (''content'', JString ''first match'')],
                 JObject [(''path'', JString ''lib/second.ex''), (''line'', JNumber (Integer 2)),
                   (''content'', JString ''second match'')]]),
             (''truncated'', JBool False)])] =
     ''[tool_completed] search_code'' @ [NL] @ json_text (JObject [(''result'', JString ''matches''),
             (''matches'', JArray
                [JObject [(''path'', JString ''lib/first.ex''), (''line'', JNumber (Integer 1)),
                   (''content'', JString ''first match'')],
                 JObject [(''path'', JString ''lib/second.ex''), (''line'', JNumber (Integer 2)),
                   (''content'', JString ''second match'')]]),
             (''truncated'', JBool False)])"
  by (simp add: rendered_def format_event_def format_tool_completed_def tool_summary_def truncation_suffix_def
      get_str_def Let_def unwrap_or_def del: json_text.simps)

lemma passes_formats: "formats_real_diff_and_command_output"
  unfolding formats_real_diff_and_command_output_def rendered_poll rendered_others rendered_search
  apply (intro conjI)
  subgoal by code_simp
  subgoal by code_simp
  subgoal by code_simp
  subgoal by code_simp
  subgoal by code_simp
  subgoal by code_simp
  done

definition approval_prompt_shows_the_exact_mutation :: bool where
  "approval_prompt_shows_the_exact_mutation \<longleftrightarrow>
     shows_all [''mix test test/kodo/sessions_test.exs'', ''cwd: apps/kodo'', ''timeout_ms: 30000'']
       (rendered 3 ''approval_requested'' [(''name'', JString ''start_command''),
          (''arguments'', JObject [(''command'', JString ''mix test test/kodo/sessions_test.exs''),
             (''cwd'', JString ''apps/kodo''), (''timeout_ms'', JNumber (Integer 30000))])])"

lemma passes_approval_prompt: "approval_prompt_shows_the_exact_mutation"
proof -
  have "digit_char 3 = CHR ''3''" "digit_char 0 = CHR ''0''" by code_simp+
  then have "show_int 30000 = ''30000''" by (simp add: show_int_def show_nat.simps)
  then have r: "rendered 3 ''approval_requested'' [(''name'', JString ''start_command''),
          (''arguments'', JObject [(''command'', JString ''mix test test/kodo/sessions_test.exs''),
             (''cwd'', JString ''apps/kodo''), (''timeout_ms'', JNumber (Integer 30000))])] =
      ''[approval requested] start_command'' @ [NL] @ ''command: mix test test/kodo/sessions_test.exs'' @ [NL] @
      ''cwd: apps/kodo'' @ [NL] @ ''timeout_ms: 30000''"
    by (simp add: rendered_def format_event_def approval_summary_def get_str_def Let_def unwrap_or_def)
  show ?thesis unfolding approval_prompt_shows_the_exact_mutation_def r by code_simp
qed

definition provider_action_required_shows_safe_retry_guidance :: bool where
  "provider_action_required_shows_safe_retry_guidance \<longleftrightarrow>
     shows_all [''[provider action required] openrouter'', ''openrouter:anthropic/claude-sonnet-4'', ''aggregator'',
        ''Update billing'', ''https://openrouter.ai/credits'', ''Kodo settings: /integrations'']
       (rendered 3 ''provider_action_required'' [(''reason'', JString ''billing_required''),
          (''provider'', JString ''openrouter''), (''model'', JString ''openrouter:anthropic/claude-sonnet-4''),
          (''billing_path'', JString ''aggregator''), (''retryable'', JBool False),
          (''guidance'', JString ''Update billing with this provider, then retry the turn.''),
          (''provider_help_url'', JString ''https://openrouter.ai/credits''),
          (''settings_path'', JString ''/integrations'')])"

lemma passes_provider_action: "provider_action_required_shows_safe_retry_guidance"
  by code_simp

definition bearer_secrets_are_redacted :: bool where
  "bearer_secrets_are_redacted \<longleftrightarrow>
     session_cli_error_to_string (api_error ''Bearer top-secret'' ''top-secret'') =
       ''API request failed: Bearer [REDACTED]''"

lemma passes_redaction: "bearer_secrets_are_redacted"
  by code_simp

section \<open>The connection\<close>

definition headless_status_reports_a_session_once :: "uuid \<Rightarrow> uuid \<Rightarrow> bool" where
  "headless_status_reports_a_session_once session_id request_id \<longleftrightarrow>
     (let request = \<lparr>req_protocol_version = PROTOCOL_VERSION, req_request_id = request_id,
            req_authority = Some \<lparr>lease_session_id = session_id, lease_ownership_epoch = 1, lease_ttl_ms = 1000\<rparr>,
            req_request = GitStatus\<rparr>;
          (reported, first) = observe {} request
      in first = Some session_id \<and> snd (observe reported request) = None)"

lemma passes_headless_status: "headless_status_reports_a_session_once session_id request_id"
  by (simp add: headless_status_reports_a_session_once_def observe_def)

text \<open>\<open>to_value\<close> is the JSON that serde makes of the limits.\<close>

definition join_requires_a_complete_valid_limits_contract :: "json_codec \<Rightarrow> (execution_limits \<Rightarrow> json) \<Rightarrow> bool" where
  "join_requires_a_complete_valid_limits_contract jc to_value \<longleftrightarrow>
     (let payload = (\<lambda>response. JObject [(''status'', JString ''ok''), (''response'', JObject response)])
      in parse_join_limits jc (payload [(''limits'', to_value standalone)]) = Inr standalone \<and>
         (case parse_join_limits jc (payload []) of Inl (Configuration _) \<Rightarrow> True | _ \<Rightarrow> False) \<and>
         (case parse_join_limits jc (payload [(''limits'', to_value (standalone\<lparr>max_output_bytes := 0\<rparr>))]) of
            Inl (Configuration _) \<Rightarrow> True | _ \<Rightarrow> False))"

lemma passes_join:
  assumes "\<And>limits. limits_from_value jc (to_value limits) = Inr limits"
  shows "join_requires_a_complete_valid_limits_contract jc to_value"
proof -
  have "validate standalone = Inr ()" using standalone_ok validate_limits_ok by simp
  moreover have "validate (standalone\<lparr>max_output_bytes := 0\<rparr>) = Inl ''runner limits must be nonzero''"
    by (simp add: validate_def standalone_def quotas_def protocol_constants)
  ultimately show ?thesis
    using assms
    by (simp add: join_requires_a_complete_valid_limits_contract_def parse_join_limits_def get_str_def)
qed

definition registration_is_validated :: "uuid_ops \<Rightarrow> uuid \<Rightarrow> bool" where
  "registration_is_validated ids id' \<longleftrightarrow>
     (let r = \<lparr>runner_id = uuid_to_string ids id', token = ''secret'', socket_path = ''/socket/websocket'',
            topic = ''runner:'' @ uuid_to_string ids id', reg_protocol_version = PROTOCOL_VERSION,
            token_expires_in = 60\<rparr>
      in validate_registration ids r = Inr () \<and>
         validate_registration ids (r\<lparr>reg_protocol_version := 1\<rparr>) \<noteq> Inr ())"

lemma passes_registration:
  assumes "uuid_parse_str ids (uuid_to_string ids id') = Some id'" "uuid_to_string ids id' \<noteq> []"
  shows "registration_is_validated ids id'"
  using assms by (simp add: registration_is_validated_def validate_registration_def PROTOCOL_VERSION_def)

definition oversized_frame_is_rejected :: "json_codec \<Rightarrow> bool" where
  "oversized_frame_is_rejected jc \<longleftrightarrow>
     (case frame_parse jc (replicate (MAX_WIRE_BYTES + 1) (CHR ''x'')) of Inl _ \<Rightarrow> True | Inr _ \<Rightarrow> False) \<and>
     (case frame_serialize jc \<lparr>join_ref = None, frame_reference = None, frame_topic = ''t'', frame_event = ''e'',
             frame_payload = JString (replicate MAX_WIRE_BYTES (CHR ''x''))\<rparr> of
        Inl _ \<Rightarrow> True | Inr _ \<Rightarrow> False)"

lemma passes_oversized_frame:
  assumes "\<And>vs s str. value_to_string jc (JArray (vs @ [JString s])) = Inr str \<Longrightarrow> length s < length str"
  shows "oversized_frame_is_rejected jc"
proof -
  let ?s = "replicate MAX_WIRE_BYTES (CHR ''x'')"
  have "MAX_WIRE_BYTES < length str"
    if "value_to_string jc (JArray [JNull, JNull, JString ''t'', JString ''e'', JString ?s]) = Inr str" for str
    using assms [of "[JNull, JNull, JString ''t'', JString ''e'']" ?s] that by simp
  then show ?thesis
    by (auto simp: oversized_frame_is_rejected_def frame_parse_def frame_serialize_def frame_value_def
        json_optional_def simp del: replicate_Suc split: sum.split)
qed

section \<open>The workspace\<close>

text \<open>The repositories of the tests are at \<open>/repo\<close>; beside the first lies the directory \<open>/outside\<close>.\<close>

definition test_workspace :: "unit workspace" where
  "test_workspace = \<lparr>ws_root = ''/repo'', ws_root_dir = ()\<rparr>"

definition rejects_parent_traversal_and_absolute_paths :: "file_system \<Rightarrow> bool" where
  "rejects_parent_traversal_and_absolute_paths fs \<longleftrightarrow>
     (case resolve fs [] test_workspace ''../outside'' of Inl (ParentTraversal _) \<Rightarrow> True | _ \<Rightarrow> False) \<and>
     (case resolve fs [] test_workspace ''/repo'' of Inl (AbsolutePath _) \<Rightarrow> True | _ \<Rightarrow> False)"

lemma passes_traversal: "rejects_parent_traversal_and_absolute_paths fs"
proof -
  have "validate_relative ''../outside'' = Inl (ParentTraversal ''../outside'')"
    "validate_relative ''/repo'' = Inl (AbsolutePath ''/repo'')" by code_simp+
  then show ?thesis by (simp add: rejects_parent_traversal_and_absolute_paths_def resolve_def)
qed

definition escaping_fs :: file_system where
  "escaping_fs p =
     (if p = [''repo''] \<or> p = [''outside''] then Some DirNode
      else if p = [''outside'', ''secret.txt''] then Some (FileNode ''secret'')
      else if p = [''repo'', ''escape''] then Some (LinkNode ''/outside'')
      else None)"

definition rejects_symlinks_that_escape_the_workspace :: bool where
  "rejects_symlinks_that_escape_the_workspace \<longleftrightarrow>
     (case resolve escaping_fs [] test_workspace ''escape'' of Inl (OutsideWorkspace _) \<Rightarrow> True | _ \<Rightarrow> False) \<and>
     (case resolve_new escaping_fs [] test_workspace ''escape/new-file'' of
        Inl (OutsideWorkspace _) \<Rightarrow> True | _ \<Rightarrow> False)"

lemma passes_symlinks: "rejects_symlinks_that_escape_the_workspace"
  by code_simp

definition source_fs :: file_system where
  "source_fs p = (if p = [''repo''] \<or> p = [''repo'', ''src''] then Some DirNode else None)"

definition resolves_new_paths_beneath_existing_workspace_directories :: bool where
  "resolves_new_paths_beneath_existing_workspace_directories \<longleftrightarrow>
     resolve_new source_fs [] test_workspace ''src/new/module.rs'' = Inr ''/repo/src/new/module.rs''"

lemma passes_new_paths: "resolves_new_paths_beneath_existing_workspace_directories"
  by code_simp

definition bounded_reads_reject_oversized_files :: bool where
  "bounded_reads_reject_oversized_files \<longleftrightarrow>
     (case read_to_string_bounded demo_ops \<lparr>ws_root = ''/repo'', ws_root_dir = [''large.txt'' \<mapsto> ''12345'']\<rparr> ''large.txt'' 4 of
        Inl (FileTooLarge _ limit) \<Rightarrow> limit = 4 | _ \<Rightarrow> False)"

lemma passes_bounded_reads: "bounded_reads_reject_oversized_files"
proof -
  have "validate_relative ''large.txt'' = Inr ''large.txt''" by code_simp
  then show ?thesis
    by (simp add: bounded_reads_reject_oversized_files_def read_to_string_bounded_def read_checked_def demo_ops_def
        saturating_add_def usize_max_def)
qed

definition replace_text_atomically_swaps_the_file :: bool where
  "replace_text_atomically_swaps_the_file \<longleftrightarrow>
     (let (files, result) = replace_text_if_unique demo_ops
            \<lparr>ws_root = ''/repo'', ws_root_dir = [''message.txt'' \<mapsto> ''before value'']\<rparr> ''id'' ''message.txt''
            ''before'' ''after'' 1024
      in result = Inr True \<and> files ''message.txt'' = Some ''after value'')"

lemma passes_replace: "replace_text_atomically_swaps_the_file"
proof -
  have v: "validate_relative ''message.txt'' = Inr ''message.txt''" "path_join ''/repo'' ''message.txt'' = ''/repo/message.txt''"
    "file_name ''message.txt'' = Some ''message.txt''"
    "temporary_path ''message.txt'' ''message.txt'' ''id'' = ''.message.txt.kodo-id.tmp''" by code_simp+
  have "from_utf8 ''before value'' = Inr ()" by code_simp
  then have rc: "read_checked demo_ops [''message.txt'' \<mapsto> ''before value''] ''message.txt'' ''/repo/message.txt'' 1024 =
      Inr ''before value''"
    by (simp add: read_checked_def demo_ops_def saturating_add_def usize_max_def)
  have mc: "match_count_2 ''before'' ''before value'' = 1"
    "replace_first ''before'' ''after'' ''before value'' = ''after value''" by code_simp+
  show ?thesis
    by (simp add: replace_text_atomically_swaps_the_file_def replace_text_if_unique_def v rc mc)
       (simp add: demo_ops_def write_and_rename_def Let_def v)
qed

section \<open>The dispatcher\<close>

definition connected_dispatch_rejects_requests_without_an_authority_lease :: "wire_codec \<Rightarrow> uuid \<Rightarrow> bool" where
  "connected_dispatch_rejects_requests_without_an_authority_lease cx request_id \<longleftrightarrow>
     (let (d, reply, ex) = dispatch_connected cx 0 (new_dispatcher standalone)
            \<lparr>req_protocol_version = PROTOCOL_VERSION, req_request_id = request_id, req_authority = None,
             req_request = GitStatus\<rparr>
      in \<exists>error. reply = Reply (serialize_response cx (Error PROTOCOL_VERSION (Some request_id) error)) \<and>
           str_contains ''omitted its authority lease'' error \<and> ex = None)"

lemma passes_missing_lease: "connected_dispatch_rejects_requests_without_an_authority_lease cx request_id"
proof -
  have "str_contains ''omitted its authority lease'' ''connected runner request omitted its authority lease''"
    by code_simp
  then show ?thesis
    by (auto simp: connected_dispatch_rejects_requests_without_an_authority_lease_def dispatch_connected_def
        missing_authority_response_def)
qed

definition completed_cache_entries_remain_evictable_during_replay :: "uuid \<Rightarrow> bool" where
  "completed_cache_entries_remain_evictable_during_replay request_id \<longleftrightarrow>
     (let heap = [\<lparr>slot_fingerprint = 0, slot_response = Some ''response''\<rparr>];
          cache = response_cache_default\<lparr>slots := Mapping.update request_id 0 Mapping.empty,
            order := [(request_id, 8)], response_bytes := 8\<rparr>;
          cache' = remove_cached_response heap cache request_id 8
      in Mapping.lookup (slots cache') request_id = None \<and> Mapping.lookup (expired cache') request_id \<noteq> None \<and>
         response_bytes cache' = 0 \<and> slot_response (heap ! 0) = Some ''response'')"

lemma passes_evictable: "completed_cache_entries_remain_evictable_during_replay request_id"
  by (simp add: completed_cache_entries_remain_evictable_during_replay_def remove_cached_response_def
      response_cache_default_def Let_def lookup_delete lookup_update)

text \<open>
  The other tests of the dispatcher use an entry point of their own, which does not insist on a lease.
  \<open>dispatch_and_wait\<close> dispatches a request and waits for its response, with the result of the tool
  given, and says whether the tool was executed.
\<close>

definition dispatch_unmanaged ::
  "wire_codec \<Rightarrow> instant \<Rightarrow> dispatcher \<Rightarrow> request_envelope \<Rightarrow>
   dispatcher \<times> dispatch_reply \<times> execution option" where
  "dispatch_unmanaged cx at_time d request =
     (if req_protocol_version request \<noteq> PROTOCOL_VERSION then
        (d, Reply (unsupported_protocol_response cx (req_request_id request)
                     (req_protocol_version request)), None)
      else case req_authority request of
        Some lease \<Rightarrow>
          (case grant (authorities d) at_time lease of
             Inr (r, authority) \<Rightarrow> dispatch_with_authority cx (d\<lparr>authorities := r\<rparr>) request authority
           | Inl e \<Rightarrow> (d, Reply (authority_error_response cx (req_request_id request) e), None))
      | None \<Rightarrow> dispatch_with_authority cx d request unmanaged)"

definition complete_execution ::
  "wire_codec \<Rightarrow> string + tool_result \<Rightarrow> dispatcher \<Rightarrow> execution \<Rightarrow> dispatcher \<times> string" where
  "complete_execution cx result d ex =
     (let response = execution_response cx (max_error_bytes d) (task_request_id ex) result
      in (account_response (publish_response d (task_slot ex) response) (task_request_id ex) (task_slot ex) response,
          response))"

definition dispatch_and_wait ::
  "wire_codec \<Rightarrow> string + tool_result \<Rightarrow> dispatcher \<Rightarrow> request_envelope \<Rightarrow> dispatcher \<times> string option \<times> bool" where
  "dispatch_and_wait cx result d request =
     (case dispatch_unmanaged cx 0 d request of
        (d', Reply str, _) \<Rightarrow> (d', Some str, False)
      | (d', AwaitSlot sid, None) \<Rightarrow> (d', slot_response (slot_heap d' ! sid), False)
      | (d', AwaitSlot sid, Some ex) \<Rightarrow>
          (let (d'', response) = complete_execution cx result d' ex in (d'', Some response, True)))"

definition test_request :: "uuid \<Rightarrow> tool_request \<Rightarrow> request_envelope" where
  "test_request request_id request = \<lparr>req_protocol_version = PROTOCOL_VERSION, req_request_id = request_id,
     req_authority = None, req_request = request\<rparr>"

definition rejects_unknown_protocol_versions :: "wire_codec \<Rightarrow> uuid \<Rightarrow> bool" where
  "rejects_unknown_protocol_versions cx request_id \<longleftrightarrow>
     (let (d, reply, ex) = dispatch_unmanaged cx 0 (new_dispatcher standalone)
            \<lparr>req_protocol_version = 2, req_request_id = request_id, req_authority = None, req_request = GitStatus\<rparr>
      in \<exists>version error. reply = Reply (serialize_response cx (Error version (Some request_id) error)) \<and> ex = None)"

lemma passes_unknown_versions: "rejects_unknown_protocol_versions cx request_id"
  by (auto simp: rejects_unknown_protocol_versions_def dispatch_unmanaged_def unsupported_protocol_response_def
      PROTOCOL_VERSION_def)

definition retrying_a_request_id_replays_the_original_response :: bool where
  "retrying_a_request_id_replays_the_original_response \<longleftrightarrow>
     (let request = test_request 1 (StartCommand ''while true; do :; done'' [] 1000);
          (d, first, executed) = dispatch_and_wait demo_codec (Inr (CommandStarted 7)) (new_dispatcher standalone) request;
          (d', retry, again) = dispatch_and_wait demo_codec (Inr (CommandStarted 8)) d request
      in retry = first \<and> executed \<and> \<not> again)"

text \<open>The smallest cache that the policy allows, and a path that is refused with a long message.\<close>

definition smallest_limits :: execution_limits where
  "smallest_limits =
     (let limits = standalone\<lparr>max_output_bytes := 32, max_results := 1, max_process_output_chunks := 1\<rparr>
      in limits\<lparr>max_cached_response_bytes := (case maximum_encoded_response_bytes limits of Inr n \<Rightarrow> n | Inl _ \<Rightarrow> 0)\<rparr>)"

definition bounded_errors_remain_in_the_smallest_valid_replay_cache ::
  "uuid_ops \<Rightarrow> 'w tool_host \<Rightarrow> 'w tool_state \<Rightarrow> bool" where
  "bounded_errors_remain_in_the_smallest_valid_replay_cache u h st \<longleftrightarrow>
     (let r = \<lparr>rn_root = ''/repo'', rn_limits = smallest_limits\<rparr>;
          request = ReadFile (CHR ''/'' # replicate 10000 (CHR ''x'')) 0 1
      in (\<exists>m. from_limits ''/repo'' smallest_limits = Inr (r, m)) \<and>
         (case execute h r st request of
            (_, Some result) \<Rightarrow>
              (let rendered = map_sum (runner_error_to_string u) id result;
                   (d, response, _) = dispatch_and_wait demo_codec rendered (new_dispatcher smallest_limits)
                     (test_request 1 request);
                   (d', retry, again) = dispatch_and_wait demo_codec rendered d (test_request 1 request)
               in (\<exists>error. response = Some error \<and> length error \<le> 32) \<and> retry = response \<and> \<not> again \<and>
                  Mapping.lookup (slots (cache d')) 1 \<noteq> None)
          | (_, None) \<Rightarrow> False))"

definition cancelling_a_waiter_does_not_cancel_or_repeat_execution :: bool where
  "cancelling_a_waiter_does_not_cancel_or_repeat_execution \<longleftrightarrow>
     (let request = test_request 1 (ApplyPatch ''patch'');
          (d, _, first) = dispatch_unmanaged demo_codec 0 (new_dispatcher standalone) request;
          (d', reply, second) = dispatch_unmanaged demo_codec 0 d request
      in Mapping.lookup (slots (cache d)) 1 \<noteq> None \<and> second = None \<and>
         (case (first, reply) of
            (Some ex, AwaitSlot sid) \<Rightarrow>
              (let (d'', _) = complete_execution demo_codec (Inr (FilesChanged [''file.txt''])) d' ex
               in slot_response (slot_heap d'' ! sid) = Some ''ok'')
          | _ \<Rightarrow> False))"

definition evicted_request_ids_are_never_executed_again :: bool where
  "evicted_request_ids_are_never_executed_again \<longleftrightarrow>
     (let request = test_request 1 (ApplyPatch ''patch'');
          d0 = new_dispatcher (standalone\<lparr>max_cached_requests := 1\<rparr>);
          (d1, first, executed) = dispatch_and_wait demo_codec (Inr (FilesChanged [''file.txt''])) d0 request;
          (d2, other, _) = dispatch_and_wait demo_codec (Inr (FilesChanged [])) d1 (test_request 2 GitStatus);
          (d3, retry, again) = dispatch_and_wait demo_codec (Inr (FilesChanged [''file.txt''])) d2 request
      in first = Some ''ok'' \<and> executed \<and> \<not> again \<and>
         (\<exists>error. retry = Some error \<and> str_contains ''was not re-executed'' error))"

lemma demo_codec_text:
  "response_to_string demo_codec (Success v i r) = ''ok''" "response_to_string demo_codec (Error v j e) = e"
  by (simp_all add: demo_codec_def)

lemmas dispatch_computes =
  dispatch_and_wait_def complete_execution_def test_request_def dispatch_unmanaged_def new_dispatcher_def
  dispatch_with_authority_def response_cache_default_def evict_requests.simps evict_bytes.simps requests_full_def
  bytes_full_def join_slot_def envelope_fingerprint_def spawn_execution_def publish_response_def
  account_response_def execution_response_def serialize_response_def demo_codec_text pop_response_def
  remove_cached_response_def Let_def lookup_update lookup_delete Mapping.lookup_empty

lemma passes_retry: "retrying_a_request_id_replays_the_original_response"
  by (simp add: retrying_a_request_id_replays_the_original_response_def dispatch_computes standalone_def)

lemma passes_cancelled_waiter: "cancelling_a_waiter_does_not_cancel_or_repeat_execution"
  by (simp add: cancelling_a_waiter_does_not_cancel_or_repeat_execution_def dispatch_computes standalone_def)

lemma passes_evicted: "evicted_request_ids_are_never_executed_again"
proof -
  have "Mapping.size (Mapping.update k v Mapping.empty) = 1" for k :: uuid and v :: nat
    by (simp add: Mapping.size_def)
  moreover have "str_contains ''was not re-executed''
      ''request completed previously, but its response is no longer available; it was not re-executed''"
    by code_simp
  ultimately show ?thesis
    by (simp add: evicted_request_ids_are_never_executed_again_def dispatch_computes standalone_def
        expired_request_response_def)
qed

text \<open>The refusal of an absolute path is cut to the limit, which the cache can hold.\<close>

lemma smallest_limits_ok:
  "\<exists>m. from_limits ''/repo'' smallest_limits = Inr (\<lparr>rn_root = ''/repo'', rn_limits = smallest_limits\<rparr>, m)"
  "max_output_bytes smallest_limits = 32" "32 \<le> max_cached_response_bytes smallest_limits"
  "0 < max_cached_requests smallest_limits"
  by (simp_all add: smallest_limits_def standalone_def maximum_encoded_response_bytes_def checked_mul_def
      checked_add_def usize_max_def protocol_constants from_limits_def validate_def quotas_def Let_def max_permits_def)

lemma passes_bounded_errors: "bounded_errors_remain_in_the_smallest_valid_replay_cache u h st"
proof -
  let ?r = "\<lparr>rn_root = ''/repo'', rn_limits = smallest_limits\<rparr>" and ?p = "CHR ''/'' # replicate 10000 (CHR ''x'')"
  have "validate_relative ?p = Inl (AbsolutePath ?p)" by (simp add: validate_relative_def has_root_def SLASH_def)
  then have e: "execute h ?r st (ReadFile ?p 0 1) = (suspend h st, Some (Inl (WorkspaceFailed (AbsolutePath ?p))))"
    by (simp add: execute_def execute_authorized_def execute_blocking_def check_authority_def read_file_def
        read_to_string_bounded_def)
  have "0 < max_cached_requests smallest_limits" "length (truncate_error_utf8 str 32) \<le> max_cached_response_bytes smallest_limits"
    for str using smallest_limits_ok(3,4) error_truncation.trunc_length [of str 32] by simp_all
  then show ?thesis
    unfolding bounded_errors_remain_in_the_smallest_valid_replay_cache_def Let_def e
    using smallest_limits_ok(1,2) error_truncation.trunc_length
    by (simp add: dispatch_computes not_less)
qed

end
