(* ===== verification/Runner_Conformance.thy ===== *)
theory Runner_Conformance
  imports Runner_System
begin

text \<open>
  The unit tests of \<^verbatim>\<open>runner.rs\<close> that call \<open>Runner::execute\<close> on a repository, run on the
  model.  The repository of a test is a directory \<open>/repo\<close> with the files the test writes.  Where
  the runner asks Git, its answer is a function of the arguments: the lines Git prints for the
  repository of the test.
\<close>

section \<open>Repositories\<close>

definition runner_with_limits :: "string \<Rightarrow> usize \<Rightarrow> usize \<Rightarrow> string + (runner \<times> process_manager)" where
  "runner_with_limits root output_bytes results =
     from_limits root (standalone\<lparr>max_output_bytes := output_bytes, max_results := results\<rparr>)"

definition repo_fs :: "demo_dir \<Rightarrow> file_system" where
  "repo_fs files p =
     (if p = [''repo''] then Some DirNode
      else if length p = 2 \<and> hd p = ''repo'' then map_option FileNode (files (last p))
      else None)"

definition repo_host :: "(string list \<Rightarrow> bytes) \<Rightarrow> demo_dir tool_host" where
  "repo_host answer = demo_host\<lparr>host_fs := repo_fs,
     host_git := (\<lambda>w args input. (w, Inr \<lparr>run_input_error = None, run_wait = Inr (Some 0),
       run_stdout = [Inr (answer (drop (length git_prefix) args))], run_stderr = []\<rparr>))\<rparr>"

text \<open>\<open>runner.execute(request)\<close> of a test: the files afterwards and the result.  A runner that
  cannot be built, and a request that never returns, is \<open>None\<close>.\<close>

definition executes ::
  "(string list \<Rightarrow> bytes) \<Rightarrow> string + (runner \<times> process_manager) \<Rightarrow> demo_dir \<Rightarrow> tool_request \<Rightarrow>
   (demo_dir \<times> (runner_error + tool_result)) option" where
  "executes answer built files request =
     (case built of
        Inl _ \<Rightarrow> None
      | Inr (r, processes) \<Rightarrow>
          (case execute (repo_host answer) r
                  \<lparr>ts_world = files, ts_processes = processes, ts_git = [], ts_actions = []\<rparr> request of
             (st, Some result) \<Rightarrow> Some (ts_world st, result)
           | (_, None) \<Rightarrow> None))"

abbreviation no_git :: "string list \<Rightarrow> bytes" where
  "no_git \<equiv> \<lambda>_. []"

section \<open>Tests\<close>

definition reads_lines_with_offsets_and_reports_truncation :: bool where
  "reads_lines_with_offsets_and_reports_truncation \<longleftrightarrow>
     (let files = [''notes.txt'' \<mapsto> ''one'' @ [NL] @ ''two'' @ [NL] @ ''three'' @ [NL]]
      in executes no_git (new_runner ''/repo'') files (ReadFile ''notes.txt'' 1 1) =
           Some (files, Inr (File ''two'' 1 (Some 2) True)))"

definition lists_and_searches_tracked_and_untracked_files :: bool where
  "lists_and_searches_tracked_and_untracked_files \<longleftrightarrow>
     (let files = [''tracked.txt'' \<mapsto> ''find me'' @ [NL], ''untracked.txt'' \<mapsto> ''also find me'' @ [NL]];
          answer = (\<lambda>args. if hd args = ''ls-files'' then ''untracked.txt'' @ [NL] @ ''tracked.txt'' @ [NL] else [])
      in executes answer (new_runner ''/repo'') files (ListFiles []) =
           Some (files, Inr (Files [''tracked.txt'', ''untracked.txt''] False)) \<and>
         (case executes answer (new_runner ''/repo'') files (SearchCode ''find me'' []) of
            Some (_, Inr (Matches matches trunc)) \<Rightarrow> length matches = 2 \<and> \<not> trunc
          | _ \<Rightarrow> False))"

definition search_respects_byte_and_result_limits :: bool where
  "search_respects_byte_and_result_limits \<longleftrightarrow>
     (case executes (\<lambda>args. if hd args = ''ls-files'' then ''large.txt'' @ [NL] else [])
             (runner_with_limits ''/repo'' 16 1)
             [''large.txt'' \<mapsto> ''needle followed by a very long matching line'' @ [NL] @ ''needle again'' @ [NL]]
             (SearchCode ''needle'' []) of
        Some (_, Inr (Matches matches trunc)) \<Rightarrow>
          matches \<noteq> [] \<and> length (match_content (hd matches)) \<le> 16 \<and> trunc
      | _ \<Rightarrow> False)"

definition repository_output_is_bounded_while_git_is_drained :: "bytes \<Rightarrow> demo_dir \<Rightarrow> bool" where
  "repository_output_is_bounded_while_git_is_drained status_lines files \<longleftrightarrow>
     (case executes (\<lambda>args. if hd args = ''status'' then status_lines else [])
             (runner_with_limits ''/repo'' 16 100) files GitStatus of
        Some (_, Inr (Output str trunc)) \<Rightarrow> length str \<le> 16 \<and> trunc
      | _ \<Rightarrow> False)"

definition replaces_text_only_when_it_has_one_exact_match :: "uuid_ops \<Rightarrow> bool" where
  "replaces_text_only_when_it_has_one_exact_match u \<longleftrightarrow>
     (case executes no_git (new_runner ''/repo'') [''file.txt'' \<mapsto> ''before'' @ [NL]]
             (ReplaceText ''file.txt'' ''before'' ''after'') of
        Some (files, Inr changed) \<Rightarrow>
          changed = FilesChanged [''file.txt''] \<and> files ''file.txt'' = Some (''after'' @ [NL]) \<and>
          (case executes no_git (new_runner ''/repo'') files (ReplaceText ''file.txt'' ''missing'' ''replacement'') of
             Some (files, Inl error) \<Rightarrow>
               str_contains ''exactly once'' (runner_error_to_string u error) \<and>
               (case executes no_git (new_runner ''/repo'') (files(''file.txt'' \<mapsto> ''same same'' @ [NL]))
                       (ReplaceText ''file.txt'' ''same'' ''replacement'') of
                  Some (_, Inl error) \<Rightarrow> str_contains ''exactly once'' (runner_error_to_string u error)
                | _ \<Rightarrow> False)
           | _ \<Rightarrow> False)
      | _ \<Rightarrow> False)"

definition long_patch :: string where
  "long_patch = concat (map (\<lambda>l. l @ [NL])
     [''diff --git a/long.txt b/long.txt'', ''new file mode 100644'', ''--- /dev/null'', ''+++ b/long.txt'',
      ''@@ -0,0 +1 @@'', ''+content''])"

definition rejects_patch_paths_that_cannot_fit_in_the_result :: "uuid_ops \<Rightarrow> bool" where
  "rejects_patch_paths_that_cannot_fit_in_the_result u \<longleftrightarrow>
     (case executes
             (\<lambda>args. if ''--numstat'' \<in> set args then [CHR ''1'', TAB, CHR ''0'', TAB] @ ''long.txt'' @ [NUL] else [])
             (runner_with_limits ''/repo'' 4 100) Map.empty (ApplyPatch long_patch) of
        Some (files, Inl error) \<Rightarrow>
          str_contains ''affected patch paths'' (runner_error_to_string u error) \<and> files ''long.txt'' = None
      | _ \<Rightarrow> False)"

text \<open>What \<^verbatim>\<open>git diff --cached --binary\<close> prints for the rename of the test.\<close>

definition rename_patch :: string where
  "rename_patch = concat (map (\<lambda>l. l @ [NL])
     [''diff --git a/old.txt b/new.txt'', ''similarity index 100%'', ''rename from old.txt'', ''rename to new.txt''])"

definition applying_a_rename_reports_source_and_destination_paths :: bool where
  "applying_a_rename_reports_source_and_destination_paths \<longleftrightarrow>
     (case executes
             (\<lambda>args. if ''--numstat'' \<in> set args then [CHR ''0'', TAB, CHR ''0'', TAB] @ ''new.txt'' @ [NUL] else [])
             (new_runner ''/repo'') [''old.txt'' \<mapsto> ''content'' @ [NL]] (ApplyPatch rename_patch) of
        Some (_, Inr changed) \<Rightarrow> changed = FilesChanged [''new.txt'', ''old.txt'']
      | _ \<Rightarrow> False)"

section \<open>The runners of the tests\<close>

definition limited :: "usize \<Rightarrow> usize \<Rightarrow> runner" where
  "limited output_bytes results =
     \<lparr>rn_root = ''/repo'', rn_limits = standalone\<lparr>max_output_bytes := output_bytes, max_results := results\<rparr>\<rparr>"

definition repo_state :: "process_manager \<Rightarrow> demo_dir \<Rightarrow> demo_dir tool_state" where
  "repo_state processes files = \<lparr>ts_world = files, ts_processes = processes, ts_git = [], ts_actions = []\<rparr>"

text \<open>A limit from 1 byte to the standalone one leaves the cache large enough.\<close>

lemma runner_with_limits_built:
  assumes "0 < b" "b \<le> max_output_bytes standalone" "0 < n" "n \<le> max_results standalone"
  shows "\<exists>processes. runner_with_limits ''/repo'' b n = Inr (limited b n, processes)"
  using assms
  by (simp add: runner_with_limits_def from_limits_def limited_def validate_def standalone_def quotas_def
      maximum_encoded_response_bytes_def Let_def checked_mul_def checked_add_def usize_max_def protocol_constants
      max_permits_def)

lemma repo_host_simps [simp]:
  "host_fs (repo_host a) = repo_fs" "host_cwd (repo_host a) = []" "host_dir (repo_host a) = demo_ops"
  "host_token (repo_host a) w = ''id''" "suspend (repo_host a) st = st"
  "check_authority (repo_host a) w unmanaged = Inr ()"
  by (simp_all add: repo_host_def demo_host_def suspend_def check_authority_def ensure_valid_def unmanaged_def)

lemma repo_state_simps [simp]: "ts_world (repo_state p files) = files"
  by (simp add: repo_state_def)

lemma executes_built:
  assumes "0 < b" "b \<le> max_output_bytes standalone" "0 < n" "n \<le> max_results standalone"
    "\<And>p. \<exists>st. execute (repo_host a) (limited b n) (repo_state p files) request = (st, Some result) \<and>
       ts_world st = files'"
  shows "executes a (runner_with_limits ''/repo'' b n) files request = Some (files', result)"
proof -
  obtain p where p: "runner_with_limits ''/repo'' b n = Inr (limited b n, p)"
    using runner_with_limits_built [OF assms(1-4)] by blast
  from assms(5) [of p] show ?thesis
    by (auto simp: executes_def p repo_state_def)
qed

text \<open>A Git call on such a host, and the paths of the repository.\<close>

lemma take_length_min: "take (min n (length xs)) xs = take n xs"
  by (simp add: min_def)

lemma repo_git_text:
  fixes st :: "demo_dir tool_state"
  defines "call args \<equiv> (ts_world st, GitCall (git_prefix @ args) None)"
  shows "git_text (git (repo_host a) r st args) =
     (st\<lparr>ts_git := ts_git st @ [call args]\<rparr>,
      let limit = max_output_bytes (rn_limits r); (str, c) = lossy_bounded (take limit (a args)) limit
      in Inr (str, limit < length (a args) \<or> c))"
  by (simp add: call_def git_text_def git_def git_with_limit_def repo_host_def run_command_def read_bounded_def
      read_consume_def successful_stdout_def status_success_def Let_def min.commute [of "length _"] take_length_min
      split: prod.split)

lemma new_runner_limits:
  "new_runner ''/repo'' = runner_with_limits ''/repo'' (max_output_bytes standalone) (max_results standalone)"
  by (simp add: new_runner_def runner_with_limits_def)

abbreviation test_runner :: runner where
  "test_runner \<equiv> limited (max_output_bytes standalone) (max_results standalone)"

lemma executes_new:
  assumes "\<And>p. \<exists>st. execute (repo_host a) test_runner (repo_state p files) request = (st, Some result) \<and>
       ts_world st = files'"
  shows "executes a (new_runner ''/repo'') files request = Some (files', result)"
  unfolding new_runner_limits by (rule executes_built [OF _ _ _ _ assms]) (simp_all add: standalone_def)

lemma repo_reads:
  assumes "validate_relative p = Inr p" "files p = Some c" "valid_utf8 c" "length c \<le> max_file_input_bytes standalone"
  shows "read_to_string_bounded demo_ops (ws_at (limited b n) files) p (max_file_input_bytes (rn_limits (limited b n))) =
    Inr c"
  using assms
  by (simp add: read_to_string_bounded_def read_checked_def ws_at_def limited_def demo_ops_def saturating_add_def
      usize_max_def standalone_def valid_utf8_def)

lemma passes_reads_lines: "reads_lines_with_offsets_and_reports_truncation"
proof -
  let ?c = "''one'' @ [NL] @ ''two'' @ [NL] @ ''three'' @ [NL]"
  have v: "validate_relative ''notes.txt'' = Inr ''notes.txt''" "valid_utf8 ?c"
    "str_lines ?c = [''one'', ''two'', ''three'']" by code_simp+
  have "read_file (repo_host no_git) (test_runner)
      [''notes.txt'' \<mapsto> ?c] ''notes.txt'' 1 1 = Inr (File ''two'' 1 (Some 2) True)"
    unfolding read_file_def repo_host_simps
    by (subst repo_reads [OF v(1) _ v(2)])
       (simp_all add: v(3) [simplified] standalone_def limited_def Let_def saturating_add_def usize_max_def)
  then show ?thesis
    unfolding reads_lines_with_offsets_and_reports_truncation_def Let_def
    by (intro executes_new) (simp_all add: execute_def execute_authorized_def execute_blocking_def)
qed

text \<open>The root and the files right below it resolve to themselves.\<close>

definition repo_resolves :: "demo_dir \<Rightarrow> string \<Rightarrow> string \<Rightarrow> bool" where
  "repo_resolves files p rel \<longleftrightarrow>
     (case resolve (repo_fs files) [] \<lparr>ws_root = ''/repo'', ws_root_dir = files\<rparr> p of
        Inr resolved \<Rightarrow> relative_path \<lparr>rn_root = ''/repo'', rn_limits = undefined\<rparr> resolved = Inr rel
      | Inl _ \<Rightarrow> False)"

lemma repo_confined:
  assumes "repo_resolves files p rel"
  shows "confined_relative (repo_host a) (limited b n) files p = Inr rel"
proof -
  have "ws_at (limited b n) files = \<lparr>ws_root = ''/repo'', ws_root_dir = files\<rparr>"
    by (simp add: ws_at_def limited_def)
  moreover have "relative_path (limited b n) q = relative_path \<lparr>rn_root = ''/repo'', rn_limits = undefined\<rparr> q" for q
    by (simp add: relative_path_def limited_def)
  ultimately show ?thesis using assms
    by (simp add: confined_relative_def repo_resolves_def split: sum.splits)
qed

lemma repo_resolves_files:
  "repo_resolves files [] ''.''"
  "repo_resolves [''file.txt'' \<mapsto> c] ''file.txt'' ''file.txt''"
  by code_simp+

text \<open>A listing: Git prints the paths \<open>ps\<close>, one on each line.\<close>

lemma repo_list_paths:
  assumes "\<And>args. a (''ls-files'' # args) = listing" "length listing \<le> b" "valid_utf8 listing"
    "sort (str_lines listing) = ps" "length ps \<le> n" "sum_list (map length ps) \<le> b"
  shows "\<exists>st'. list_paths (repo_host a) (limited b n) st [] = (st', Inr (ps, False)) \<and> ts_world st' = ts_world st"
proof -
  have limits: "max_output_bytes (rn_limits (limited b n)) = b" "max_results (rn_limits (limited b n)) = n"
    by (simp_all add: limited_def)
  have "retain_paths b u qs = (qs, False)" if "u + sum_list (map length qs) \<le> b" for u qs
    using that by (induction qs arbitrary: u) auto
  from this [of 0 ps] have "bounded_paths (rn_limits (limited b n)) listing False = (ps, False)"
    using assms(4-6) by (simp add: bounded_paths_def limits)
  moreover have "lossy_bounded listing b = (listing, False)"
    using assms(2,3) by (simp add: lossy_bounded_def tool_truncate_utf8_def from_utf8_lossy_valid)
  ultimately show ?thesis
    using assms(1,2) by (simp add: list_paths_def repo_confined [OF repo_resolves_files(1)] repo_git_text limits Let_def)
qed

lemma passes_repository_output:
  assumes "16 < length status_lines"
  shows "repository_output_is_bounded_while_git_is_drained status_lines files"
proof -
  let ?a = "\<lambda>args. if hd args = ''status'' then status_lines else []"
  obtain str c where l: "lossy_bounded (take 16 status_lines) 16 = (str, c)" by fastforce
  with lossy_bounded_length [of "take 16 status_lines" 16] have "length str \<le> 16" by simp
  moreover have "executes ?a (runner_with_limits ''/repo'' 16 100) files GitStatus = Some (files, Inr (Output str True))"
    using assms l
    by (intro executes_built)
       (simp_all add: execute_def execute_authorized_def execute_blocking_def standalone_def git_output_def
         repo_git_text limited_def Let_def)
  ultimately show ?thesis by (simp add: repository_output_is_bounded_while_git_is_drained_def)
qed

abbreviation no_matches :: search_state where
  "no_matches \<equiv> \<lparr>sr_matches = [], sr_bytes = 0, sr_truncated = False, sr_stop = False\<rparr>"

lemma repo_search:
  assumes "\<And>st. \<exists>st'. list_paths (repo_host a) (limited b n) st [] = (st', Inr (ps, False)) \<and> ts_world st' = ts_world st"
    "search_files (repo_host a) (limited b n) files q ps no_matches = Inr s"
  shows "\<exists>st'. execute (repo_host a) (limited b n) (repo_state p files) (SearchCode q []) =
      (st', Some (Inr (Matches (sr_matches s) (sr_truncated s)))) \<and> ts_world st' = files"
proof -
  obtain st' where st': "list_paths (repo_host a) (limited b n) (repo_state p files) [] = (st', Inr (ps, False))"
    "ts_world st' = files" using assms(1) [of "repo_state p files"] by auto
  then show ?thesis using assms(2)
    by (simp add: execute_def execute_authorized_def execute_blocking_def search_code_def)
qed

lemma repo_search_file:
  assumes "validate_relative path = Inr path" "files path = Some c" "valid_utf8 c"
    "length c \<le> max_file_input_bytes standalone"
  shows "search_files (repo_host a) (limited b n) files q (path # ps) s =
     (let s' = search_lines (rn_limits (limited b n)) q path 0 (str_lines c) s
      in if sr_stop s' then Inr s' else search_files (repo_host a) (limited b n) files q ps s')"
proof -
  have "is_file demo_ops (ws_at (limited b n) files) path = Inr True"
    using assms(1,2) by (simp add: is_file_def ws_at_def demo_ops_def)
  then show ?thesis by (simp add: repo_reads [of path files c] assms)
qed

lemma passes_search_limits: "search_respects_byte_and_result_limits"
proof -
  let ?c = "''needle followed by a very long matching line'' @ [NL] @ ''needle again'' @ [NL]"
  let ?a = "\<lambda>args. if hd args = ''ls-files'' then ''large.txt'' @ [NL] else []"
  let ?l = "''needle followed by a very long matching line''"
  have v: "validate_relative ''large.txt'' = Inr ''large.txt''" "valid_utf8 ?c" "str_lines ?c = [?l, ''needle again'']"
    "valid_utf8 (''large.txt'' @ [NL])" "sort (str_lines (''large.txt'' @ [NL])) = [''large.txt'']"
    "str_contains ''needle'' ?l" "tool_truncate_utf8 ?l 7 = (''needle '', True)" by code_simp+
  let ?s = "\<lparr>sr_matches = [\<lparr>match_path = ''large.txt'', match_line = 1, match_content = ''needle ''\<rparr>], sr_bytes = 16,
      sr_truncated = True, sr_stop = True\<rparr>"
  have search: "search_files (repo_host ?a) (limited 16 1) [''large.txt'' \<mapsto> ?c] ''needle'' [''large.txt''] no_matches = Inr ?s"
    by (subst repo_search_file [OF v(1) _ v(2)], simp, simp add: standalone_def, subst v(3))
       (simp add: search_line_def v(6,7) limited_def)
  have "\<exists>st'. list_paths (repo_host ?a) (limited 16 1) st [] = (st', Inr ([''large.txt''], False)) \<and>
      ts_world st' = ts_world st" for st
    by (rule repo_list_paths [OF _ _ v(4,5)]) simp_all
  note e = executes_built [OF _ _ _ _ repo_search [OF this]]
  have "executes ?a (runner_with_limits ''/repo'' 16 1) [''large.txt'' \<mapsto> ?c] (SearchCode ''needle'' []) =
      Some ([''large.txt'' \<mapsto> ?c], Inr (Matches (sr_matches ?s) (sr_truncated ?s)))"
    by (rule e) (simp add: standalone_def, simp add: standalone_def, simp, simp add: standalone_def, rule search)
  then show ?thesis unfolding search_respects_byte_and_result_limits_def by simp
qed

lemma passes_lists_and_searches: "lists_and_searches_tracked_and_untracked_files"
proof -
  let ?files = "[''tracked.txt'' \<mapsto> ''find me'' @ [NL], ''untracked.txt'' \<mapsto> ''also find me'' @ [NL]]"
  let ?listing = "''untracked.txt'' @ [NL] @ ''tracked.txt'' @ [NL]"
  let ?a = "\<lambda>args. if hd args = ''ls-files'' then ?listing else []"
  let ?m = "\<lambda>p str. \<lparr>match_path = p, match_line = 1, match_content = str\<rparr>"
  have v: "validate_relative ''tracked.txt'' = Inr ''tracked.txt''" "validate_relative ''untracked.txt'' = Inr ''untracked.txt''"
    "valid_utf8 (''find me'' @ [NL])" "valid_utf8 (''also find me'' @ [NL])" "valid_utf8 ?listing"
    "str_lines (''find me'' @ [NL]) = [''find me'']" "str_lines (''also find me'' @ [NL]) = [''also find me'']"
    "str_contains ''find me'' ''find me''" "str_contains ''find me'' ''also find me''"
    "sort (str_lines ?listing) = [''tracked.txt'', ''untracked.txt'']" by code_simp+
  have paths: "\<exists>st'. list_paths (repo_host ?a) test_runner st [] = (st', Inr ([''tracked.txt'', ''untracked.txt''], False)) \<and>
      ts_world st' = ts_world st" for st
    by (rule repo_list_paths [OF _ _ v(5,10)]) (simp_all add: standalone_def)
  let ?s = "\<lparr>sr_matches = [?m ''tracked.txt'' ''find me'', ?m ''untracked.txt'' ''also find me''], sr_bytes = 43,
      sr_truncated = False, sr_stop = False\<rparr>"
  have search: "search_files (repo_host ?a) test_runner ?files ''find me'' [''tracked.txt'', ''untracked.txt''] no_matches = Inr ?s"
    by (subst repo_search_file [OF v(1) _ v(3)], simp, simp add: standalone_def,
        subst repo_search_file [OF v(2) _ v(4)], simp, simp add: standalone_def, subst v(6), subst v(7))
       (simp add: search_line_def v(8,9) limited_def standalone_def tool_truncate_utf8_def Let_def)
  have "executes ?a (new_runner ''/repo'') ?files (SearchCode ''find me'' []) =
      Some (?files, Inr (Matches (sr_matches ?s) (sr_truncated ?s)))"
    by (rule executes_new [OF repo_search [OF paths search]])
  moreover have "\<exists>st. execute (repo_host ?a) test_runner (repo_state p ?files) (ListFiles []) =
      (st, Some (Inr (Files [''tracked.txt'', ''untracked.txt''] False))) \<and> ts_world st = ?files" for p
    using paths [of "repo_state p ?files"]
    by (auto simp: execute_def execute_authorized_def execute_blocking_def list_files_def simp del: fun_upd_apply)
  then have "executes ?a (new_runner ''/repo'') ?files (ListFiles []) =
      Some (?files, Inr (Files [''tracked.txt'', ''untracked.txt''] False))"
    by (rule executes_new)
  ultimately show ?thesis unfolding lists_and_searches_tracked_and_untracked_files_def Let_def by simp
qed

text \<open>Replacing text in the only file of a repository.\<close>

lemma repo_replaces:
  assumes "valid_utf8 c" "length c \<le> max_file_input_bytes standalone"
    "length (replace_first old new c) \<le> max_file_input_bytes standalone"
  shows "replace_text_if_unique demo_ops (ws_at (limited b n) [''file.txt'' \<mapsto> c]) ''id'' ''file.txt'' old new
       (max_file_input_bytes standalone) =
     (if match_count_2 old c = 1 then ([''file.txt'' \<mapsto> replace_first old new c], Inr True)
      else ([''file.txt'' \<mapsto> c], Inr False))"
proof -
  have v: "validate_relative ''file.txt'' = Inr ''file.txt''" "file_name ''file.txt'' = Some ''file.txt''"
    "temporary_path ''file.txt'' ''file.txt'' ''id'' = ''.file.txt.kodo-id.tmp''" by code_simp+
  have "read_checked demo_ops [''file.txt'' \<mapsto> c] ''file.txt'' q (max_file_input_bytes standalone) = Inr c" for q
    using assms(1,2) by (simp add: read_checked_def demo_ops_def saturating_add_def usize_max_def standalone_def valid_utf8_def)
  moreover have "write_and_rename demo_ops [''file.txt'' \<mapsto> c] ''.file.txt.kodo-id.tmp'' ''file.txt'' m str =
      ([''file.txt'' \<mapsto> str], Inr ())" for m str
    by (auto simp: write_and_rename_def demo_ops_def)
  moreover have "cap_permissions demo_ops d q = Inr 420" for d q by (simp add: demo_ops_def)
  ultimately show ?thesis
    using assms(3) by (simp add: replace_text_if_unique_def ws_at_def v Let_def)
qed

lemma executes_replace:
  assumes "valid_utf8 c" "length c \<le> 100" "length old \<le> 100" "length new \<le> 100" "old \<noteq> []"
    "length (replace_first old new c) \<le> 200"
  shows "executes no_git (new_runner ''/repo'') [''file.txt'' \<mapsto> c] (ReplaceText ''file.txt'' old new) =
     Some (if match_count_2 old c = 1
           then ([''file.txt'' \<mapsto> replace_first old new c], Inr (FilesChanged [''file.txt'']))
           else ([''file.txt'' \<mapsto> c], Inl (Replace ''old_text must match exactly once'')))"
    (is "_ = Some ?out")
proof -
  have l: "max_file_input_bytes (rn_limits test_runner) = max_file_input_bytes standalone" "max_patch_input_bytes (rn_limits test_runner) = 524288"
    by (simp_all add: limited_def standalone_def)
  have "replace_text_if_unique demo_ops (ws_at test_runner [''file.txt'' \<mapsto> c]) ''id'' ''file.txt'' old new
       (max_file_input_bytes standalone) =
     (if match_count_2 old c = 1 then ([''file.txt'' \<mapsto> replace_first old new c], Inr True)
      else ([''file.txt'' \<mapsto> c], Inr False))"
    using assms by (intro repo_replaces) (simp_all add: standalone_def)
  moreover have "\<not> 524288 < length ''file.txt'' + length old + length new"
    "length ''file.txt'' + length old \<le> usize_max" "length ''file.txt'' + length old + length new \<le> usize_max"
    using assms(3,4) by (simp_all add: usize_max_def)
  ultimately have "\<exists>st. execute (repo_host no_git) test_runner (repo_state p [''file.txt'' \<mapsto> c])
        (ReplaceText ''file.txt'' old new) = (st, Some (snd ?out)) \<and> ts_world st = fst ?out" for p
    using assms(5)
    by (simp add: execute_def execute_authorized_def replace_text_authorized_def
        repo_confined [OF repo_resolves_files(2)] l checked_add_def Let_def del: fun_upd_apply)
  from executes_new [OF this] show ?thesis by simp
qed

lemma passes_replaces_text: "replaces_text_only_when_it_has_one_exact_match u"
proof -
  have v: "valid_utf8 (''before'' @ [NL])" "valid_utf8 (''after'' @ [NL])" "valid_utf8 (''same same'' @ [NL])"
    "match_count_2 ''before'' (''before'' @ [NL]) = 1" "match_count_2 ''missing'' (''after'' @ [NL]) = 0"
    "match_count_2 ''same'' (''same same'' @ [NL]) = 2"
    "replace_first ''before'' ''after'' (''before'' @ [NL]) = ''after'' @ [NL]"
    "length (replace_first ''missing'' ''replacement'' (''after'' @ [NL])) \<le> 200"
    "length (replace_first ''same'' ''replacement'' (''same same'' @ [NL])) \<le> 200"
    "str_contains ''exactly once'' (''text replacement is invalid: '' @ ''old_text must match exactly once'')"
    by code_simp+
  have "executes no_git (new_runner ''/repo'') [''file.txt'' \<mapsto> ''before'' @ [NL]]
        (ReplaceText ''file.txt'' ''before'' ''after'') =
      Some ([''file.txt'' \<mapsto> ''after'' @ [NL]], Inr (FilesChanged [''file.txt'']))"
    using executes_replace [of "''before'' @ [NL]" "''before''" "''after''"] v(1,4,7) by simp
  moreover have "executes no_git (new_runner ''/repo'') [''file.txt'' \<mapsto> ''after'' @ [NL]]
        (ReplaceText ''file.txt'' ''missing'' ''replacement'') =
      Some ([''file.txt'' \<mapsto> ''after'' @ [NL]], Inl (Replace ''old_text must match exactly once''))"
    using executes_replace [of "''after'' @ [NL]" "''missing''" "''replacement''"] v(2,5,8) by simp
  moreover have "executes no_git (new_runner ''/repo'') [''file.txt'' \<mapsto> ''same same'' @ [NL]]
        (ReplaceText ''file.txt'' ''same'' ''replacement'') =
      Some ([''file.txt'' \<mapsto> ''same same'' @ [NL]], Inl (Replace ''old_text must match exactly once''))"
    using executes_replace [of "''same same'' @ [NL]" "''same''" "''replacement''"] v(3,6,9) by simp
  ultimately show ?thesis
    using v(10) by (simp add: replaces_text_only_when_it_has_one_exact_match_def)
qed

lemma repo_numstat:
  assumes "length (a args) \<le> limit"
  shows "git_with_limit (repo_host a) st args limit (Some input) =
     (st\<lparr>ts_git := ts_git st @ [(ts_world st, GitCall (git_prefix @ args) (Some input))]\<rparr>,
      Inr \<lparr>co_status = Some 0, co_stdout = a args, co_stderr = [], co_stdout_truncated = False,
           co_stderr_truncated = False, co_limit = limit\<rparr>)"
  using assms
  by (simp add: git_with_limit_def repo_host_def run_command_def read_bounded_def read_consume_def
      status_success_def Let_def)

text \<open>The application itself, on a host where Git accepts every patch.\<close>

lemma repo_applies:
  "\<exists>st'. git_apply_authorized (repo_host a) r st patch unmanaged =
     (st', Inr \<lparr>co_status = Some 0, co_stdout = [], co_stderr = [], co_stdout_truncated = False,
                co_stderr_truncated = False, co_limit = max_output_bytes (rn_limits r)\<rparr>) \<and> ts_world st' = ts_world st"
proof -
  have "host_apply (repo_host a) w q = (w, Inr \<lparr>ar_world = w, ar_group = Some 42, ar_wait = Inr (Some 0),
      ar_input_error = None, ar_reaped = True, ar_stdout = Some [], ar_stderr = Some []\<rparr>)" for w q
    by (simp add: repo_host_def demo_host_def)
  then show ?thesis
    by (simp add: git_apply_authorized_def apply_outcome_def read_async_bounded_def status_success_def)
qed

text \<open>A patch whose size and metadata fit: the answer is decided by the bounds on its paths.\<close>

lemma repo_executes_patch:
  assumes "a [''apply'', ''--numstat'', ''-z''] = out" "a [''apply'', ''--check''] = []"
    "length out \<le> max_patch_input_bytes (rn_limits r)" "length patch \<le> max_patch_input_bytes (rn_limits r)"
    "map record_path (filter (\<lambda>rec. rec \<noteq> []) (split_on NUL out)) @ List.map_filter line_path (str_lines patch) = named"
    "collect_paths (repo_host a) r (ts_world st) named [] = Inr paths"
  shows "\<exists>st'. execute (repo_host a) r st (ApplyPatch patch) =
     (st', Some (map_sum id FilesChanged (accept_paths (rn_limits r) paths))) \<and> ts_world st' = ts_world st"
proof -
  have p: "\<exists>st'. patch_paths (repo_host a) r st patch = (st', accept_paths (rn_limits r) paths) \<and> ts_world st' = ts_world st"
    using assms(1,3,5,6) by (simp add: patch_paths_def repo_numstat successful_patch_def status_success_def)
  show ?thesis
  proof (cases "accept_paths (rn_limits r) paths")
    case (Inl e)
    with p assms(4) show ?thesis
      by (auto simp: execute_def execute_authorized_def apply_patch_authorized_def preflight_patch_def)
  next
    case (Inr accepted)
    then obtain st1 where "patch_paths (repo_host a) r st patch = (st1, Inr accepted)" "ts_world st1 = ts_world st"
      using p by auto
    then obtain st2 where s2: "preflight_patch (repo_host a) r st patch unmanaged = (st2, Inr accepted)" "ts_world st2 = ts_world st"
      using assms(2) by (simp add: preflight_patch_def git_with_input_def repo_numstat successful_patch_def status_success_def)
    obtain st3 co where "git_apply_authorized (repo_host a) r st2 patch unmanaged = (st3, Inr co)"
      "successful_patch co = Inr []" "ts_world st3 = ts_world st"
      using repo_applies [of a r st2 patch] s2(2) by (auto simp: successful_patch_def status_success_def)
    with s2 assms(4) Inr show ?thesis
      by (simp add: execute_def execute_authorized_def apply_patch_authorized_def)
  qed
qed

lemma limited_workspace: "ws_at (limited b n) files = \<lparr>ws_root = ''/repo'', ws_root_dir = files\<rparr>"
  by (simp add: limited_def ws_at_def)

lemma small_patch: "k \<le> 200 \<Longrightarrow> k \<le> max_patch_input_bytes (rn_limits (limited b n))"
  by (simp add: limited_def standalone_def)

lemma passes_patch_paths: "rejects_patch_paths_that_cannot_fit_in_the_result u"
proof -
  let ?out = "[CHR ''1'', TAB, CHR ''0'', TAB] @ ''long.txt'' @ [NUL]"
  let ?a = "\<lambda>args. if ''--numstat'' \<in> set args then ?out else []"
  let ?e = "Patch ''affected patch paths exceed the output byte limit''"
  have v: "map record_path (filter (\<lambda>rec. rec \<noteq> []) (split_on NUL ?out)) @
      List.map_filter line_path (str_lines long_patch) = [Inr ''long.txt'']"
    "str_contains ''affected patch paths'' (''patch is invalid: '' @ ''affected patch paths exceed the output byte limit'')"
    "resolve_new (repo_fs Map.empty) [] \<lparr>ws_root = ''/repo'', ws_root_dir = Map.empty :: demo_dir\<rparr> ''long.txt'' =
       Inr ''/repo/long.txt''" "length long_patch \<le> 200" "length ?out \<le> 200"
    by code_simp+
  have c: "collect_paths (repo_host ?a) (limited 4 100) Map.empty [Inr ''long.txt''] [] = Inr [''long.txt'']"
    unfolding collect_paths.simps repo_host_simps limited_workspace v(3) by simp
  have "map_sum id FilesChanged (accept_paths (rn_limits (limited 4 100)) [''long.txt'']) = Inl ?e"
    by (simp add: accept_paths_def limited_def)
  moreover have "\<exists>st. execute (repo_host ?a) (limited 4 100) (repo_state p Map.empty) (ApplyPatch long_patch) =
      (st, Some (map_sum id FilesChanged (accept_paths (rn_limits (limited 4 100)) [''long.txt'']))) \<and>
      ts_world st = ts_world (repo_state p Map.empty)" for p
    by (rule repo_executes_patch [OF _ _ small_patch [OF v(5)] small_patch [OF v(4)] v(1)])
       (simp, simp, simp only: repo_state_simps c)
  ultimately have "executes ?a (runner_with_limits ''/repo'' 4 100) Map.empty (ApplyPatch long_patch) = Some (Map.empty, Inl ?e)"
    by (intro executes_built) (simp_all add: standalone_def)
  then show ?thesis using v(2) by (simp add: rejects_patch_paths_that_cannot_fit_in_the_result_def)
qed

lemma passes_rename: "applying_a_rename_reports_source_and_destination_paths"
proof -
  let ?out = "[CHR ''0'', TAB, CHR ''0'', TAB] @ ''new.txt'' @ [NUL]"
  let ?a = "\<lambda>args. if ''--numstat'' \<in> set args then ?out else []"
  let ?files = "[''old.txt'' \<mapsto> ''content'' @ [NL]]"
  let ?named = "[''new.txt'', ''old.txt'', ''new.txt'']"
  have v: "map record_path (filter (\<lambda>rec. rec \<noteq> []) (split_on NUL ?out)) @
      List.map_filter line_path (str_lines rename_patch) = [Inr ''new.txt'', Inr ''old.txt'', Inr ''new.txt'']"
    "remdups_adj (sort ?named) = [''new.txt'', ''old.txt'']"
    "resolve_new (repo_fs ?files) [] \<lparr>ws_root = ''/repo'', ws_root_dir = ?files\<rparr> ''new.txt'' = Inr ''/repo/new.txt''"
    "resolve_new (repo_fs ?files) [] \<lparr>ws_root = ''/repo'', ws_root_dir = ?files\<rparr> ''old.txt'' = Inr ''/repo/old.txt''"
    "length rename_patch \<le> 200" "length ?out \<le> 200"
    by code_simp+
  have c: "collect_paths (repo_host ?a) test_runner ?files [Inr ''new.txt'', Inr ''old.txt'', Inr ''new.txt''] [] = Inr ?named"
    unfolding collect_paths.simps repo_host_simps limited_workspace v(3,4) by simp
  have "map_sum id FilesChanged (accept_paths (rn_limits test_runner) ?named) = Inr (FilesChanged [''new.txt'', ''old.txt''])"
    unfolding accept_paths_def v(2) by (simp add: limited_def standalone_def)
  moreover have "\<exists>st. execute (repo_host ?a) test_runner (repo_state p ?files) (ApplyPatch rename_patch) =
      (st, Some (map_sum id FilesChanged (accept_paths (rn_limits test_runner) ?named))) \<and>
      ts_world st = ts_world (repo_state p ?files)" for p
    by (rule repo_executes_patch [OF _ _ small_patch [OF v(6)] small_patch [OF v(5)] v(1)])
       (simp, simp, simp only: repo_state_simps c)
  ultimately have "executes ?a (new_runner ''/repo'') ?files (ApplyPatch rename_patch) =
      Some (?files, Inr (FilesChanged [''new.txt'', ''old.txt'']))"
    by (intro executes_new) (simp only: repo_state_simps)
  then show ?thesis by (simp add: applying_a_rename_reports_source_and_destination_paths_def)
qed

end
