(* ===== verification/Spec2Isabelle.thy ===== *)
theory Spec2Isabelle
  imports Process Lease_Fencing Runner_Lock Connected_Runner Session_Follow Command_Line Conformance Runner_Conformance
begin

text \<open>
  A verification library for the workspace runner of Kodo, the Rust crate
  \<^verbatim>\<open>src/crates/kodo\<close>.  The runner is the process beside a Git worktree that executes the tool
  requests of a remote control plane: it reads and searches files, computes diffs, applies
  patches, replaces text and supervises shell commands, each request under a lease that
  can expire or be superseded at any moment, and each answered at most once.  The same binary
  holds the session client, which hosts a runner, starts or resumes a session over the API of the
  control plane, prints its events and asks the user for approvals.

  \<^bold>\<open>Parts and their theories.\<close>

  \<^item> \<^verbatim>\<open>Kodo_Prelude\<close>: machine types (\<open>u64\<close> is a 64-bit word and wraps, \<open>usize\<close> a natural number with
    the checked and saturating operations written out, a \<open>String\<close> its UTF-8 bytes, an \<open>Instant\<close>
    nanoseconds), errors of the operating system, and two interfaces.  \<open>front_eviction\<close> is the
    contract of a loop that pops the oldest entry of a queue while a budget is exceeded; it is
    interpreted for the output retention of a process and for both evictions of the
    response cache.  \<open>stream_consumer\<close> is the contract of a reader that cannot see how a stream is cut
    into chunks; it is interpreted for the UTF-8 decoder and for the capture of Git output.
  \<^item> \<^verbatim>\<open>Rust_Utf8\<close>, \<^verbatim>\<open>Rust_Str\<close>, \<^verbatim>\<open>Rust_Path\<close>: the parts of the Rust standard library the code rests on,
    \<open>from_utf8\<close> and its lossy form, string searching and splitting, path components, and path
    resolution on a file system with symbolic links.  The interface \<open>utf8_truncation\<close> is the contract
    of cutting at a character boundary; all three truncations of the code are interpretations.
  \<^item> \<^verbatim>\<open>Protocol\<close> (\<^verbatim>\<open>protocol.rs\<close>): limits and their validation, requests, results, envelopes.
  \<^item> \<^verbatim>\<open>Authority\<close> (\<^verbatim>\<open>authority.rs\<close>): the lease registry, guards, \<open>grant\<close>, \<open>ensure_valid\<close> and the waiter
    \<open>wait_until_invalid\<close> as a state machine.  The interface \<open>lease_authority\<close> states what holders of
    guards rely on; the registry interprets it.
  \<^item> \<^verbatim>\<open>Process_Output\<close> and \<^verbatim>\<open>Process\<close> (\<^verbatim>\<open>process.rs\<close>): the bounded output of a command and its readers; the
    manager with \<open>start\<close>, \<open>poll\<close> and \<open>stop\<close>; the supervisor of each command as a state machine whose
    phases lie between the suspension points of \<open>supervise\<close>, in a step relation where commands, readers,
    leases and the clock interleave.
  \<^item> \<^verbatim>\<open>Dispatcher\<close> (\<^verbatim>\<open>dispatcher.rs\<close>): the response cache, the election of one execution per request
    identifier, tombstones, accounting and waiters.  Slots are shared between the cache,
    executions and waiters, so they live in a heap and are named by their index; each critical
    section of the code is one step.
  \<^item> \<^verbatim>\<open>Workspace\<close> (\<^verbatim>\<open>workspace.rs\<close>): path validation, \<open>resolve\<close> and \<open>resolve_new\<close>, bounded reads, the atomic
    replacement of text, discovery and the runner lock.  \<^verbatim>\<open>Runner_Lock\<close>: that lock over the lifetimes of
    several runners, as a step relation of acquisitions and drops.
  \<^item> \<^verbatim>\<open>Runner_Output\<close> and \<^verbatim>\<open>Runner\<close> (\<^verbatim>\<open>runner.rs\<close>): running Git and capturing its output; every tool,
    the patch pipeline and the dispatch of requests under a guard, one call from beginning to end.
  \<^item> \<^verbatim>\<open>Tool_Scheduler\<close> (\<^verbatim>\<open>runner.rs\<close>): calls side by side.  Each is a task whose phases lie between the
    suspension points of \<open>execute_authorized\<close>; \<open>task_moves\<close> has the semaphore \<open>blocking_tools\<close> and the
    \<open>mutation_lock\<close>, \<open>tool_step\<close> adds new calls and the rest of the world.  The last check of a
    replacement and its write are two steps, and a stop polls the process table until its command ends.
  \<^item> \<^verbatim>\<open>Runner_System\<close>: dispatcher and calls together.  An election submits a call, and a call that has
    returned is what an execution publishes; \<open>runner_step\<close> interleaves both.  \<^verbatim>\<open>Lease_Fencing\<close>: the same
    system when tools and dispatcher read one registry and one clock (\<open>shared_run\<close>).
  \<^item> \<^verbatim>\<open>Web_Values\<close>: JSON values and their accessors, and the records of functions for the URL, UUID and
    HTTP libraries.  The interface \<open>bounded_collect\<close> is the contract of reading a response body under
    a limit; both clients interpret it.
  \<^item> \<^verbatim>\<open>Control_Plane\<close>, \<^verbatim>\<open>Channel\<close> and \<^verbatim>\<open>Serve\<close> (\<^verbatim>\<open>control_plane.rs\<close>): frames, registration and the join;
    the channel loop, whose branches of \<open>select!\<close> are the rules of \<open>channel_step\<close> over the world of the
    dispatcher; the reconnecting server, whose phases lie between its suspension points.
  \<^item> \<^verbatim>\<open>Connected_Runner\<close>: the server and its runner as one system.  They are synchronized on the dispatcher
    both have; what the composition rules out is just publishing a response that no call returned
    (\<open>serve_step_composes\<close>).
  \<^item> \<^verbatim>\<open>Session_Format\<close>, \<^verbatim>\<open>Session_Cli\<close> and \<^verbatim>\<open>Session_Follow\<close> (\<^verbatim>\<open>session_cli.rs\<close>): the rendering of events; the
    requests, retries, approvals and loop of the client; what it guarantees over whole runs.
  \<^item> \<^verbatim>\<open>Command_Line\<close> (\<^verbatim>\<open>main.rs\<close>): the parsed command line, the choice of the command, the exit code.
  \<^item> \<^verbatim>\<open>Conformance\<close> and \<^verbatim>\<open>Runner_Conformance\<close>: unit tests of the crate, translated and run on the model.

  \<^bold>\<open>How they interact.\<close>  \<open>dispatch_connected\<close> turns a lease into a guard with \<open>grant\<close> and elects an
  execution; the execution is \<open>execute_authorized\<close> with that guard; the tools consult
  \<open>ensure_valid\<close> again before each mutation, resolve paths with the workspace, and start commands
  whose supervisors watch the same guard.  The channel receives requests and leases for one
  dispatcher, polls the waiters and sends their responses; the server keeps that dispatcher over
  all connections.  \<open>run\<close> starts the server alone or together with the session client, which waits for
  the server to be ready.  The properties of this theory follow a request along the chain from
  the lease to the patch, for one execution and for the whole interleaved system.

  \<^bold>\<open>What is shown.\<close>  Dispatch: no identifier executes twice, whatever is retried, dropped or
  evicted; the cache refines a map of used identifiers; replays are identical; waiters are always
  served; the budgets hold and the books are exact.  Authority: a lost guard stays lost, a grant
  fences exactly the older holders, waiters never miss a loss.  Processes: the table is
  bounded, a terminal command has had its group killed and its result never changes, a running
  one has its guard armed and can be stopped, \<open>TimedOut\<close> means a timer.  Output: decoding is
  independent of chunking, retention is bounded, chained polls lose nothing.  Workspace: accepted
  paths are canonical and below the root, reads are whole or fail, replacements are all or
  nothing.  Tools: results are bounded, nothing is applied without valid authority, an applied
  patch was confined and checked first, paging and untruncated searches are complete.  Concurrency: no
  mutation comes between the check, the start and the end of a patch, permits are conserved, calls
  cannot deadlock and end after at most eight moves each, but for a stop whose command goes on.
  Dispatcher and tools: all requests with one identifier change the
  worktree at most once, what a waiter receives is the result of the call of its own request, it
  can always be answered, and once a newer owner of a session is known no call of an older one starts a
  mutation, where a start is the moment the last check passes; at most one that had started before still ends.
  The whole connected runner: what is sent on the socket is a refusal or the result of
  the only call under the identifier of the request, with its tool and session if SHA-256 does not collide, and
  the runner alone brings every request in flight to a response that it sends, or to the error that ends
  the channel.  Runner lock: one live lock per workspace.  Connection:
  frames survive the wire, credentials go to loopback hosts only, requests are not lost, the dispatcher
  outlives every connection, and the server returns only for the limits of an accepted join.  Session client: every event is shown in order, nothing is approved without consent, the
  approval shows what is approved, retries are copies and end when the API answers, errors do not
  show the token, and without a token nothing happens.  Two theorems
  show where the code departs from its comments (\<open>resolve_new\<close> on dangling links, \<open>search_code\<close> on
  missing files).

  \<^bold>\<open>Parameters.\<close>  Code outside the repository is an argument: SHA-256 and the JSON encodings
  (\<open>wire_codec\<close>), the directory capability of cap-std (\<open>dir_ops\<close>, with what is relied on in
  \<open>dir_laws\<close>), Git and the rest of the world (\<open>tool_host\<close>), the results of spawning, waiting and
  reading (arguments of the steps of \<open>proc_step\<close>), the libraries of the two clients (\<open>url_ops\<close>, \<open>uuid_ops\<close>,
  \<open>json_codec\<close>, \<open>client\<close>), the network (a WebSocket is what it will deliver and which sends fail), the
  file locks of fs2 (\<open>flock_ops\<close>, with what is relied on in \<open>flock_laws\<close>), and the
  API as a state with a function that answers one request; \<open>serves_events\<close> states what the client
  relies on in the pages of events, and \<open>records\<close> only names the requests that were made.

  \<^bold>\<open>Bounds.\<close>  Path resolution follows at most 40 links, the limit of Linux, and reports \<open>ELOOP\<close>
  beyond.  All loops of the code are total functions with termination proofs, except the two
  that wait for events: \<open>wait_until_terminal\<close> takes the tables it observes, and the waiters are state
  machines; for these it is proved that they can always go on to return.  \<open>read_pages\<close>, the
  client of the paging property, has fuel, and one more than the number of lines is enough.
  \<open>retry_api\<close> and \<open>drive\<close> consume a script of what the scheduler chooses and have not returned when it
  runs out; the termination theorem says which script suffices.

  \<^bold>\<open>Not modelled.\<close>  File permissions; the order in which Tokio hands out permits and the lock (any
  waiter may be next); how a read, or a replacement after its last check, interleaves with other work while it runs on
  its blocking thread (each is one step); the moment between the last check before \<^verbatim>\<open>git apply\<close> and the spawn of the
  process, and in \<open>grant\<close> the moments between the clock, the lock and the notification (each is one step); runners
  with different temporary directories, for \<open>TMPDIR\<close> decides where the runner lock lies; lines written to the standard error, but for
  the reported sessions; argument parsing, which is clap's; panics other than those of the text
  replacement and of \<open>start\<close>; the tests that need an operating system, the effects of Git, a URL or a JSON library; the
  Elixir control plane.
\<close>

section \<open>From a connected request to a mutation\<close>

text \<open>End to end, a patch is applied only under the lease it came with.  Take an execution
  that a connected request spawned and any run of it on any host: whenever it starts
  \<^verbatim>\<open>git apply\<close>, the patch is the one of the request, and at that moment the registry holds, for the
  session of the request's lease, exactly the ownership epoch of that lease, not yet expired.\<close>

theorem applied_under_requested_lease:
  assumes "dispatch_connected cx t d request = (d', reply, Some ex)"
    and "execute_authorized h r st (task_request ex) (task_authority ex) = (st', result)"
    and "ts_git st' = ts_git st @ calls" "(w, GitApply patch) \<in> set calls"
  shows "req_request request = ApplyPatch patch \<and>
    (\<exists>lease state. req_authority request = Some lease \<and>
       fst (host_authority h w) (lease_session_id lease) = Some state \<and>
       ownership_epoch state = lease_ownership_epoch lease \<and>
       snd (host_authority h w) < expires_at state)"
proof -
  have "extends (permitted h (task_authority ex) (task_request ex)) st st'"
    by (rule execute_permitted [OF assms(2)])
  then have p: "permitted h (task_authority ex) (task_request ex) (w, GitApply patch)"
    using assms(3,4) by (auto simp: extends_def list_all_iff)
  obtain lease where l: "req_authority request = Some lease"
    "grant (authorities d) t lease = Inr (authorities d', task_authority ex)"
    "task_request ex = req_request request"
    using dispatch_spawns [OF assms(1)] by blast
  from l(2) have g: "guard_registry (task_authority ex)"
    "guard_session_id (task_authority ex) = lease_session_id lease"
    "guard_ownership_epoch (task_authority ex) = lease_ownership_epoch lease"
    by (auto elim!: grant_InrE)
  from p have "ensure_valid (fst (host_authority h w)) (snd (host_authority h w)) (task_authority ex) = Inr ()"
    by (auto simp: permitted_def check_authority_def split: sum.splits)
  with g have "\<exists>state. fst (host_authority h w) (lease_session_id lease) = Some state \<and>
      state_matches state (task_authority ex) (snd (host_authority h w))"
    using ensure_valid_iff by metis
  with p l g(3) show ?thesis by (auto simp: permitted_def state_matches_def)
qed

theorem applied_under_requested_lease_witness:
  "\<exists>state. demo_registry (lease_session_id (demo_lease 1)) = Some state \<and>
     ownership_epoch state = lease_ownership_epoch (demo_lease 1) \<and> 0 < expires_at state"
proof -
  let ?q = "demo_request (ApplyPatch ''p'')"
  let ?ex = "spawn_execution ?q demo_guard 0"
  obtain d' where d: "dispatch_connected demo_codec 0 (new_dispatcher standalone) ?q = (d', AwaitSlot 0, Some ?ex)"
    by (simp add: dispatch_connected_def demo_request_def demo_grant new_dispatcher_def
        dispatch_with_authority_def response_cache_default_def evict_requests.simps requests_full_def
        standalone_def join_slot_def envelope_fingerprint_def request_fingerprint_def Mapping.lookup_empty)
  have e: "execute_authorized demo_host demo_runner demo_state (task_request ?ex) (task_authority ?ex) =
      (demo_patched, Some (Inr (FilesChanged [''f''])))"
    by (simp add: execute_authorized_def demo_apply spawn_execution_def demo_request_def)
  have c: "ts_git demo_patched = ts_git demo_state @ ts_git demo_patched"
    "(demo_files, GitApply ''p'') \<in> set (ts_git demo_patched)"
    by (simp_all add: demo_patched_def demo_state_def)
  from applied_under_requested_lease [OF d e c] show ?thesis
    by (auto simp: demo_request_def)
qed

text \<open>C7.  End to end, a patch is applied only under the lease it came with: however requests, leases and
  tool calls interleave, every \<^verbatim>\<open>git apply\<close> since the start of the runner applies the patch of a
  received request, and in the world in which it was started the registry holds, for the session of that
  request's lease, exactly the ownership epoch of that lease, not yet expired.\<close>

theorem patches_under_requested_lease:
  assumes "runner_reachable cx u h r st sys" "(w, GitApply patch) \<in> set (ts_git (sys_tools (rs_tools sys)))"
    and "(w, GitApply patch) \<notin> set (ts_git st)"
  shows "\<exists>request \<in> set (rs_requests sys). \<exists>lease state. req_request request = ApplyPatch patch \<and>
    req_authority request = Some lease \<and>
    fst (host_authority h w) (lease_session_id lease) = Some state \<and>
    ownership_epoch state = lease_ownership_epoch lease \<and> snd (host_authority h w) < expires_at state"
proof -
  note inv = runner_reachable_inv [OF assms(1)]
  have "granted h (rs_tools sys) (w, GitApply patch)"
    using tool_run_granted [OF inv(4) assms(2,3)] .
  then obtain g request where c: "(g, request) \<in> set (call_list (rs_tools sys))"
    and p: "permitted h g request (w, GitApply patch)" by (auto simp: granted_def task_calls_def)
  then obtain k where k: "k < length (call_list (rs_tools sys))" "call_list (rs_tools sys) ! k = (g, request)"
    by (auto simp: in_set_conv_nth)
  have calls: "list_all2 made_for (call_list (rs_tools sys)) (rs_requests sys)" using inv(1) by (simp add: aligned_def)
  obtain q where q: "q \<in> set (rs_requests sys)" "made_for (g, request) q"
    using list_all2_nthD [OF calls k(1)] k(2) list_all2_lengthD [OF calls] nth_mem k(1) by metis
  then obtain lease where l: "req_authority q = Some lease" "guard_registry g" "req_request q = request"
    "guard_session_id g = lease_session_id lease" "guard_ownership_epoch g = lease_ownership_epoch lease"
    by (auto simp: made_for_def)
  from p have "ensure_valid (fst (host_authority h w)) (snd (host_authority h w)) g = Inr ()" "request = ApplyPatch patch"
    by (auto simp: permitted_def check_authority_def split: sum.splits)
  moreover from this(1) l have "\<exists>state. fst (host_authority h w) (lease_session_id lease) = Some state \<and>
      state_matches state g (snd (host_authority h w))"
    using ensure_valid_iff by metis
  ultimately show ?thesis using q(1) l by (auto simp: state_matches_def)
qed

theorem patches_under_requested_lease_witness:
  "(demo_files, GitApply ''p'') \<in> set (ts_git (sys_tools (rs_tools demo_applied))) \<and>
   (\<exists>state. demo_registry (lease_session_id (demo_lease 1)) = Some state \<and>
     ownership_epoch state = lease_ownership_epoch (demo_lease 1) \<and> 0 < expires_at state)"
proof
  show m: "(demo_files, GitApply ''p'') \<in> set (ts_git (sys_tools (rs_tools demo_applied)))"
    by (simp add: demo_patched_def)
  have "(demo_files, GitApply ''p'') \<notin> set (ts_git demo_state)" by (simp add: demo_state_def)
  from patches_under_requested_lease [OF demo_applied_reachable m this]
  show "\<exists>state. demo_registry (lease_session_id (demo_lease 1)) = Some state \<and>
     ownership_epoch state = lease_ownership_epoch (demo_lease 1) \<and> 0 < expires_at state"
    by (auto simp: demo_patch_request_def demo_request_def)
qed

end
